(* ===== verification/Prelude.thy ===== *)
theory Prelude
  imports Main "HOL-Library.Word" "HOL-Library.Monad_Syntax"
begin

text \<open>
  Shared vocabulary of the development: the machine types of the C code, the C
  casts it relies on, little-endian encodings of integers, and the algebra of
  overwriting a stretch of a byte array (\<open>splice\<close>), from which every store
  into a mapped file is built. A computation that the C program would not survive
  (an access outside mapped memory, a failed \<open>assert\<close>) has the value
  \<^const>\<open>None\<close> throughout.
\<close>

unbundle bit_operations_syntax

section \<open>Types\<close>

type_synonym byte = "8 word"
type_synonym u16 = "16 word"
type_synonym u32 = "32 word"
type_synonym u64 = "64 word"
type_synonym bytes = "byte list"

named_theorems codec_simps \<open>little-endian encodings and their lengths\<close>
named_theorems splice_simps \<open>overwriting a stretch of a byte array\<close>
named_theorems mem_simps \<open>loads and stores that stay inside a mapping\<close>
named_theorems err_defs \<open>the error codes of mqlogerrno.h\<close>

section \<open>Casts\<close>

definition size_of :: "'a list \<Rightarrow> u64" where
  "size_of xs = word_of_nat (length xs)"

definition ssize :: "u64 \<Rightarrow> int" where
  "ssize w = sint w"

definition int_of_size :: "u64 \<Rightarrow> int" where
  "int_of_size w = sint (ucast w :: u32)"

definition u32_of_size :: "u64 \<Rightarrow> u32" where
  "u32_of_size w = ucast w"

definition size_of_u32 :: "u32 \<Rightarrow> u64" where
  "size_of_u32 w = ucast w"

section \<open>Little-endian encodings\<close>

fun le_encode :: "nat \<Rightarrow> nat \<Rightarrow> bytes" where
  "le_encode 0 v = []"
| "le_encode (Suc k) v = word_of_nat v # le_encode k (v div 256)"

fun le_decode :: "bytes \<Rightarrow> nat" where
  "le_decode [] = 0"
| "le_decode (b # bs) = unat b + 256 * le_decode bs"

definition zeros :: "nat \<Rightarrow> bytes" where
  "zeros n = replicate n 0"

section \<open>Overwriting a stretch of a byte array\<close>

definition splice :: "'a list \<Rightarrow> nat \<Rightarrow> 'a list \<Rightarrow> 'a list" where
  "splice bs off xs = take off bs @ xs @ drop (off + length xs) bs"

definition slice :: "'a list \<Rightarrow> nat \<Rightarrow> nat \<Rightarrow> 'a list" where
  "slice bs off n = take n (drop off bs)"

section \<open>Lemmas on casts\<close>

lemma unat_size_of: "length xs < 2 ^ 64 \<Longrightarrow> unat (size_of xs) = length xs"
  by (simp add: size_of_def unat_of_nat)

lemma unat_size_of_u32 [simp]: "unat (size_of_u32 w) = unat w"
  using unsigned_less [of w, where ?'a = nat]
  by (simp add: size_of_u32_def unsigned_ucast_eq take_bit_nat_eq_self)

lemma unat_u32_of_size: "unat w < 2 ^ 32 \<Longrightarrow> unat (u32_of_size w) = unat w"
  by (simp add: u32_of_size_def unsigned_ucast_eq take_bit_nat_eq_self)

lemma u32_of_size_of_u32 [simp]: "u32_of_size (size_of_u32 w) = w"
  by (rule unsigned_word_eqI [where ?'a = nat])
    (use unsigned_less [of w, where ?'a = nat] in \<open>simp add: unat_u32_of_size\<close>)

lemma ssize_of_small: "unat w < 2 ^ 63 \<Longrightarrow> ssize w = int (unat w)"
proof -
  assume a: "unat w < 2 ^ 63"
  then have "uint w < 2 ^ 63" by (metis of_nat_less_iff of_nat_numeral of_nat_power uint_nat)
  then have "signed_take_bit 63 (uint w) = uint w"
    using uint_ge_0 [of w] by (intro signed_take_bit_int_eq_self) linarith+
  then show ?thesis by (simp add: ssize_def sint_uint)
qed

text \<open>Two words of 32 bits in one of 64, as in the unions that the code compares and swaps.\<close>

lemma pack_inject:
  fixes x y x' y' :: u32
  shows "(ucast x OR push_bit 32 (ucast y) :: u64) = ucast x' OR push_bit 32 (ucast y') \<longleftrightarrow> x = x' \<and> y = y'"
proof
  assume eq: "(ucast x OR push_bit 32 (ucast y) :: u64) = ucast x' OR push_bit 32 (ucast y')"
  have "bit x i = bit x' i" "bit y i = bit y' i" if i: "i < 32" for i
  proof -
    have "bit (ucast x OR push_bit 32 (ucast y) :: u64) j = bit (ucast x' OR push_bit 32 (ucast y') :: u64) j" for j
      by (simp only: eq)
    from this [of i] this [of "i + 32"] i show "bit x i = bit x' i" "bit y i = bit y' i"
      by (auto simp: bit_simps dest: bit_imp_le_length)
  qed
  then show "x = x' \<and> y = y'" by (auto intro!: bit_eqI simp: possible_bit_def)
qed auto

section \<open>Lemmas on encodings\<close>

lemma length_le_encode [simp, codec_simps]: "length (le_encode k v) = k"
  by (induction k arbitrary: v) auto

lemma le_decode_encode [codec_simps]: "le_decode (le_encode k v) = v mod 256 ^ k"
proof (induction k arbitrary: v)
  case 0
  then show ?case by simp
next
  case (Suc k)
  have "unat (word_of_nat v :: byte) = v mod 256"
    by (simp add: unat_of_nat)
  with Suc show ?case by (simp add: mod_mult2_eq)
qed

lemma le_decode_bound: "le_decode bs < 256 ^ length bs"
proof (induction bs)
  case (Cons b bs)
  have "unat b < 256" using unsigned_less [of b, where ?'a = nat] by simp
  with Cons show ?case by simp
qed simp

lemma le_encode_decode: "length bs = k \<Longrightarrow> le_encode k (le_decode bs) = bs"
proof (induction bs arbitrary: k)
  case (Cons b bs)
  then obtain k' where k: "k = Suc k'" "length bs = k'" by (cases k) auto
  have b: "unat b < 256" using unsigned_less [of b, where ?'a = nat] by simp
  have 1: "(word_of_nat (unat b + 256 * le_decode bs) :: byte) = b"
    using b by (simp add: word_eq_iff_unsigned [where ?'a = nat] unat_of_nat del: of_nat_add)
  have 2: "(unat b + 256 * le_decode bs) div 256 = le_decode bs"
    using b by simp
  show ?case using Cons.IH [OF k(2)] k 1 2 by simp
qed simp

lemma zeros_0 [simp]: "zeros 0 = []"
  by (simp add: zeros_def)

lemma length_zeros [simp]: "length (zeros n) = n"
  by (simp add: zeros_def)

lemma nth_zeros [simp]: "i < n \<Longrightarrow> zeros n ! i = 0"
  by (simp add: zeros_def)

lemma take_zeros [simp]: "take k (zeros n) = zeros (min k n)"
  by (simp add: zeros_def)

lemma drop_zeros [simp]: "drop k (zeros n) = zeros (n - k)"
  by (simp add: zeros_def)

lemma le_decode_zeros [simp]: "le_decode (zeros n) = 0"
  by (induction n) (auto simp: zeros_def)

section \<open>Lemmas on splices\<close>

lemma length_splice [simp]: "off + length xs \<le> length bs \<Longrightarrow> length (splice bs off xs) = length bs"
  by (simp add: splice_def)

lemma slice_splice_same [splice_simps]:
  "off + length xs \<le> length bs \<Longrightarrow> slice (splice bs off xs) off (length xs) = xs"
  by (simp add: splice_def slice_def)

lemma slice_splice_before [splice_simps]:
  "off' + n \<le> off \<Longrightarrow> off + length xs \<le> length bs \<Longrightarrow>
   slice (splice bs off xs) off' n = slice bs off' n"
  by (rule nth_equalityI) (auto simp: splice_def slice_def nth_append)

lemma slice_splice_after [splice_simps]:
  "off + length xs \<le> off' \<Longrightarrow> off + length xs \<le> length bs \<Longrightarrow>
   slice (splice bs off xs) off' n = slice bs off' n"
  by (auto simp: splice_def slice_def)

lemma length_slice: "off + n \<le> length bs \<Longrightarrow> length (slice bs off n) = n"
  by (simp add: slice_def)

lemma splice_slice: "off + n \<le> length bs \<Longrightarrow> splice bs off (slice bs off n) = bs"
proof -
  assume "off + n \<le> length bs"
  then have "splice bs off (slice bs off n) = take off bs @ take n (drop off bs) @ drop n (drop off bs)"
    by (simp add: splice_def slice_def add.commute)
  then show ?thesis by (simp only: append_take_drop_id)
qed

lemma splice_nested:
  assumes "off \<le> off'" "off' + length ys \<le> off + length xs" "off + length xs \<le> length bs"
  shows "splice (splice bs off xs) off' ys = splice bs off (splice xs (off' - off) ys)"
proof -
  have "off' + length ys - (off + length xs) = 0" using assms by simp
  with assms show ?thesis by (simp add: splice_def drop_append)
qed

lemma splice_app:
  "splice (us @ vs @ ws) (length us) xs = us @ xs @ ws" if "length vs = length xs"
  using that by (simp add: splice_def)

end
