(* ===== verification/Os.thy ===== *)
theory Os
  imports Prelude "HOL-Library.Sublist"
begin

text \<open>
  What the code relies on of the operating system: files that are mapped into memory,
  directories, and system calls that may fail. A file keeps its length, its bytes as a
  shared mapping shows them (the last page is completed with zeros, and a store there
  never reaches the file), and the bytes that are on stable storage; \<open>msync\<close> copies a
  range of the former to the latter. Whether the next fallible call succeeds is read from
  the list \<open>outcomes\<close>; when the list is exhausted every call succeeds.
  A mapping is named by the path of the file it maps, so two mappings of one file share
  their bytes.
\<close>

section \<open>State\<close>

record mfile =
  fsize :: nat
  fbytes :: bytes
  fdisk :: bytes

record os =
  page_size :: u64
  dir_size :: nat
  nofile_cur :: u64
  dirs :: "string list"
  files :: "string \<Rightarrow> mfile option"
  map_base :: "string \<Rightarrow> u64"
  outcomes :: "bool list"

datatype mptr = NULL_PTR | MAP_FAILED | MAPPED string

section \<open>System calls\<close>

definition sys_call :: "os \<Rightarrow> bool \<times> os" where
  "sys_call s = (case outcomes s of [] \<Rightarrow> (True, s) | b # bs \<Rightarrow> (b, s\<lparr>outcomes := bs\<rparr>))"

definition page_round :: "os \<Rightarrow> nat \<Rightarrow> nat" where
  "page_round s n = (let p = unat (page_size s) in (n + p - 1) div p * p)"

definition sys_stat :: "os \<Rightarrow> string \<Rightarrow> nat option \<times> os" where
  "sys_stat s path = (let (ok, s') = sys_call s in
     (if \<not> ok then None
      else if path \<in> set (dirs s) then Some (dir_size s)
      else map_option fsize (files s path), s'))"

definition sys_mkdir :: "os \<Rightarrow> string \<Rightarrow> int \<times> os" where
  "sys_mkdir s path = (let (ok, s') = sys_call s in
     if ok \<and> path \<notin> set (dirs s) \<and> files s path = None
     then (0, s'\<lparr>dirs := path # dirs s'\<rparr>) else (- 1, s'))"

definition sys_open :: "os \<Rightarrow> string \<Rightarrow> bool \<times> os" where
  "sys_open s path = (let (ok, s') = sys_call s in
     if \<not> ok \<or> path \<in> set (dirs s) then (False, s')
     else (True, case files s' path of
                   Some f \<Rightarrow> s'
                 | None \<Rightarrow> s'\<lparr>files := (files s')(path \<mapsto> \<lparr>fsize = 0, fbytes = [], fdisk = []\<rparr>)\<rparr>))"

definition sys_fstat :: "os \<Rightarrow> string \<Rightarrow> nat option \<times> os" where
  "sys_fstat s path = (let (ok, s') = sys_call s in
     (if ok then map_option fsize (files s path) else None, s'))"

definition truncate_file :: "os \<Rightarrow> nat \<Rightarrow> mfile \<Rightarrow> mfile" where
  "truncate_file s n f =
     (let bs = take n (take (fsize f) (fbytes f)) in
      \<lparr>fsize = n,
       fbytes = bs @ zeros (page_round s n - length bs),
       fdisk = take n (fdisk f) @ zeros (n - length (fdisk f))\<rparr>)"

definition sys_ftruncate :: "os \<Rightarrow> string \<Rightarrow> nat \<Rightarrow> int \<times> os" where
  "sys_ftruncate s path n = (let (ok, s') = sys_call s in
     case files s' path of
       Some f \<Rightarrow> if ok then (0, s'\<lparr>files := (files s')(path \<mapsto> truncate_file s n f)\<rparr>) else (- 1, s')
     | None \<Rightarrow> (- 1, s'))"

definition map_file :: "os \<Rightarrow> mfile \<Rightarrow> mfile" where
  "map_file s f = f\<lparr>fbytes := take (fsize f) (fbytes f) @ zeros (page_round s (fsize f) - fsize f)\<rparr>"

definition sys_mmap :: "os \<Rightarrow> string \<Rightarrow> u64 \<Rightarrow> mptr \<times> os" where
  "sys_mmap s path sz = (let (ok, s') = sys_call s in
     case files s' path of
       Some f \<Rightarrow>
         if ok \<and> sz \<noteq> 0
         then (MAPPED path, s'\<lparr>files := (files s')(path \<mapsto> map_file s f)\<rparr>)
         else (MAP_FAILED, s')
     | None \<Rightarrow> (MAP_FAILED, s'))"

definition sys_madvise :: "os \<Rightarrow> mptr \<Rightarrow> int \<times> os" where
  "sys_madvise s ptr = (let (ok, s') = sys_call s in
     (case ptr of MAPPED p \<Rightarrow> (if ok then 0 else - 1) | _ \<Rightarrow> - 1, s'))"

definition sync_file :: "nat \<Rightarrow> nat \<Rightarrow> mfile \<Rightarrow> mfile" where
  "sync_file off n f =
     f\<lparr>fdisk := map (\<lambda>i. if off \<le> i \<and> i < off + n then fbytes f ! i else fdisk f ! i) [0..<fsize f]\<rparr>"

text \<open>\<open>msync\<close> refuses an address that is not on a page boundary (\<open>EINVAL\<close>) and a range that is not mapped
  (\<open>ENOMEM\<close>); \<open>addr\<close> is meant to lie in the mapping of the file at \<open>path\<close>.\<close>

definition sys_msync :: "os \<Rightarrow> string \<Rightarrow> u64 \<Rightarrow> u64 \<Rightarrow> int \<times> os" where
  "sys_msync s path addr len = (let (ok, s') = sys_call s in
     case files s' path of
       Some f \<Rightarrow>
         (let off = unat (addr - map_base s path) in
          if ok \<and> unat addr mod unat (page_size s) = 0 \<and> off + unat len \<le> length (fbytes f)
          then (0, s'\<lparr>files := (files s')(path \<mapsto> sync_file off (unat len) f)\<rparr>)
          else (- 1, s'))
     | None \<Rightarrow> (- 1, s'))"

text \<open>
  Removing a file or an empty directory, and \<open>nftw\<close> with \<open>FTW_DEPTH\<close>: \<open>walk\<close> lists the paths of the
  tree in the order of the walk, the entries of a directory before the directory itself. The walk ends with the
  first value of the callback that is not 0. A directory is empty when none of these paths is left in it.
\<close>

definition path_exists :: "os \<Rightarrow> string \<Rightarrow> bool" where
  "path_exists s path \<longleftrightarrow> path \<in> set (dirs s) \<or> files s path \<noteq> None"

definition sys_remove :: "os \<Rightarrow> string list \<Rightarrow> string \<Rightarrow> int \<times> os" where
  "sys_remove s walk path = (let (ok, s') = sys_call s in
     if \<not> ok then (- 1, s')
     else if path \<in> set (dirs s')
     then if list_ex (\<lambda>p. prefix (path @ ''/'') p \<and> path_exists s' p) walk then (- 1, s')
          else (0, s'\<lparr>dirs := removeAll path (dirs s')\<rparr>)
     else if files s' path \<noteq> None then (0, s'\<lparr>files := (files s')(path := None)\<rparr>)
     else (- 1, s'))"

fun nftw_visit :: "(os \<Rightarrow> string \<Rightarrow> int \<times> os) \<Rightarrow> os \<Rightarrow> string list \<Rightarrow> int \<times> os" where
  "nftw_visit fn s [] = (0, s)"
| "nftw_visit fn s (path # paths) =
     (let (rc, s) = fn s path in if rc \<noteq> 0 then (rc, s) else nftw_visit fn s paths)"

definition nftw :: "(os \<Rightarrow> string \<Rightarrow> int \<times> os) \<Rightarrow> os \<Rightarrow> string list \<Rightarrow> int \<times> os" where
  "nftw fn s walk = (let (ok, s) = sys_call s in if \<not> ok then (- 1, s) else nftw_visit fn s walk)"

section \<open>Memory\<close>

definition mem_load :: "os \<Rightarrow> string \<Rightarrow> nat \<Rightarrow> nat \<Rightarrow> bytes option" where
  "mem_load s p off n = do {
     f \<leftarrow> files s p;
     if off + n \<le> length (fbytes f) then Some (slice (fbytes f) off n) else None }"

definition mem_store :: "os \<Rightarrow> string \<Rightarrow> nat \<Rightarrow> bytes \<Rightarrow> os option" where
  "mem_store s p off xs = do {
     f \<leftarrow> files s p;
     if off + length xs \<le> length (fbytes f)
     then Some (s\<lparr>files := (files s)(p \<mapsto> f\<lparr>fbytes := splice (fbytes f) off xs\<rparr>)\<rparr>)
     else None }"

definition ld_u16 :: "os \<Rightarrow> string \<Rightarrow> nat \<Rightarrow> u16 option" where
  "ld_u16 s p off = map_option (\<lambda>bs. word_of_nat (le_decode bs)) (mem_load s p off 2)"

definition ld_u32 :: "os \<Rightarrow> string \<Rightarrow> nat \<Rightarrow> u32 option" where
  "ld_u32 s p off = map_option (\<lambda>bs. word_of_nat (le_decode bs)) (mem_load s p off 4)"

definition ld_u64 :: "os \<Rightarrow> string \<Rightarrow> nat \<Rightarrow> u64 option" where
  "ld_u64 s p off = map_option (\<lambda>bs. word_of_nat (le_decode bs)) (mem_load s p off 8)"

definition st_u8 :: "os \<Rightarrow> string \<Rightarrow> nat \<Rightarrow> byte \<Rightarrow> os option" where
  "st_u8 s p off w = mem_store s p off [w]"

definition st_u16 :: "os \<Rightarrow> string \<Rightarrow> nat \<Rightarrow> u16 \<Rightarrow> os option" where
  "st_u16 s p off w = mem_store s p off (le_encode 2 (unat w))"

definition st_u32 :: "os \<Rightarrow> string \<Rightarrow> nat \<Rightarrow> u32 \<Rightarrow> os option" where
  "st_u32 s p off w = mem_store s p off (le_encode 4 (unat w))"

definition st_u64 :: "os \<Rightarrow> string \<Rightarrow> nat \<Rightarrow> u64 \<Rightarrow> os option" where
  "st_u64 s p off w = mem_store s p off (le_encode 8 (unat w))"

section \<open>Lemmas on memory\<close>

text \<open>Writing back the bytes of one mapping, the normal form of a sequence of stores.\<close>

definition set_bytes :: "os \<Rightarrow> string \<Rightarrow> bytes \<Rightarrow> os" where
  "set_bytes s p bs = s\<lparr>files := (files s)(p := map_option (\<lambda>f. f\<lparr>fbytes := bs\<rparr>) (files s p))\<rparr>"

definition bytes_of :: "os \<Rightarrow> string \<Rightarrow> bytes" where
  "bytes_of s p = (case files s p of Some f \<Rightarrow> fbytes f | None \<Rightarrow> [])"

lemma mem_load_eq [mem_simps]:
  "files s p = Some f \<Longrightarrow> off + n \<le> length (fbytes f) \<Longrightarrow>
   mem_load s p off n = Some (slice (fbytes f) off n)"
  by (simp add: mem_load_def)

lemma mem_store_eq [mem_simps]:
  "files s p = Some f \<Longrightarrow> off + length xs \<le> length (fbytes f) \<Longrightarrow>
   mem_store s p off xs = Some (set_bytes s p (splice (fbytes f) off xs))"
  by (simp add: mem_store_def set_bytes_def)

lemma mem_store_SomeD:
  "mem_store s p off xs = Some s' \<Longrightarrow>
   \<exists>f. files s p = Some f \<and> off + length xs \<le> length (fbytes f) \<and>
       s' = set_bytes s p (splice (fbytes f) off xs)"
  by (auto simp: mem_store_def set_bytes_def bind_eq_Some_conv split: if_splits)

lemma files_set_bytes [simp]:
  "files (set_bytes s p bs) = (files s)(p := map_option (\<lambda>f. f\<lparr>fbytes := bs\<rparr>) (files s p))"
  by (simp add: set_bytes_def)

lemma set_bytes_frame [simp]:
  "page_size (set_bytes s p bs) = page_size s" "dirs (set_bytes s p bs) = dirs s"
  "map_base (set_bytes s p bs) = map_base s" "outcomes (set_bytes s p bs) = outcomes s"
  "dir_size (set_bytes s p bs) = dir_size s" "nofile_cur (set_bytes s p bs) = nofile_cur s"
  by (simp_all add: set_bytes_def)

lemma set_bytes_twice [simp]: "set_bytes (set_bytes s p as) p bs = set_bytes s p bs"
  by (simp add: set_bytes_def option.map_comp o_def)

lemma page_round_set_bytes [simp]: "page_round (set_bytes s p bs) n = page_round s n"
  by (simp add: page_round_def)

section \<open>Integers in memory\<close>

text \<open>
  The contract of a fixed-width integer in memory, and what a reader of one field sees
  after a store to the same or to another stretch of the array.
\<close>

locale le_field =
  fixes width :: nat
    and enc :: "'w \<Rightarrow> bytes"
    and dec :: "bytes \<Rightarrow> 'w"
  assumes length_enc: "length (enc w) = width"
    and dec_enc: "dec (enc w) = w"
begin

lemma read_written:
  "off + width \<le> length bs \<Longrightarrow> dec (slice (splice bs off (enc w)) off width) = w"
  using slice_splice_same [of off "enc w" bs] by (simp add: length_enc dec_enc)

lemma read_other:
  "off + width \<le> length bs \<Longrightarrow> off' + n \<le> off \<or> off + width \<le> off' \<Longrightarrow>
   slice (splice bs off (enc w)) off' n = slice bs off' n"
  by (auto simp: length_enc slice_splice_before slice_splice_after)

lemma read_app: "dec (slice (us @ enc w @ vs) (length us) width) = w"
  by (simp add: slice_def length_enc dec_enc)

lemma enc_inject: "enc v = enc w \<Longrightarrow> v = w"
  by (metis dec_enc)

end

interpretation f16: le_field 2 "\<lambda>w :: u16. le_encode 2 (unat w)" "\<lambda>bs. word_of_nat (le_decode bs)"
proof unfold_locales
  fix w :: u16
  show "word_of_nat (le_decode (le_encode 2 (unat w))) = w"
    using unsigned_less [of w, where ?'a = nat] by (simp add: codec_simps)
qed simp

interpretation f32: le_field 4 "\<lambda>w :: u32. le_encode 4 (unat w)" "\<lambda>bs. word_of_nat (le_decode bs)"
proof unfold_locales
  fix w :: u32
  show "word_of_nat (le_decode (le_encode 4 (unat w))) = w"
    using unsigned_less [of w, where ?'a = nat] by (simp add: codec_simps)
qed simp

interpretation f64: le_field 8 "\<lambda>w :: u64. le_encode 8 (unat w)" "\<lambda>bs. word_of_nat (le_decode bs)"
proof unfold_locales
  fix w :: u64
  show "word_of_nat (le_decode (le_encode 8 (unat w))) = w"
    using unsigned_less [of w, where ?'a = nat] by (simp add: codec_simps)
qed simp

lemma ld_u16_eq [mem_simps]:
  "files s p = Some f \<Longrightarrow> off + 2 \<le> length (fbytes f) \<Longrightarrow>
   ld_u16 s p off = Some (word_of_nat (le_decode (slice (fbytes f) off 2)))"
  by (simp add: ld_u16_def mem_simps)

lemma ld_u32_eq [mem_simps]:
  "files s p = Some f \<Longrightarrow> off + 4 \<le> length (fbytes f) \<Longrightarrow>
   ld_u32 s p off = Some (word_of_nat (le_decode (slice (fbytes f) off 4)))"
  by (simp add: ld_u32_def mem_simps)

lemma ld_u64_eq [mem_simps]:
  "files s p = Some f \<Longrightarrow> off + 8 \<le> length (fbytes f) \<Longrightarrow>
   ld_u64 s p off = Some (word_of_nat (le_decode (slice (fbytes f) off 8)))"
  by (simp add: ld_u64_def mem_simps)

section \<open>Lemmas on system calls\<close>

lemma sys_call_ok [simp]: "outcomes s = [] \<Longrightarrow> sys_call s = (True, s)"
  by (simp add: sys_call_def)

lemma page_round_ge: "0 < page_size s \<Longrightarrow> n \<le> page_round s n"
proof -
  assume "0 < page_size s"
  then have p: "0 < unat (page_size s)" by (simp add: word_less_nat_alt)
  define p where "p = unat (page_size s)"
  have "n \<le> (n + p - 1) div p * p"
    using div_mult_mod_eq [of "n + p - 1" p] mod_less_divisor [of p "n + p - 1"] p
    unfolding p_def [symmetric] by linarith
  then show ?thesis by (simp add: page_round_def p_def Let_def)
qed

lemma page_round_exact:
  "0 < page_size s \<Longrightarrow> n mod unat (page_size s) = 0 \<Longrightarrow> page_round s n = n"
proof -
  assume p: "0 < page_size s" and m: "n mod unat (page_size s) = 0"
  define p where "p = unat (page_size s)"
  have p0: "0 < p" using p by (simp add: p_def word_less_nat_alt)
  from m obtain k where k: "n = p * k" by (auto simp: p_def)
  have "n + p - 1 = (p - 1) + p * k" using p0 by (simp add: k)
  then have "(n + p - 1) div p = k" using p0 by (simp only: div_mult_self2) simp
  then show ?thesis by (simp add: page_round_def p_def [symmetric] k)
qed

end
