(* ===== verification/Errno.thy ===== *)
theory Errno
  imports Prelude
begin

text \<open>
  The error codes of \<^verbatim>\<open>src/src/mqlogerrno.h\<close>. The C functions return them as plain
  negative integers next to non-negative results (a size, a count, zero), and the callers
  rely on the sign, so the model keeps them as integers.
\<close>

definition ELALLC :: int where [err_defs]: "ELALLC = - 1"
definition ELNOPGM :: int where [err_defs]: "ELNOPGM = - 2"
definition ELSOFLW :: int where [err_defs]: "ELSOFLW = - 3"
definition ELUNKWN :: int where [err_defs]: "ELUNKWN = - 4"
definition ELFLEOP :: int where [err_defs]: "ELFLEOP = - 5"
definition ELFSTAT :: int where [err_defs]: "ELFSTAT = - 6"
definition ELSGRMT :: int where [err_defs]: "ELSGRMT = - 7"
definition ELSGSMT :: int where [err_defs]: "ELSGSMT = - 8"
definition ELMMAP :: int where [err_defs]: "ELMMAP = - 9"
definition ELMADV :: int where [err_defs]: "ELMADV = - 10"
definition ELNOWCP :: int where [err_defs]: "ELNOWCP = - 11"
definition ELNORD :: int where [err_defs]: "ELNORD = - 12"
definition ELINVHD :: int where [err_defs]: "ELINVHD = - 13"
definition ELLGDIR :: int where [err_defs]: "ELLGDIR = - 14"
definition ELLGCLS :: int where [err_defs]: "ELLGCLS = - 15"
definition ELLGDTR :: int where [err_defs]: "ELLGDTR = - 16"
definition ELSGMNF :: int where [err_defs]: "ELSGMNF = - 17"
definition ELDTSYN :: int where [err_defs]: "ELDTSYN = - 18"
definition ELMTSYN :: int where [err_defs]: "ELMTSYN = - 19"
definition ELEOS :: int where [err_defs]: "ELEOS = - 20"
definition ELLOCK :: int where [err_defs]: "ELLOCK = - 21"
definition ELOSLOW :: int where [err_defs]: "ELOSLOW = - 22"
definition ELIDXCR :: int where [err_defs]: "ELIDXCR = - 23"
definition ELIDXOP :: int where [err_defs]: "ELIDXOP = - 24"
definition ELWOFFS :: int where [err_defs]: "ELWOFFS = - 25"
definition ELLDSGM :: int where [err_defs]: "ELLDSGM = - 26"
definition ELLCKOP :: int where [err_defs]: "ELLCKOP = - 28"
definition ELIDXPC :: int where [err_defs]: "ELIDXPC = - 29"
definition ELIDXLK :: int where [err_defs]: "ELIDXLK = - 30"
definition ELIDXNM :: int where [err_defs]: "ELIDXNM = - 31"

end
