(* ===== verification/Prot.thy ===== *)
theory Prot
  imports Os Errno
begin

text \<open>
  \<^verbatim>\<open>src/src/prot.h\<close> and \<^verbatim>\<open>src/src/prot.c\<close>: the frame header and its place in memory. A
  header is the C structure \<open>{u16 flags; u8 version; u8 pad; u32 size; u32 crc32}\<close>, twelve
  bytes without padding, with the fields in the byte order of a little-endian machine. A
  frame holds two pointers into the mapping it was read from, not a copy.
\<close>

section \<open>Data\<close>

record header =
  hflags :: u16
  hversion :: byte
  hpad :: byte
  hsize :: u32
  hcrc32 :: u32

type_synonym pointer = "string \<times> nat"

record frame =
  fr_hdr :: "pointer option"
  fr_buffer :: "pointer option"

definition HEADER_FLAGS_EMPTY :: u16 where "HEADER_FLAGS_EMPTY = 0x0000"
definition HEADER_FLAGS_READY :: u16 where "HEADER_FLAGS_READY = 0xbeef"
definition HEADER_FLAGS_EOS :: u16 where "HEADER_FLAGS_EOS = 0xaaaa"
definition HEADER_VERSION :: byte where "HEADER_VERSION = 0x0"
definition HEADER_PAD :: byte where "HEADER_PAD = 0x0"

definition header_size :: u64 where "header_size = 12"

section \<open>Operations\<close>

definition header_init :: "os \<Rightarrow> string \<Rightarrow> nat \<Rightarrow> os option" where
  "header_init s p hdr = do {
     s \<leftarrow> st_u16 s p hdr HEADER_FLAGS_EMPTY;
     s \<leftarrow> st_u8 s p (hdr + 2) HEADER_VERSION;
     st_u8 s p (hdr + 3) HEADER_PAD }"

definition frame_payload_size :: "os \<Rightarrow> frame \<Rightarrow> u64 option" where
  "frame_payload_size s fr = do {
     (p, hdr) \<leftarrow> fr_hdr fr;
     sz \<leftarrow> ld_u32 s p (hdr + 4);
     Some (size_of_u32 sz - header_size) }"

definition prot_is_header :: "os \<Rightarrow> string \<Rightarrow> nat \<Rightarrow> int option" where
  "prot_is_header s p hdr = do {
     fl \<leftarrow> ld_u16 s p hdr;
     Some (if fl = HEADER_FLAGS_READY \<or> fl = HEADER_FLAGS_EOS then 1 else 0) }"

text \<open>What a client reads through a frame: the payload bytes its pointers delimit.\<close>

definition frame_payload :: "os \<Rightarrow> frame \<Rightarrow> bytes option" where
  "frame_payload s fr = do {
     n \<leftarrow> frame_payload_size s fr;
     (p, off) \<leftarrow> fr_buffer fr;
     mem_load s p off (unat n) }"

section \<open>Layout\<close>

definition header_bytes :: "header \<Rightarrow> bytes" where
  "header_bytes h = le_encode 2 (unat (hflags h)) @ [hversion h, hpad h]
     @ le_encode 4 (unat (hsize h)) @ le_encode 4 (unat (hcrc32 h))"

definition header_of_bytes :: "bytes \<Rightarrow> header" where
  "header_of_bytes bs = \<lparr>hflags = word_of_nat (le_decode (slice bs 0 2)),
     hversion = bs ! 2, hpad = bs ! 3,
     hsize = word_of_nat (le_decode (slice bs 4 4)),
     hcrc32 = word_of_nat (le_decode (slice bs 8 4))\<rparr>"

lemma length_header_bytes [simp]: "length (header_bytes h) = 12"
  by (simp add: header_bytes_def)

lemma slice_append_left: "off + n \<le> length xs \<Longrightarrow> slice (xs @ ys) off n = slice xs off n"
  by (simp add: slice_def)

lemma slice_append_right: "slice (xs @ ys) (length xs + off) n = slice ys off n"
  by (simp add: slice_def)

lemma header_bytes_flags: "word_of_nat (le_decode (slice (header_bytes h @ r) 0 2)) = hflags h"
  using f16.read_app [of "[]" "hflags h"] by (simp add: header_bytes_def)

lemma header_bytes_size: "word_of_nat (le_decode (slice (header_bytes h @ r) 4 4)) = hsize h"
  using f32.read_app [of "le_encode 2 (unat (hflags h)) @ [hversion h, hpad h]" "hsize h"]
  by (simp add: header_bytes_def)

lemma header_bytes_crc32: "word_of_nat (le_decode (slice (header_bytes h @ r) 8 4)) = hcrc32 h"
  using f32.read_app [of "le_encode 2 (unat (hflags h)) @ [hversion h, hpad h]
      @ le_encode 4 (unat (hsize h))" "hcrc32 h"]
  by (simp add: header_bytes_def)

lemma slice_header_crc32: "slice (header_bytes h) 8 4 = le_encode 4 (unat (hcrc32 h))"
  by (simp add: header_bytes_def slice_def)

lemma header_of_header_bytes: "header_of_bytes (header_bytes h) = h"
proof -
  have "header_bytes h ! 2 = hversion h" "header_bytes h ! 3 = hpad h"
    by (simp_all add: header_bytes_def nth_append)
  then show ?thesis
    using header_bytes_flags [of h "[]"] header_bytes_size [of h "[]"] header_bytes_crc32 [of h "[]"]
    by (simp add: header_of_bytes_def)
qed

lemma header_bytes_of_bytes: "length bs = 12 \<Longrightarrow> header_bytes (header_of_bytes bs) = bs"
proof -
  assume l: "length bs = 12"
  have un: "unat (word_of_nat (le_decode xs) :: 'a::len word) = le_decode xs"
    if "length xs * 8 = LENGTH('a)" for xs :: bytes
  proof -
    have "(256 :: nat) ^ length xs = 2 ^ (8 * length xs)" by (simp add: power_mult)
    also have "\<dots> = 2 ^ LENGTH('a)" using that by (simp add: mult.commute)
    finally show ?thesis using le_decode_bound [of xs] by (simp add: unat_of_nat)
  qed
  have "bs = slice bs 0 2 @ [bs ! 2, bs ! 3] @ slice bs 4 4 @ slice bs 8 4"
    using l by (auto simp: slice_def numeral_eq_Suc length_Suc_conv)
  moreover have "length (slice bs 0 2) = 2" "length (slice bs 4 4) = 4" "length (slice bs 8 4) = 4"
    using l by (simp_all add: length_slice)
  ultimately show ?thesis
    by (simp add: header_bytes_def header_of_bytes_def un le_encode_decode)
qed

end
