(* ===== verification/Util.thy ===== *)
theory Util
  imports Os "HOL-Library.Char_ord" "HOL-Library.Sublist"
begin

text \<open>
  \<^verbatim>\<open>src/src/util.c\<close>, and the parts of the C library that it and the other files use to
  build and read names: \<open>snprintf\<close> of a string into a buffer of a given length, the
  conversion \<open>%jd\<close>, and \<open>strtoll\<close> in base ten.
\<close>

section \<open>The C library\<close>

definition snprintf :: "nat \<Rightarrow> string \<Rightarrow> string \<times> nat" where
  "snprintf len str = (take (len - 1) str, length str)"

definition digit :: "nat \<Rightarrow> char" where
  "digit d = char_of (48 + d)"

fun dec :: "nat \<Rightarrow> string" where
  "dec n = (if n < 10 then [digit n] else dec (n div 10) @ [digit (n mod 10)])"

declare dec.simps [simp del]

definition print_jd :: "u64 \<Rightarrow> string" where
  "print_jd w = (let i = sint w in if i < 0 then CHR ''-'' # dec (nat (- i)) else dec (nat i))"

definition is_digit :: "char \<Rightarrow> bool" where
  "is_digit c \<longleftrightarrow> 48 \<le> (of_char c :: nat) \<and> (of_char c :: nat) \<le> 57"

definition is_space :: "char \<Rightarrow> bool" where
  "is_space c \<longleftrightarrow> (of_char c :: nat) \<in> {9, 10, 11, 12, 13, 32}"

definition digits_value :: "string \<Rightarrow> nat" where
  "digits_value ds = foldl (\<lambda>n c. 10 * n + (of_char c - 48)) 0 ds"

definition strtoll10 :: "string \<Rightarrow> int" where
  "strtoll10 str =
     (let str = dropWhile is_space str;
          neg = (str \<noteq> [] \<and> hd str = CHR ''-'');
          str = (if str \<noteq> [] \<and> (hd str = CHR ''-'' \<or> hd str = CHR ''+'') then tl str else str);
          n = int (digits_value (takeWhile is_digit str));
          i = (if neg then - n else n)
      in max (- (2 ^ 63)) (min (2 ^ 63 - 1) i))"

section \<open>util.c\<close>

definition pagesize :: "os \<Rightarrow> u64" where
  "pagesize s = page_size s"

definition file_exists :: "os \<Rightarrow> string \<Rightarrow> int \<times> os" where
  "file_exists s filename =
     (let (st, s) = sys_stat s filename in (if st \<noteq> None then 1 else 0, s))"

definition file_size :: "os \<Rightarrow> string \<Rightarrow> int \<times> os" where
  "file_size s filename =
     (let (st, s) = sys_stat s filename in
      (case st of Some n \<Rightarrow> ssize (word_of_nat n) | None \<Rightarrow> - 1, s))"

definition page_aligned_addr :: "os \<Rightarrow> u64 \<Rightarrow> u64" where
  "page_aligned_addr s addr = addr AND NOT (pagesize s - 1)"

definition ensure_directory :: "os \<Rightarrow> string \<Rightarrow> int \<times> os" where
  "ensure_directory s dir =
     (let (ex, s) = file_exists s dir in
      if ex = 0 then sys_mkdir s dir else (0, s))"

definition remove_callback :: "string list \<Rightarrow> os \<Rightarrow> string \<Rightarrow> int \<times> os" where
  "remove_callback walk s file = sys_remove s walk file"

definition delete_directory :: "os \<Rightarrow> string list \<Rightarrow> string \<Rightarrow> int \<times> os" where
  "delete_directory s walk dir =
     (let (st, s) = sys_stat s dir in
      if st \<noteq> None then nftw (remove_callback walk) s walk else (0, s))"

definition append_file_to_dir :: "nat \<Rightarrow> string \<Rightarrow> string \<Rightarrow> (string \<times> int) option" where
  "append_file_to_dir len dir fname =
     (if dir = [] then None
      else let (buf, n) = (if last dir = CHR ''/'' then snprintf len (dir @ fname)
                           else snprintf len (dir @ ''/'' @ fname))
           in Some (buf, if n \<le> len then 0 else - 1))"

definition has_suffix :: "string option \<Rightarrow> string option \<Rightarrow> int" where
  "has_suffix str suf = (case (str, suf) of
     (Some str, Some suf) \<Rightarrow>
       (let lenstr = length str; lensuffix = length suf in
        if lensuffix > lenstr then 0
        else if take lensuffix (drop (lenstr - lensuffix) str) = suf then 1 else 0)
   | _ \<Rightarrow> 0)"

definition file_limit :: "os \<Rightarrow> int \<times> os" where
  "file_limit s = (let (ok, s) = sys_call s in
     if \<not> ok then (- 1, s) else (int_of_size (nofile_cur s), s))"

section \<open>Lemmas\<close>

lemma has_suffix_iff: "has_suffix (Some str) (Some suf) = (if suffix suf str then 1 else 0)"
  by (auto simp: has_suffix_def Let_def suffix_def suffix_length_le)
     (metis append_eq_conv_conj append_take_drop_id length_append add_diff_cancel_right' linorder_not_le)

lemma digit_props [simp]: "d < 10 \<Longrightarrow> is_digit (digit d)" "d < 10 \<Longrightarrow> of_char (digit d) = 48 + d"
  by (simp_all add: digit_def is_digit_def)

lemma digits_value_snoc: "digits_value (ds @ [c]) = 10 * digits_value ds + (of_char c - 48)"
  by (simp add: digits_value_def)

lemma dec_digits: "\<forall>c \<in> set (dec n). is_digit c"
proof (induction n rule: dec.induct)
  case (1 n)
  then show ?case by (subst dec.simps) auto
qed

lemma dec_nonempty: "dec n \<noteq> []"
  by (subst dec.simps) simp

lemma digits_value_dec: "digits_value (dec n) = n"
proof (induction n rule: dec.induct)
  case (1 n)
  show ?case
  proof (cases "n < 10")
    case True
    then show ?thesis by (subst dec.simps) (simp add: digits_value_def)
  next
    case False
    with 1 show ?thesis by (subst dec.simps) (simp add: digits_value_snoc)
  qed
qed

lemma dec_inject: "dec m = dec n \<Longrightarrow> m = n"
  by (metis digits_value_dec)

lemma length_dec: "0 < k \<Longrightarrow> n < 10 ^ k \<Longrightarrow> length (dec n) \<le> k"
proof (induction n arbitrary: k rule: dec.induct)
  case (1 n)
  show ?case
  proof (cases "n < 10")
    case True
    then show ?thesis using 1 by (subst dec.simps) simp
  next
    case False
    then obtain k' where k: "k = Suc k'" "0 < k'"
      using 1(2,3) by (cases k; cases "k - 1") auto
    have "n div 10 < 10 ^ k'" using 1(3) by (simp add: k less_mult_imp_div_less mult.commute)
    then have "length (dec (n div 10)) \<le> k'" using 1(1) False k by simp
    then show ?thesis using False k by (subst dec.simps) simp
  qed
qed

lemma strtoll10_dec:
  "rest = [] \<or> \<not> is_digit (hd rest) \<Longrightarrow> int n < 2 ^ 63 \<Longrightarrow> strtoll10 (dec n @ rest) = int n"
proof -
  assume rest: "rest = [] \<or> \<not> is_digit (hd rest)" and n: "int n < 2 ^ 63"
  obtain c cs where c: "dec n = c # cs" by (cases "dec n") (auto simp: dec_nonempty)
  have dc: "is_digit c" using dec_digits [of n] by (simp add: c)
  then have nsp: "\<not> is_space c" "c \<noteq> CHR ''-''" "c \<noteq> CHR ''+''"
    by (auto simp: is_digit_def is_space_def)
  have "takeWhile is_digit (dec n @ rest) = dec n"
    using dec_digits [of n] rest by (cases rest) (auto simp: takeWhile_append)
  then show ?thesis
    using nsp n digits_value_dec [of n] by (simp add: strtoll10_def c Let_def)
qed

lemma strtoll10_minus_dec:
  "rest = [] \<or> \<not> is_digit (hd rest) \<Longrightarrow> int n \<le> 2 ^ 63 \<Longrightarrow>
   strtoll10 (CHR ''-'' # dec n @ rest) = - int n"
proof -
  assume rest: "rest = [] \<or> \<not> is_digit (hd rest)" and n: "int n \<le> 2 ^ 63"
  have "takeWhile is_digit (dec n @ rest) = dec n"
    using dec_digits [of n] rest by (cases rest) (auto simp: takeWhile_append)
  moreover have "\<not> is_space (CHR ''-'')" by (simp add: is_space_def)
  ultimately show ?thesis
    using n digits_value_dec [of n] by (simp add: strtoll10_def Let_def)
qed

lemma strtoll10_print_jd:
  "rest = [] \<or> \<not> is_digit (hd rest) \<Longrightarrow> word_of_int (strtoll10 (print_jd w @ rest)) = (w :: u64)"
proof -
  assume rest: "rest = [] \<or> \<not> is_digit (hd rest)"
  have range: "- (2 ^ 63) \<le> sint w" "sint w < 2 ^ 63"
    using sint_greater_eq [of w] sint_less [of w] by simp_all
  have "strtoll10 (print_jd w @ rest) = sint w"
  proof (cases "sint w < 0")
    case True
    then have "strtoll10 (CHR ''-'' # dec (nat (- sint w)) @ rest) = - int (nat (- sint w))"
      using range by (intro strtoll10_minus_dec [OF rest]) simp
    then show ?thesis using True by (simp add: print_jd_def Let_def)
  next
    case False
    then show ?thesis
      using range strtoll10_dec [OF rest, of "nat (sint w)"] by (simp add: print_jd_def Let_def)
  qed
  then show ?thesis by simp
qed

lemma length_print_jd: "length (print_jd w) \<le> 20"
proof -
  have "nat (sint w) < 10 ^ 19" "nat (- sint w) < 10 ^ 19"
    using sint_greater_eq [of w] sint_less [of w] by simp_all
  then have "length (dec (nat (sint w))) \<le> 19" "length (dec (nat (- sint w))) \<le> 19"
    by (simp_all add: length_dec)
  then show ?thesis by (simp add: print_jd_def Let_def)
qed

section \<open>Properties\<close>

text \<open>The path that a directory name and a file name make.\<close>

definition path_in :: "string \<Rightarrow> string \<Rightarrow> string" where
  "path_in dir name = (if last dir = CHR ''/'' then dir @ name else dir @ ''/'' @ name)"

lemma append_file_to_dir_eq:
  "dir \<noteq> [] \<Longrightarrow> append_file_to_dir len dir name =
     Some (take (len - 1) (path_in dir name), if length (path_in dir name) \<le> len then 0 else - 1)"
  by (simp add: append_file_to_dir_def path_in_def snprintf_def)

text \<open>\<open>append_file_to_dir\<close> leaves the whole path in a buffer that has room for it and for
  the terminating zero, and fails when the path is longer than the buffer; but a path that
  has exactly the length of the buffer is reported as success with its last character cut off.\<close>

theorem append_file_to_dir_truncates:
  assumes "dir \<noteq> []" "0 < len"
  shows "append_file_to_dir len dir name =
    (if length (path_in dir name) < len then Some (path_in dir name, 0)
     else if length (path_in dir name) = len then Some (butlast (path_in dir name), 0)
     else Some (take (len - 1) (path_in dir name), - 1))"
  using assms by (simp add: append_file_to_dir_eq butlast_conv_take)

theorem append_file_to_dir_truncates_witness:
  "append_file_to_dir 8 ''dir'' ''file'' = Some (''dir/fil'', 0)"
  using append_file_to_dir_truncates [of "''dir''" 8 "''file''"] by (simp add: path_in_def)

text \<open>\<open>has_suffix\<close> decides whether one string ends in the other.\<close>

theorem has_suffix_correct:
  "has_suffix (Some str) (Some suf) = (if \<exists>pre. str = pre @ suf then 1 else 0)"
  by (simp add: has_suffix_iff suffix_def)

section \<open>Removing a directory\<close>

lemma remove_file:
  "outcomes s = [] \<Longrightarrow> files s p \<noteq> None \<Longrightarrow> p \<notin> set (dirs s) \<Longrightarrow>
   remove_callback walk s p = (0, s\<lparr>files := (files s)(p := None)\<rparr>)"
  by (simp add: remove_callback_def sys_remove_def)

lemma visit_files:
  assumes "outcomes s = []" "distinct ps" "\<And>p. p \<in> set ps \<Longrightarrow> files s p \<noteq> None \<and> p \<notin> set (dirs s)"
  shows "nftw_visit (remove_callback walk) s (ps @ qs) =
    nftw_visit (remove_callback walk) (s\<lparr>files := (\<lambda>q. if q \<in> set ps then None else files s q)\<rparr>) qs"
  using assms
proof (induction ps arbitrary: s)
  case (Cons p ps)
  let ?s = "s\<lparr>files := (files s)(p := None)\<rparr>"
  have "(\<lambda>q. if q \<in> set ps then None else files ?s q) = (\<lambda>q. if q \<in> set (p # ps) then None else files s q)" by auto
  moreover have "nftw_visit (remove_callback walk) ?s (ps @ qs) =
      nftw_visit (remove_callback walk) (?s\<lparr>files := (\<lambda>q. if q \<in> set ps then None else files ?s q)\<rparr>) qs"
    using Cons.prems by (intro Cons.IH) auto
  moreover have "remove_callback walk s p = (0, ?s)" using Cons.prems by (intro remove_file) auto
  ultimately show ?case by simp
qed simp

text \<open>A directory of files goes with all that is in it, and nothing else goes.\<close>

lemma delete_directory_removes:
  assumes "outcomes s = []" "dir \<in> set (dirs s)" "distinct ps" "walk = ps @ [dir]"
    "\<And>p. p \<in> set ps \<Longrightarrow> files s p \<noteq> None \<and> p \<notin> set (dirs s)"
  shows "delete_directory s walk dir =
    (0, s\<lparr>files := (\<lambda>q. if q \<in> set ps then None else files s q), dirs := removeAll dir (dirs s)\<rparr>)"
proof -
  let ?s = "s\<lparr>files := (\<lambda>q. if q \<in> set ps then None else files s q)\<rparr>"
  have "\<not> path_exists ?s p" if "p \<in> set walk" "prefix (dir @ ''/'') p" for p
  proof -
    have "p \<noteq> dir" using that(2) by auto
    then have "p \<in> set ps" using that(1) assms(4) by simp
    then show ?thesis using assms(5) by (simp add: path_exists_def)
  qed
  then have "remove_callback walk ?s dir = (0, ?s\<lparr>dirs := removeAll dir (dirs s)\<rparr>)"
    using assms(1,2) by (auto simp: remove_callback_def sys_remove_def list_ex_iff)
  then show ?thesis using assms visit_files [of s ps walk "[dir]"]
    by (simp add: delete_directory_def sys_stat_def nftw_def)
qed

lemma delete_directory_absent:
  "outcomes s = [] \<Longrightarrow> \<not> path_exists s dir \<Longrightarrow> delete_directory s walk dir = (0, s)"
  by (simp add: delete_directory_def sys_stat_def path_exists_def)

end
