(* ===== verification/Crc32.thy ===== *)
theory Crc32
  imports Prelude
begin

text \<open>
  \<^verbatim>\<open>src/src/crc32.c\<close>: the table-driven CRC-32 of the frame checksums, with a bit-serial
  reference (the shift register of the reflected polynomial 0xEDB88320) that shows the 256
  entries of the table right and the loop equivalent, and what the checksum detects.
\<close>

definition crc32_tab :: "u32 list" where
  "crc32_tab = [
     0x00000000, 0x77073096, 0xee0e612c, 0x990951ba, 0x076dc419, 0x706af48f,
     0xe963a535, 0x9e6495a3, 0x0edb8832, 0x79dcb8a4, 0xe0d5e91e, 0x97d2d988,
     0x09b64c2b, 0x7eb17cbd, 0xe7b82d07, 0x90bf1d91, 0x1db71064, 0x6ab020f2,
     0xf3b97148, 0x84be41de, 0x1adad47d, 0x6ddde4eb, 0xf4d4b551, 0x83d385c7,
     0x136c9856, 0x646ba8c0, 0xfd62f97a, 0x8a65c9ec, 0x14015c4f, 0x63066cd9,
     0xfa0f3d63, 0x8d080df5, 0x3b6e20c8, 0x4c69105e, 0xd56041e4, 0xa2677172,
     0x3c03e4d1, 0x4b04d447, 0xd20d85fd, 0xa50ab56b, 0x35b5a8fa, 0x42b2986c,
     0xdbbbc9d6, 0xacbcf940, 0x32d86ce3, 0x45df5c75, 0xdcd60dcf, 0xabd13d59,
     0x26d930ac, 0x51de003a, 0xc8d75180, 0xbfd06116, 0x21b4f4b5, 0x56b3c423,
     0xcfba9599, 0xb8bda50f, 0x2802b89e, 0x5f058808, 0xc60cd9b2, 0xb10be924,
     0x2f6f7c87, 0x58684c11, 0xc1611dab, 0xb6662d3d, 0x76dc4190, 0x01db7106,
     0x98d220bc, 0xefd5102a, 0x71b18589, 0x06b6b51f, 0x9fbfe4a5, 0xe8b8d433,
     0x7807c9a2, 0x0f00f934, 0x9609a88e, 0xe10e9818, 0x7f6a0dbb, 0x086d3d2d,
     0x91646c97, 0xe6635c01, 0x6b6b51f4, 0x1c6c6162, 0x856530d8, 0xf262004e,
     0x6c0695ed, 0x1b01a57b, 0x8208f4c1, 0xf50fc457, 0x65b0d9c6, 0x12b7e950,
     0x8bbeb8ea, 0xfcb9887c, 0x62dd1ddf, 0x15da2d49, 0x8cd37cf3, 0xfbd44c65,
     0x4db26158, 0x3ab551ce, 0xa3bc0074, 0xd4bb30e2, 0x4adfa541, 0x3dd895d7,
     0xa4d1c46d, 0xd3d6f4fb, 0x4369e96a, 0x346ed9fc, 0xad678846, 0xda60b8d0,
     0x44042d73, 0x33031de5, 0xaa0a4c5f, 0xdd0d7cc9, 0x5005713c, 0x270241aa,
     0xbe0b1010, 0xc90c2086, 0x5768b525, 0x206f85b3, 0xb966d409, 0xce61e49f,
     0x5edef90e, 0x29d9c998, 0xb0d09822, 0xc7d7a8b4, 0x59b33d17, 0x2eb40d81,
     0xb7bd5c3b, 0xc0ba6cad, 0xedb88320, 0x9abfb3b6, 0x03b6e20c, 0x74b1d29a,
     0xead54739, 0x9dd277af, 0x04db2615, 0x73dc1683, 0xe3630b12, 0x94643b84,
     0x0d6d6a3e, 0x7a6a5aa8, 0xe40ecf0b, 0x9309ff9d, 0x0a00ae27, 0x7d079eb1,
     0xf00f9344, 0x8708a3d2, 0x1e01f268, 0x6906c2fe, 0xf762575d, 0x806567cb,
     0x196c3671, 0x6e6b06e7, 0xfed41b76, 0x89d32be0, 0x10da7a5a, 0x67dd4acc,
     0xf9b9df6f, 0x8ebeeff9, 0x17b7be43, 0x60b08ed5, 0xd6d6a3e8, 0xa1d1937e,
     0x38d8c2c4, 0x4fdff252, 0xd1bb67f1, 0xa6bc5767, 0x3fb506dd, 0x48b2364b,
     0xd80d2bda, 0xaf0a1b4c, 0x36034af6, 0x41047a60, 0xdf60efc3, 0xa867df55,
     0x316e8eef, 0x4669be79, 0xcb61b38c, 0xbc66831a, 0x256fd2a0, 0x5268e236,
     0xcc0c7795, 0xbb0b4703, 0x220216b9, 0x5505262f, 0xc5ba3bbe, 0xb2bd0b28,
     0x2bb45a92, 0x5cb36a04, 0xc2d7ffa7, 0xb5d0cf31, 0x2cd99e8b, 0x5bdeae1d,
     0x9b64c2b0, 0xec63f226, 0x756aa39c, 0x026d930a, 0x9c0906a9, 0xeb0e363f,
     0x72076785, 0x05005713, 0x95bf4a82, 0xe2b87a14, 0x7bb12bae, 0x0cb61b38,
     0x92d28e9b, 0xe5d5be0d, 0x7cdcefb7, 0x0bdbdf21, 0x86d3d2d4, 0xf1d4e242,
     0x68ddb3f8, 0x1fda836e, 0x81be16cd, 0xf6b9265b, 0x6fb077e1, 0x18b74777,
     0x88085ae6, 0xff0f6a70, 0x66063bca, 0x11010b5c, 0x8f659eff, 0xf862ae69,
     0x616bffd3, 0x166ccf45, 0xa00ae278, 0xd70dd2ee, 0x4e048354, 0x3903b3c2,
     0xa7672661, 0xd06016f7, 0x4969474d, 0x3e6e77db, 0xaed16a4a, 0xd9d65adc,
     0x40df0b66, 0x37d83bf0, 0xa9bcae53, 0xdebb9ec5, 0x47b2cf7f, 0x30b5ffe9,
     0xbdbdf21c, 0xcabac28a, 0x53b39330, 0x24b4a3a6, 0xbad03605, 0xcdd70693,
     0x54de5729, 0x23d967bf, 0xb3667a2e, 0xc4614ab8, 0x5d681b02, 0x2a6f2b94,
     0xb40bbe37, 0xc30c8ea1, 0x5a05df1b, 0x2d02ef8d]"

fun crc32_loop :: "u32 \<Rightarrow> bytes \<Rightarrow> u32" where
  "crc32_loop crc [] = crc"
| "crc32_loop crc (p # ps) =
     crc32_loop (crc32_tab ! unat ((crc XOR ucast p) AND 0xFF) XOR drop_bit 8 crc) ps"

definition crc32 :: "u32 \<Rightarrow> bytes \<Rightarrow> u32" where
  "crc32 crc buf = crc32_loop (crc XOR NOT 0) buf XOR NOT 0"

text \<open>The bit-serial reference.\<close>

definition crc_shift :: "u32 \<Rightarrow> u32" where
  "crc_shift x = (if bit x 0 then drop_bit 1 x XOR 0xedb88320 else drop_bit 1 x)"

definition crc_byte :: "u32 \<Rightarrow> byte \<Rightarrow> u32" where
  "crc_byte crc p = (crc_shift ^^ 8) (crc XOR ucast p)"

definition crc32_bitwise :: "u32 \<Rightarrow> bytes \<Rightarrow> u32" where
  "crc32_bitwise crc buf = foldl crc_byte (crc XOR NOT 0) buf XOR NOT 0"

lemma length_crc32_tab: "length crc32_tab = 256"
  by (simp add: crc32_tab_def)

lemma funpow_8: "(f ^^ 8) x = f (f (f (f (f (f (f (f x)))))))"
  by (simp add: numeral_eq_Suc)

lemma xor_cancel_left: "x XOR y = x XOR z \<longleftrightarrow> y = z" for x y z :: "'a::len word"
proof
  assume "x XOR y = x XOR z"
  then have "x XOR (x XOR y) = x XOR (x XOR z)" by simp
  then show "y = z" by (simp add: xor.assoc [symmetric])
qed simp

lemma xor_cancel_right: "y XOR x = z XOR x \<longleftrightarrow> y = z" for x y z :: "'a::len word"
  by (simp add: xor.commute [of _ x] xor_cancel_left)

lemma crc_shift_xor: "crc_shift (x XOR y) = crc_shift x XOR crc_shift y"
  by (auto simp: crc_shift_def bit_xor_iff drop_bit_xor ac_simps)

lemma crc_shift_pow_xor: "(crc_shift ^^ n) (x XOR y) = (crc_shift ^^ n) x XOR (crc_shift ^^ n) y"
  by (induction n) (simp_all add: crc_shift_xor)

lemma crc_shift_pow_high:
  "(\<forall>i<n. \<not> bit x i) \<Longrightarrow> (crc_shift ^^ n) x = drop_bit n x"
proof (induction n)
  case (Suc n)
  then have "(crc_shift ^^ n) x = drop_bit n x" by simp
  moreover have "\<not> bit (drop_bit n x) 0"
    using Suc.prems by (simp add: bit_drop_bit_eq)
  ultimately have "(crc_shift ^^ Suc n) x = drop_bit 1 (drop_bit n x)"
    by (simp add: crc_shift_def [of "drop_bit n x"])
  then show ?case by (simp add: drop_bit_drop_bit)
qed simp

lemma word_split_low: "x = (x AND mask n) XOR push_bit n (drop_bit n x)" for x :: "'a::len word"
  by (rule bit_eqI) (auto simp: bit_simps)

text \<open>Injectivity: the register can be recovered from its successor.\<close>

lemma crc_shift_top: "bit (crc_shift x) 31 = bit x 0"
  by (simp add: crc_shift_def bit_xor_iff bit_drop_bit_eq) (auto dest: bit_imp_le_length)

lemma crc_shift_inject: "crc_shift x = crc_shift y \<Longrightarrow> x = y"
proof (rule bit_eqI)
  fix n assume eq: "crc_shift x = crc_shift y"
  have 0: "bit x 0 = bit y 0" by (metis eq crc_shift_top)
  have d: "drop_bit 1 x = drop_bit 1 y"
  proof -
    have "crc_shift x XOR (if bit x 0 then 0xedb88320 else 0) = drop_bit 1 x" for x
      by (simp add: crc_shift_def xor.assoc)
    from this [of x] this [of y] show ?thesis using 0 eq by simp
  qed
  show "bit x n = bit y n"
  proof (cases n)
    case (Suc m)
    have "bit (drop_bit 1 x) m = bit (drop_bit 1 y) m" by (simp only: d)
    then show ?thesis by (simp add: Suc bit_drop_bit_eq)
  qed (use 0 in simp)
qed

lemma crc_shift_pow_inject: "(crc_shift ^^ n) x = (crc_shift ^^ n) y \<Longrightarrow> x = y"
  by (induction n) (auto dest: crc_shift_inject)

text \<open>
  The table is checked against the shift register through two relations between its
  entries (one shift each), which determine it from its first two entries.
\<close>

fun evens :: "'a list \<Rightarrow> 'a list" where
  "evens (x # y # zs) = x # evens zs"
| "evens xs = xs"

lemma evens_nth: "2 * j + 1 < length xs \<Longrightarrow> evens xs ! j = xs ! (2 * j)"
proof (induction xs arbitrary: j rule: evens.induct)
  case (1 x y zs)
  then show ?case by (cases j) auto
qed auto

lemma length_evens: "length (evens xs) = (length xs + 1) div 2"
  by (induction xs rule: evens.induct) auto

lemma crc32_tab_shift: "map crc_shift (evens crc32_tab) = take 128 crc32_tab"
  by (simp add: crc32_tab_def crc_shift_def)

lemma crc32_tab_odd: "evens (tl crc32_tab @ [0]) = map (\<lambda>x. x XOR 0x77073096) (evens crc32_tab)"
  by (simp add: crc32_tab_def)

lemma crc_shift_push: "\<not> bit x 31 \<Longrightarrow> crc_shift (push_bit 1 x) = x"
proof -
  assume top: "\<not> bit x 31"
  have "\<not> bit (push_bit 1 x) 0" by (simp only: bit_push_bit_iff) simp
  then have "crc_shift (push_bit 1 x) = drop_bit 1 (push_bit 1 x)"
    by (simp only: crc_shift_def if_False)
  also have "\<dots> = x"
  proof (rule bit_eqI)
    fix n assume "possible_bit TYPE(32 word) n"
    then have "n < 31 \<or> n = 31" by (auto simp: possible_bit_def)
    with top show "bit (drop_bit 1 (push_bit 1 x)) n = bit x n"
      unfolding bit_drop_bit_eq o_apply bit_push_bit_iff by auto
  qed
  finally show ?thesis .
qed

lemma crc32_tab_nth: "i < 256 \<Longrightarrow> crc32_tab ! i = (crc_shift ^^ 8) (word_of_nat i)"
proof (induction i rule: less_induct)
  case (less i)
  define j where "j = i div 2"
  have j128: "j < 128" using less.prems unfolding j_def by linarith
  then have j: "j < 128" "2 * j + 1 < length crc32_tab" by (auto simp: length_crc32_tab)
  have push: "(word_of_nat (2 * j) :: u32) = push_bit 1 (word_of_nat j)"
    by (simp add: push_bit_eq_mult)
  have "\<not> bit (word_of_nat j :: u32) 31"
    using j bit_unsigned_iff [of "word_of_nat j :: u32" 31, where ?'a = nat]
    by (simp add: unat_of_nat bit_iff_odd)
  then have shift: "crc_shift (word_of_nat (2 * j)) = word_of_nat j"
    unfolding push by (rule crc_shift_push)
  have even: "crc32_tab ! (2 * j) = (crc_shift ^^ 8) (word_of_nat (2 * j))"
  proof (cases "j = 0")
    case False
    have "crc_shift (crc32_tab ! (2 * j)) = crc32_tab ! j"
      using arg_cong [OF crc32_tab_shift, of "\<lambda>xs. xs ! j"] j evens_nth [OF j(2)]
      by (simp add: length_evens length_crc32_tab)
    also have "crc32_tab ! j = (crc_shift ^^ 8) (crc_shift (word_of_nat (2 * j)))"
    proof -
      have "j < i" using False by (simp add: j_def)
      then show ?thesis using less.IH j by (simp only: shift)
    qed
    finally show ?thesis
      by (simp add: funpow_swap1 [symmetric] crc_shift_inject)
  qed (simp add: crc32_tab_def funpow_8 crc_shift_def)
  show ?case
  proof (cases "even i")
    case True
    then show ?thesis using even by (simp add: j_def)
  next
    case False
    then have i: "i = 2 * j + 1" by (simp add: j_def)
    have "word_of_nat (2 * j) AND (1 :: u32) = 0"
      unfolding push by (rule bit_eqI) (auto simp only: bit_and_iff bit_push_bit_iff bit_1_iff bit_0_eq bot_apply bot_bool_def)
    then have "(word_of_nat i :: u32) = word_of_nat (2 * j) XOR 1"
      using disjunctive_add_eq_xor [of "word_of_nat (2 * j) :: u32" 1] by (simp only: i of_nat_add of_nat_1)
    then have "(crc_shift ^^ 8) (word_of_nat i) = crc32_tab ! (2 * j) XOR (crc_shift ^^ 8) 1"
      by (simp add: crc_shift_pow_xor even del: of_nat_mult)
    moreover have "crc32_tab ! i = crc32_tab ! (2 * j) XOR 0x77073096"
      using arg_cong [OF crc32_tab_odd, of "\<lambda>xs. xs ! j"] j evens_nth [OF j(2)]
        evens_nth [of j "tl crc32_tab @ [0]"]
      by (simp add: i length_crc32_tab nth_append nth_tl length_evens)
    ultimately show ?thesis by (simp add: funpow_8 crc_shift_def)
  qed
qed


lemma crc_shift_8: "(crc_shift ^^ 8) x = crc32_tab ! unat (x AND 0xFF) XOR drop_bit 8 x"
proof -
  have low: "x AND 0xFF = x AND mask 8" by (simp add: mask_eq_exp_minus_1)
  have lt: "unat (x AND 0xFF) < 256"
    using take_bit_nat_less_exp [of 8 "unat x"]
    by (simp add: low take_bit_eq_mask [symmetric] unsigned_take_bit_eq)
  have "(crc_shift ^^ 8) x = (crc_shift ^^ 8) (x AND mask 8) XOR (crc_shift ^^ 8) (push_bit 8 (drop_bit 8 x))"
    by (subst word_split_low [of x 8]) (rule crc_shift_pow_xor)
  also have "(crc_shift ^^ 8) (x AND mask 8) = crc32_tab ! unat (x AND 0xFF)"
    using lt by (simp add: crc32_tab_nth low)
  also have "(crc_shift ^^ 8) (push_bit 8 (drop_bit 8 x)) = drop_bit 8 (push_bit 8 (drop_bit 8 x))"
    by (rule crc_shift_pow_high) (simp add: bit_push_bit_iff)
  also have "drop_bit 8 (push_bit 8 (drop_bit 8 x)) = drop_bit 8 x"
    by (rule bit_eqI) (auto simp: bit_simps dest: bit_imp_le_length)
  finally show ?thesis .
qed

lemma drop_bit_8_ucast: "drop_bit 8 (ucast p :: u32) = 0" for p :: byte
  by (rule bit_eqI) (auto simp: bit_simps dest: bit_imp_le_length)

lemma crc_byte_tab:
  "crc_byte crc p = crc32_tab ! unat ((crc XOR ucast p) AND 0xFF) XOR drop_bit 8 crc"
  by (simp add: crc_byte_def crc_shift_8 drop_bit_xor drop_bit_8_ucast)

lemma crc32_loop_foldl: "crc32_loop crc buf = foldl crc_byte crc buf"
  by (induction crc buf rule: crc32_loop.induct) (simp_all add: crc_byte_tab)

lemma foldl_crc_byte_inject:
  "foldl crc_byte c buf = foldl crc_byte c' buf \<Longrightarrow> c = c'"
proof (induction buf arbitrary: c c')
  case (Cons p ps)
  then have "crc_byte c p = crc_byte c' p" by simp
  then have "c XOR ucast p = c' XOR ucast p"
    unfolding crc_byte_def by (rule crc_shift_pow_inject)
  then show ?case by (simp add: xor_cancel_right)
qed simp

text \<open>Up to four bytes are folded into the register as one little-endian word.\<close>

fun le_word :: "bytes \<Rightarrow> u32" where
  "le_word [] = 0"
| "le_word (p # ps) = ucast p XOR push_bit 8 (le_word ps)"

lemma le_word_bits: "bit (le_word ps) i \<Longrightarrow> i < 8 * length ps"
proof (induction ps arbitrary: i)
  case (Cons p ps)
  show ?case
  proof (cases "i < 8")
    case False
    with Cons.prems have "bit (le_word ps) (i - 8)"
      by (auto simp: bit_xor_iff bit_simps dest: bit_imp_le_length)
    from Cons.IH [OF this] show ?thesis using False by simp
  qed simp
qed simp

lemma crc_shift_8_push:
  "(\<forall>i. bit x i \<longrightarrow> i < 24) \<Longrightarrow> (crc_shift ^^ 8) (push_bit 8 x) = x"
proof -
  assume a: "\<forall>i. bit x i \<longrightarrow> i < 24"
  have "(crc_shift ^^ 8) (push_bit 8 x) = drop_bit 8 (push_bit 8 x)"
    by (rule crc_shift_pow_high) (simp add: bit_push_bit_iff)
  also have "\<dots> = x" using a by (auto intro!: bit_eqI simp: bit_simps)
  finally show ?thesis .
qed

lemma foldl_crc_byte_word:
  "length ps \<le> 4 \<Longrightarrow> foldl crc_byte c ps = (crc_shift ^^ (8 * length ps)) (c XOR le_word ps)"
proof (induction ps arbitrary: c)
  case (Cons p ps)
  let ?n = "8 * length ps"
  have high: "(crc_shift ^^ 8) (push_bit 8 (le_word ps)) = le_word ps"
    using Cons.prems by (intro crc_shift_8_push) (auto dest: le_word_bits)
  have "foldl crc_byte c (p # ps) = (crc_shift ^^ ?n) (crc_byte c p XOR le_word ps)"
    using Cons by simp
  also have "crc_byte c p XOR le_word ps = (crc_shift ^^ 8) (c XOR le_word (p # ps))"
    by (simp add: crc_byte_def crc_shift_pow_xor high xor.assoc)
  finally have "foldl crc_byte c (p # ps) = (crc_shift ^^ (?n + 8)) (c XOR le_word (p # ps))"
    by (simp only: funpow_add o_apply)
  then show ?case by (simp add: add.commute)
qed simp

lemma le_word_inject: "length ps = length qs \<Longrightarrow> length ps \<le> 4 \<Longrightarrow> le_word ps = le_word qs \<Longrightarrow> ps = qs"
proof (induction ps qs rule: list_induct2)
  case (Cons p ps q qs)
  have b: "bit (le_word (p # ps)) i = (if i < 8 then bit p i else i < 32 \<and> bit (le_word ps) (i - 8))" for p i and ps :: bytes
    by (auto simp: bit_simps dest: bit_imp_le_length)
  have "p = q"
  proof (rule bit_eqI)
    fix i assume "possible_bit TYPE(byte) i"
    then show "bit p i = bit q i"
      using b [of p ps i] b [of q qs i] Cons.prems(2) by (simp add: possible_bit_def)
  qed
  moreover have "le_word ps = le_word qs"
  proof (rule bit_eqI)
    fix i
    show "bit (le_word ps) i = bit (le_word qs) i"
    proof (cases "i < 24")
      case True
      then show ?thesis using b [of p ps "i + 8"] b [of q qs "i + 8"] Cons.prems(2) by simp
    next
      case False
      then show ?thesis using le_word_bits [of ps i] le_word_bits [of qs i] Cons.prems(1) Cons.hyps
        by auto
    qed
  qed
  ultimately show ?case using Cons by simp
qed simp

lemma crc32_change:
  "length w = length w' \<Longrightarrow> length w \<le> 4 \<Longrightarrow> w \<noteq> w' \<Longrightarrow> crc32 c (pre @ w @ post) \<noteq> crc32 c (pre @ w' @ post)"
proof
  assume a: "length w = length w'" "length w \<le> 4" "w \<noteq> w'"
    and eq: "crc32 c (pre @ w @ post) = crc32 c (pre @ w' @ post)"
  define r where "r = foldl crc_byte (c XOR NOT 0) pre"
  have "foldl crc_byte (foldl crc_byte r w) post = foldl crc_byte (foldl crc_byte r w') post"
    using eq by (simp add: crc32_def crc32_loop_foldl r_def)
  then have "foldl crc_byte r w = foldl crc_byte r w'" by (rule foldl_crc_byte_inject)
  then have "r XOR le_word w = r XOR le_word w'"
    using a by (simp add: foldl_crc_byte_word crc_shift_pow_inject)
  then have "le_word w = le_word w'" by (simp add: xor_cancel_left)
  with a le_word_inject show False by blast
qed

section \<open>Properties\<close>

text \<open>C35. The table-driven checksum is the CRC-32 of the reflected polynomial 0xEDB88320, computed
  bit by bit.\<close>

theorem crc32_is_bitwise: "crc32 crc buf = crc32_bitwise crc buf"
  by (simp add: crc32_def crc32_bitwise_def crc32_loop_foldl)

text \<open>The checksum of a buffer can be computed piece by piece, passing the checksum of the first
  piece as the initial value for the second.\<close>

theorem crc32_incremental: "crc32 (crc32 crc xs) ys = crc32 crc (xs @ ys)"
  by (simp add: crc32_def crc32_loop_foldl xor.assoc)

text \<open>C36. Two buffers of the same length that differ only within four consecutive bytes have
  different checksums.\<close>

theorem crc32_detects_bursts:
  assumes "length w = length w'" "length w \<le> 4" "w \<noteq> w'"
  shows "crc32 c (pre @ w @ post) \<noteq> crc32 c (pre @ w' @ post)"
  using assms by (rule crc32_change)

theorem crc32_detects_bursts_witness:
  "crc32 0 ([1, 2] @ [3, 4, 5] @ [6]) \<noteq> crc32 0 ([1, 2] @ [3, 0, 5] @ [6])"
  by (rule crc32_detects_bursts) simp_all

end
