(* ===== verification/Cassert.thy ===== *)
theory Cassert
  imports Prelude
begin

text \<open>
  \<^verbatim>\<open>src/src/cassert.h\<close>: an assertion at compile time. The macro declares an array type whose
  size is computed from the condition; the compiler accepts the declaration when the size is
  positive, which C demands of an array. The name of the type, made from the file and the line, plays no part.
\<close>

definition cassert_size :: "bool \<Rightarrow> int" where
  "cassert_size predicate = 2 * of_bool predicate - 1"

definition CASSERT :: "bool \<Rightarrow> bool" where
  "CASSERT predicate \<longleftrightarrow> 0 < cassert_size predicate"

text \<open>The program compiles exactly when the condition is true; otherwise the size is the \<open>- 1\<close> of the comment.\<close>

lemma CASSERT_iff: "CASSERT predicate \<longleftrightarrow> predicate"
  by (simp add: CASSERT_def cassert_size_def of_bool_def)

lemma cassert_size_failed: "\<not> CASSERT predicate \<Longrightarrow> cassert_size predicate = - 1"
  by (simp add: CASSERT_iff) (simp add: cassert_size_def)

end
