(* ===== verification/Segment.thy ===== *)
theory Segment
  imports Prot Util Crc32 Cassert
begin

text \<open>
  \<^verbatim>\<open>src/src/segment.c\<close>: one segment of the log, a data file with the frames and an index file
  with the offset of each frame, both mapped into memory. A segment keeps the synchronised
  and the written position as pairs (index entry, data offset); a file descriptor and the
  mapping made from it are the path of the file. The operations are translated statement by
  statement; reading or storing outside a mapping is \<^const>\<open>None\<close>. The calls that only
  release resources on the error paths (\<open>close\<close>, \<open>munmap\<close>, \<open>free\<close>) have no effect on the
  modelled state. Several threads are modelled at the compare-and-swap of \<open>claim\<close>: it fails
  when the write position has moved.
\<close>

section \<open>Data\<close>

definition DATA_SUFFIX :: string where "DATA_SUFFIX = ''log''"
definition INDEX_SUFFIX :: string where "INDEX_SUFFIX = ''idx''"
definition LATEST_SEGMENT_VERSION :: u32 where "LATEST_SEGMENT_VERSION = 0"
definition CRC32_INIT :: u32 where "CRC32_INIT = 0"
definition SGM_RDDRT :: u32 where "SGM_RDDRT = 0x0"
definition SGM_RDCMT :: u32 where "SGM_RDCMT = 0x1"

definition index_entry_size :: u64 where "index_entry_size = 8"

record offset_pair =
  op_index :: u32
  op_data :: u32

definition cas_helper :: "offset_pair \<Rightarrow> u64" where
  "cas_helper v = ucast (op_index v) OR push_bit 32 (ucast (op_data v))"

text \<open>The assertion at compile time that the pair, two integers of four bytes, fits into the 64 bits
  that are compared and swapped.\<close>

definition offset_pair_size :: nat where "offset_pair_size = 4 + 4"

definition cas_pair_fits :: bool where "cas_pair_fits = CASSERT (8 \<ge> offset_pair_size)"

lemma cas_pair_fits: "cas_pair_fits"
  by (simp add: cas_pair_fits_def CASSERT_iff offset_pair_size_def)

record segment =
  sg_version :: u32
  sg_flags :: u32
  sg_index_fd :: string
  sg_data_fd :: string
  sg_size :: u32
  sg_base_offset :: u64
  sg_buffer :: string
  sg_index :: string
  sg_s :: offset_pair
  sg_w :: offset_pair

section \<open>Opening files\<close>

definition index_filename :: "nat \<Rightarrow> u64 \<Rightarrow> string \<times> int" where
  "index_filename len offset =
     (let (filename, n) = snprintf len (print_jd offset @ ''.'' @ INDEX_SUFFIX)
      in (filename, if n \<le> len then 0 else - 1))"

definition data_filename :: "nat \<Rightarrow> u64 \<Rightarrow> string \<times> int" where
  "data_filename len offset =
     (let (filename, n) = snprintf len (print_jd offset @ ''.'' @ DATA_SUFFIX)
      in (filename, if n \<le> len then 0 else - 1))"

text \<open>
  The common part of \<open>open_index\<close> and \<open>open_data\<close>, which differ in the file name
  only. A descriptor is the path it was opened on; an error code is an \<^const>\<open>Inl\<close>.
\<close>

definition open_in_dir :: "os \<Rightarrow> string \<Rightarrow> string \<Rightarrow> u64 \<Rightarrow> (os \<times> (int + string)) option" where
  "open_in_dir s dir filename sz =
     (let (rc, s) = ensure_directory s dir in
      if rc \<noteq> 0 then Some (s, Inl ELFLEOP) else do {
        (fname, rc) \<leftarrow> append_file_to_dir 256 dir filename;
        if rc = - 1 then Some (s, Inl ELSOFLW) else
        (let (ok, s) = sys_open s fname in
         if \<not> ok then Some (s, Inl ELFLEOP) else
         (let (st, s) = sys_fstat s fname in
          case st of
            None \<Rightarrow> Some (s, Inl ELFLEOP)
          | Some fsz \<Rightarrow>
              if fsz > 0 \<and> fsz \<noteq> unat sz then Some (s, Inl ELFLEOP)
              else if fsz = 0 then
                (let (rc, s) = sys_ftruncate s fname (unat sz) in
                 if rc < 0 then Some (s, Inl ELFLEOP) else Some (s, Inr fname))
              else Some (s, Inr fname))) })"

definition open_index :: "os \<Rightarrow> string \<Rightarrow> u64 \<Rightarrow> u64 \<Rightarrow> (os \<times> (int + string)) option" where
  "open_index s dir offset sz =
     (let (filename, rc) = index_filename 64 offset in
      if rc = - 1 then Some (s, Inl ELSOFLW) else open_in_dir s dir filename sz)"

definition open_data :: "os \<Rightarrow> string \<Rightarrow> u64 \<Rightarrow> u64 \<Rightarrow> (os \<times> (int + string)) option" where
  "open_data s dir offset sz =
     (let (filename, rc) = data_filename 64 offset in
      if rc = - 1 then Some (s, Inl ELSOFLW) else open_in_dir s dir filename sz)"

definition mmap_helper :: "os \<Rightarrow> u64 \<Rightarrow> string \<Rightarrow> os \<times> int \<times> mptr option" where
  "mmap_helper s sz fd =
     (let (ptr0, s) = sys_mmap s fd sz in
      if ptr0 = NULL_PTR then (s, ELMMAP, None)
      else let (rc, s) = sys_madvise s ptr0 in
           if rc \<noteq> 0 then (s, ELMADV, None) else (s, 0, Some ptr0))"

section \<open>The write position of an existing segment\<close>

function find_w_loop ::
  "os \<Rightarrow> string \<Rightarrow> string \<Rightarrow> nat \<Rightarrow> nat \<Rightarrow> u64 \<Rightarrow> (int \<times> offset_pair option) option" where
  "find_w_loop s buffer index max_index_entries i prev =
     (if i < max_index_entries then do {
        phys \<leftarrow> ld_u64 s index (8 * i);
        found \<leftarrow> (if phys = 0
                  then (if i = 0 then map_option (\<lambda>h. h = 0) (prot_is_header s buffer 0)
                        else Some True)
                  else Some False);
        (if found
         then do {
           offset \<leftarrow> (if i \<noteq> 0 then map_option size_of_u32 (ld_u32 s buffer (unat prev + 4))
                      else Some 0);
           Some (0, Some \<lparr>op_index = word_of_nat i, op_data = u32_of_size (prev + offset)\<rparr>) }
         else find_w_loop s buffer index max_index_entries (Suc i) phys) }
      else Some (ELWOFFS, None))"
  by pat_completeness auto
termination
  by (relation "measure (\<lambda>(s, b, x, n, i, p). n - i)") auto

declare find_w_loop.simps [simp del]

definition find_w_offset_pair ::
  "os \<Rightarrow> string \<Rightarrow> string \<Rightarrow> u64 \<Rightarrow> (int \<times> offset_pair option) option" where
  "find_w_offset_pair s buffer index sz =
     find_w_loop s buffer index (unat (sz div index_entry_size)) 0 0"

definition calculate_index_size :: "u64 \<Rightarrow> u64" where
  "calculate_index_size data_size = (data_size + 1) div header_size"

section \<open>Claiming space and marking the end\<close>

definition claim :: "segment \<Rightarrow> offset_pair \<Rightarrow> offset_pair \<Rightarrow> segment \<times> int" where
  "claim sgm old new =
     (if cas_helper (sg_w sgm) = cas_helper old
      then (sgm\<lparr>sg_w := new\<rparr>, 0) else (sgm, ELLOCK))"

definition mark_eos :: "os \<Rightarrow> segment \<Rightarrow> offset_pair \<Rightarrow> (os \<times> segment \<times> int) option" where
  "mark_eos s sgm cur =
     (let new = \<lparr>op_index = op_index cur,
                 op_data = u32_of_size (size_of_u32 (op_data cur) + header_size)\<rparr>;
          (sgm, rc) = claim sgm cur new in
      if rc \<noteq> 0 then Some (s, sgm, rc) else
      (let w_offset = unat (op_data cur); buf = sg_buffer sgm in do {
        s \<leftarrow> header_init s buf w_offset;
        s \<leftarrow> st_u32 s buf (w_offset + 4) (u32_of_size header_size);
        s \<leftarrow> st_u16 s buf w_offset HEADER_FLAGS_EOS;
        Some (s, sgm, ELEOS) }))"

definition marked_eos :: "os \<Rightarrow> segment \<Rightarrow> bool option" where
  "marked_eos s sgm =
     (let w_offset = size_of_u32 (op_data (sg_w sgm)) in
      if w_offset < header_size then Some False
      else do {
        fl \<leftarrow> ld_u16 s (sg_buffer sgm) (unat (w_offset - header_size));
        Some (fl = HEADER_FLAGS_EOS) })"

section \<open>Synchronising\<close>

definition sync_data :: "os \<Rightarrow> segment \<Rightarrow> os \<times> segment \<times> int" where
  "sync_data s sgm =
     (let addr = map_base s (sg_buffer sgm) + size_of_u32 (op_data (sg_s sgm));
          w_offset = op_data (sg_w sgm);
          sz = size_of_u32 w_offset - size_of_u32 (op_data (sg_s sgm));
          sync_addr = page_aligned_addr s addr;
          diff = addr - sync_addr;
          sync_size = sz + diff;
          (rc, s) = sys_msync s (sg_buffer sgm) sync_addr sync_size in
      if rc \<noteq> 0 then (s, sgm, ELDTSYN)
      else (s, sgm\<lparr>sg_s := (sg_s sgm)\<lparr>op_data := w_offset\<rparr>\<rparr>, int_of_size sync_size))"

definition sync_index :: "os \<Rightarrow> segment \<Rightarrow> os \<times> segment \<times> int" where
  "sync_index s sgm =
     (let addr = map_base s (sg_index sgm) + 8 * size_of_u32 (op_index (sg_s sgm));
          w_index = op_index (sg_w sgm);
          len = size_of_u32 w_index - size_of_u32 (op_index (sg_s sgm));
          sz = index_entry_size * len;
          sync_addr = page_aligned_addr s addr;
          diff = addr - sync_addr;
          sync_size = sz + diff;
          (rc, s) = sys_msync s (sg_index sgm) sync_addr sync_size in
      if rc \<noteq> 0 then (s, sgm, ELDTSYN)
      else (s, sgm\<lparr>sg_s := (sg_s sgm)\<lparr>op_index := w_index\<rparr>\<rparr>, int_of_size len))"

definition segment_sync :: "os \<Rightarrow> segment \<Rightarrow> os \<times> segment \<times> int" where
  "segment_sync s sgm =
     (let (s, sgm, sz) = sync_data s sgm in
      if sz \<le> 0 then (s, sgm, sz) else sync_index s sgm)"

section \<open>Opening and closing a segment\<close>

definition segment_open ::
  "os \<Rightarrow> string \<Rightarrow> u64 \<Rightarrow> u32 \<Rightarrow> u32 \<Rightarrow> (os \<times> int \<times> segment option) option" where
  "segment_open s dir base_offset sz flags =
     (if size_of_u32 sz mod pagesize s \<noteq> 0 then Some (s, ELNOPGM, None) else
      (let (ok, s) = sys_call s in
       if \<not> ok then Some (s, ELALLC, None) else
       (let index_size = calculate_index_size (size_of_u32 sz) in do {
          (s, r) \<leftarrow> open_index s dir base_offset index_size;
          case r of Inl rc \<Rightarrow> Some (s, rc, None) | Inr index_fd \<Rightarrow>
          (let (s, rc, index) = mmap_helper s index_size index_fd in
           if rc \<noteq> 0 then Some (s, rc, None) else do {
             (s, r) \<leftarrow> open_data s dir base_offset (size_of_u32 sz);
             case r of Inl rc \<Rightarrow> Some (s, rc, None) | Inr data_fd \<Rightarrow>
             (let (s, rc, buffer) = mmap_helper s (size_of_u32 sz) data_fd in
              if rc \<noteq> 0 then Some (s, rc, None) else do {
                (rc, w) \<leftarrow> find_w_offset_pair s data_fd index_fd index_size;
                case w of None \<Rightarrow> Some (s, rc, None) | Some w \<Rightarrow>
                Some (s, 0, Some \<lparr>sg_version = LATEST_SEGMENT_VERSION, sg_flags = flags,
                       sg_index_fd = index_fd, sg_data_fd = data_fd, sg_size = sz,
                       sg_base_offset = base_offset, sg_buffer = data_fd, sg_index = index_fd,
                       sg_s = w, sg_w = w\<rparr>) }) }) })))"

definition segment_close :: "os \<Rightarrow> segment \<Rightarrow> os \<times> segment option \<times> int" where
  "segment_close s sgm =
     (let (s, sgm, rc) = segment_sync s sgm in
      if rc < 0 then (s, Some sgm, rc) else (s, None, 0))"

definition segment_base_offset :: "segment \<Rightarrow> u64" where
  "segment_base_offset sgm = sg_base_offset sgm"

definition segment_write_offset :: "segment \<Rightarrow> u64" where
  "segment_write_offset sgm = sg_base_offset sgm + size_of_u32 (op_index (sg_w sgm))"

definition segment_read_offset :: "segment \<Rightarrow> u64" where
  "segment_read_offset sgm = sg_base_offset sgm + size_of_u32 (op_index (sg_w sgm))"

section \<open>Writing and reading\<close>

definition segment_write :: "os \<Rightarrow> segment \<Rightarrow> bytes \<Rightarrow> (os \<times> segment \<times> int) option" where
  "segment_write s sgm buf = do {
     eos \<leftarrow> marked_eos s sgm;
     if eos then Some (s, sgm, ELEOS) else
     (let cur = sg_w sgm;
          sz = size_of buf;
          frame_size = header_size + sz;
          w_offset = size_of_u32 (op_data cur) in
      if header_size + frame_size > size_of_u32 (sg_size sgm) - w_offset
      then mark_eos s sgm cur
      else
      (let new = \<lparr>op_index = op_index cur + 1,
                  op_data = u32_of_size (size_of_u32 (op_data cur) + frame_size)\<rparr>;
           (sgm, rc) = claim sgm cur new in
       if rc \<noteq> 0 then Some (s, sgm, rc) else
       (let payload_offset = w_offset + header_size;
            hdr = unat w_offset; b = sg_buffer sgm in do {
         s \<leftarrow> mem_store s b (unat payload_offset) buf;
         s \<leftarrow> header_init s b hdr;
         s \<leftarrow> st_u32 s b (hdr + 8) (crc32 CRC32_INIT buf);
         s \<leftarrow> st_u32 s b (hdr + 4) (u32_of_size frame_size);
         s \<leftarrow> st_u16 s b hdr HEADER_FLAGS_READY;
         s \<leftarrow> st_u64 s (sg_index sgm) (8 * unat (op_index cur)) w_offset;
         Some (s, sgm, ssize sz) }))) }"

definition segment_read :: "os \<Rightarrow> segment \<Rightarrow> u64 \<Rightarrow> frame \<Rightarrow> (int \<times> frame) option" where
  "segment_read s sgm relative_offset fr =
     (let boundary = (if sg_flags sgm AND SGM_RDCMT = SGM_RDCMT
                      then size_of_u32 (op_data (sg_s sgm)) else size_of_u32 (op_data (sg_w sgm)));
          i_offset = size_of_u32 (op_index (sg_w sgm)) in
      if relative_offset \<ge> i_offset then Some (ELNORD, fr) else do {
        physical_offset \<leftarrow> ld_u64 s (sg_index sgm) (8 * unat relative_offset);
        if relative_offset \<noteq> 0 \<and> physical_offset = 0 then Some (ELNORD, fr)
        else if physical_offset \<ge> boundary then Some (ELNORD, fr)
        else (let hdr = unat physical_offset; b = sg_buffer sgm in do {
          fl \<leftarrow> ld_u16 s b hdr;
          if fl = HEADER_FLAGS_READY then
            (let fr = \<lparr>fr_hdr = Some (b, hdr),
                       fr_buffer = Some (b, hdr + unat header_size)\<rparr> in do {
              sz \<leftarrow> ld_u32 s b (hdr + 4);
              Some (ssize (size_of_u32 sz - header_size), fr) })
          else if fl = HEADER_FLAGS_EOS then
            Some (ELEOS, fr\<lparr>fr_hdr := Some (b, hdr)\<rparr>)
          else Some (ELINVHD, fr) }) })"

end
