(* ===== verification/Segment_Frames.thy ===== *)
theory Segment_Frames
  imports Segment
begin

text \<open>
  Writing and reading frames in a segment. The representation predicates \<open>seg_rep\<close> (a
  segment that accepts writes) and \<open>seg_eos\<close> (a segment closed by an end-of-segment
  frame) say which list of payloads the two mapped files hold: the data file starts with
  one encoded frame per payload, the index file with the offset of each frame, and the
  write position is behind the last frame. The lemmas give the behaviour of
  \<open>segment_write\<close> and \<open>segment_read\<close> on every branch in terms of that list.
\<close>

section \<open>A sequence of stores as one splice\<close>

lemma store_in_region:
  assumes "files s b = Some f" "w + length X \<le> length (fbytes f)" "k + length xs \<le> length X"
  shows "mem_store (set_bytes s b (splice (fbytes f) w X)) b (w + k) xs
       = Some (set_bytes s b (splice (fbytes f) w (splice X k xs)))"
  using assms by (simp add: mem_store_eq splice_nested)

lemma start_region:
  assumes "files s b = Some f" "w + n \<le> length (fbytes f)"
  shows "s = set_bytes s b (splice (fbytes f) w (slice (fbytes f) w n))"
  using assms by (simp add: splice_slice set_bytes_def fun_upd_idem)

lemma splice_append_left: "k + length xs \<le> length H \<Longrightarrow> splice (H @ p) k xs = splice H k xs @ p"
  by (simp add: splice_def)

lemma header_stores:
  assumes "length H = 12" "length e = 2" "length e' = 2" "length c = 4" "length z = 4"
  shows "splice (splice (splice (splice (splice (splice H 0 e) 2 [v]) 3 [d]) 8 c) 4 z) 0 e' = e' @ [v, d] @ z @ c"
proof -
  define h v' d' z' c' where "h = slice H 0 2" and "v' = slice H 2 1" and "d' = slice H 3 1"
    and "z' = slice H 4 4" and "c' = slice H 8 4"
  have l: "length h = 2" "length v' = 1" "length d' = 1" "length z' = 4" "length c' = 4"
    using assms(1) by (simp_all add: h_def v'_def d'_def z'_def c'_def length_slice)
  have H: "H = h @ v' @ d' @ z' @ c'"
    using assms(1) take_add [of 2 1 H] take_add [of 3 1 H] take_add [of 4 4 H] take_add [of 8 4 H]
    by (simp add: h_def v'_def d'_def z'_def c'_def slice_def)
  have "splice H 0 e = e @ v' @ d' @ z' @ c'"
    using splice_app [of h e "[]"] assms l by (simp add: H)
  moreover have "splice (e @ v' @ d' @ z' @ c') 2 [v] = e @ [v] @ d' @ z' @ c'"
    using splice_app [of v' "[v]" e] assms l by simp
  moreover have "splice (e @ [v] @ d' @ z' @ c') 3 [d] = e @ [v] @ [d] @ z' @ c'"
    using splice_app [of d' "[d]" "e @ [v]"] assms l by simp
  moreover have "splice (e @ [v] @ [d] @ z' @ c') 8 c = e @ [v] @ [d] @ z' @ c"
    using splice_app [of c' c "e @ [v] @ [d] @ z'" "[]"] assms l by simp
  moreover have "splice (e @ [v] @ [d] @ z' @ c) 4 z = e @ [v] @ [d] @ z @ c"
    using splice_app [of z' z "e @ [v] @ [d]"] assms l by simp
  moreover have "splice (e @ [v] @ [d] @ z @ c) 0 e' = e' @ [v, d] @ z @ c"
    using splice_app [of e e' "[]"] assms l by simp
  ultimately show ?thesis by simp
qed

lemma region_bind:
  assumes "files s b = Some f" "w + length X \<le> length (fbytes f)" "k + length xs \<le> length X"
  shows "(mem_store (set_bytes s b (splice (fbytes f) w X)) b (w + k) xs \<bind> g)
       = g (set_bytes s b (splice (fbytes f) w (splice X k xs)))"
  using assms by (simp add: store_in_region)

lemma frame_stores:
  assumes f: "files s b = Some f" and len: "w + 12 + length p \<le> length (fbytes f)"
  shows "do { s \<leftarrow> mem_store s b (w + 12) p;
              s \<leftarrow> header_init s b w;
              s \<leftarrow> st_u32 s b (w + 8) c;
              s \<leftarrow> st_u32 s b (w + 4) z;
              st_u16 s b w fl }
       = Some (set_bytes s b (splice (fbytes f) w (header_bytes
           \<lparr>hflags = fl, hversion = HEADER_VERSION, hpad = HEADER_PAD, hsize = z, hcrc32 = c\<rparr> @ p)))"
proof -
  define H where "H = slice (fbytes f) w 12"
  have lH: "length H = 12" using len by (simp add: H_def length_slice)
  have "mem_store s b (w + 12) p = Some (set_bytes s b (splice (fbytes f) (w + 12) p))"
    using f len by (simp add: mem_store_eq)
  also have "splice (fbytes f) (w + 12) p = splice (fbytes f) w (H @ p)"
  proof -
    have "take (w + 12) (fbytes f) = take w (fbytes f) @ H"
      by (simp add: H_def slice_def take_add)
    then show ?thesis by (simp add: splice_def lH add.assoc)
  qed
  finally have m: "mem_store s b (w + 12) p = Some (set_bytes s b (splice (fbytes f) w (H @ p)))" .
  have len': "w + length (H @ p) \<le> length (fbytes f)" using len lH by simp
  note R = region_bind [OF f]
  note R0 = store_in_region [OF f, where k = 0, simplified]
  note B0 = region_bind [OF f, where k = 0, simplified]
  have e: "length (le_encode 2 n) = 2" "length (le_encode 4 n) = 4" for n by simp_all
  let ?X = "splice (splice (splice (splice (splice (splice H 0 (le_encode 2 (unat HEADER_FLAGS_EMPTY)))
      2 [HEADER_VERSION]) 3 [HEADER_PAD]) 8 (le_encode 4 (unat c))) 4 (le_encode 4 (unat z))) 0 (le_encode 2 (unat fl))"
  have X: "?X = header_bytes \<lparr>hflags = fl, hversion = HEADER_VERSION, hpad = HEADER_PAD, hsize = z, hcrc32 = c\<rparr>"
    using header_stores [OF lH e(1) e(1) e(2) e(2)] by (simp add: header_bytes_def)
  show ?thesis
    unfolding m bind.bind_lunit header_init_def st_u8_def st_u16_def st_u32_def
    using lH len
    by (simp add: R R0 B0 splice_append_left X del: add_2_eq_Suc')
qed

lemma eos_stores:
  assumes f: "files s b = Some f" and len: "w + 12 \<le> length (fbytes f)"
  shows "do { s \<leftarrow> header_init s b w;
              s \<leftarrow> st_u32 s b (w + 4) z;
              st_u16 s b w fl }
       = Some (set_bytes s b (splice (fbytes f) w (header_bytes
           \<lparr>hflags = fl, hversion = HEADER_VERSION, hpad = HEADER_PAD, hsize = z,
            hcrc32 = hcrc32 (header_of_bytes (slice (fbytes f) w 12))\<rparr>)))"
proof -
  define H where "H = slice (fbytes f) w 12"
  have lH: "length H = 12" using len by (simp add: H_def length_slice)
  have s: "s = set_bytes s b (splice (fbytes f) w H)"
    unfolding H_def using f len by (rule start_region)
  have len': "w + length H \<le> length (fbytes f)" using len lH by simp
  note R = region_bind [OF f]
  note R0 = store_in_region [OF f, where k = 0, simplified]
  note B0 = region_bind [OF f, where k = 0, simplified]
  define c where "c = hcrc32 (header_of_bytes H)"
  have e: "length (le_encode 2 n) = 2" "length (le_encode 4 n) = 4" for n by simp_all
  have Hc: "splice K 8 (le_encode 4 (unat c)) = K" if "length K = 12" "slice K 8 4 = slice H 8 4" for K
  proof -
    have "le_encode 4 (unat c) = slice H 8 4"
      using slice_header_crc32 [of "header_of_bytes H"] header_bytes_of_bytes [OF lH]
      by (simp add: c_def)
    then show ?thesis using that splice_slice [of 8 4 K] by simp
  qed
  let ?I = "splice (splice (splice H 0 (le_encode 2 (unat HEADER_FLAGS_EMPTY))) 2 [HEADER_VERSION]) 3 [HEADER_PAD]"
  have sl: "slice ?I 8 4 = slice H 8 4" using lH by (simp add: slice_splice_after)
  have "splice (splice ?I 4 (le_encode 4 (unat z))) 0 (le_encode 2 (unat fl))
      = header_bytes \<lparr>hflags = fl, hversion = HEADER_VERSION, hpad = HEADER_PAD, hsize = z, hcrc32 = c\<rparr>"
    using header_stores [OF lH e(1) e(1) e(2) e(2), of "unat HEADER_FLAGS_EMPTY" HEADER_VERSION HEADER_PAD "unat c" "unat z" "unat fl"] Hc [of ?I] sl lH
    by (simp add: header_bytes_def)
  then show ?thesis
    apply (subst s)
    unfolding header_init_def st_u8_def st_u16_def st_u32_def
    using lH len
    by (simp add: R R0 B0 c_def H_def [symmetric] del: add_2_eq_Suc')
qed

lemma frame_stores_bind:
  assumes f: "files s b = Some f" and len: "w + 12 + length p \<le> length (fbytes f)"
  shows "(mem_store s b (w + 12) p \<bind> (\<lambda>s. header_init s b w \<bind> (\<lambda>s.
          st_u32 s b (w + 8) c \<bind> (\<lambda>s. st_u32 s b (w + 4) z \<bind> (\<lambda>s.
          st_u16 s b w fl \<bind> g)))))
       = g (set_bytes s b (splice (fbytes f) w (header_bytes
           \<lparr>hflags = fl, hversion = HEADER_VERSION, hpad = HEADER_PAD, hsize = z, hcrc32 = c\<rparr> @ p)))"
  using arg_cong [OF frame_stores [OF f len, of c z fl], of "\<lambda>m. m \<bind> g"]
  by (simp only: Option.bind_assoc bind.bind_lunit)

lemma eos_stores_bind:
  assumes f: "files s b = Some f" and len: "w + 12 \<le> length (fbytes f)"
  shows "(header_init s b w \<bind> (\<lambda>s. st_u32 s b (w + 4) z \<bind> (\<lambda>s. st_u16 s b w fl \<bind> g)))
       = g (set_bytes s b (splice (fbytes f) w (header_bytes
           \<lparr>hflags = fl, hversion = HEADER_VERSION, hpad = HEADER_PAD, hsize = z,
            hcrc32 = hcrc32 (header_of_bytes (slice (fbytes f) w 12))\<rparr>)))"
  using arg_cong [OF eos_stores [OF f len, of z fl], of "\<lambda>m. m \<bind> g"]
  by (simp only: Option.bind_assoc bind.bind_lunit)

section \<open>The layout of a segment\<close>

definition frame_header :: "bytes \<Rightarrow> header" where
  "frame_header p = \<lparr>hflags = HEADER_FLAGS_READY, hversion = HEADER_VERSION, hpad = HEADER_PAD,
     hsize = word_of_nat (12 + length p), hcrc32 = crc32 CRC32_INIT p\<rparr>"

definition frame_bytes :: "bytes \<Rightarrow> bytes" where
  "frame_bytes p = header_bytes (frame_header p) @ p"

definition frames :: "bytes list \<Rightarrow> bytes" where
  "frames ps = concat (map frame_bytes ps)"

definition foffset :: "bytes list \<Rightarrow> nat \<Rightarrow> nat" where
  "foffset ps i = length (frames (take i ps))"

definition index_bytes :: "bytes list \<Rightarrow> bytes" where
  "index_bytes ps = concat (map (\<lambda>i. le_encode 8 (foffset ps i)) [0..<length ps])"

definition seg_layout :: "os \<Rightarrow> segment \<Rightarrow> bytes list \<Rightarrow> bool" where
  "seg_layout s sgm ps \<longleftrightarrow> (case (files s (sg_buffer sgm), files s (sg_index sgm)) of
     (Some fd, Some fi) \<Rightarrow>
       sg_buffer sgm \<noteq> sg_index sgm \<and>
       length (fbytes fd) = unat (sg_size sgm) \<and>
       take (length (frames ps)) (fbytes fd) = frames ps \<and>
       length (frames ps) + 12 \<le> length (fbytes fd) \<and>
       unat (op_index (sg_w sgm)) = length ps \<and>
       8 * length ps \<le> length (fbytes fi) \<and>
       take (8 * length ps) (fbytes fi) = index_bytes ps
   | _ \<Rightarrow> False)"

definition seg_rep :: "os \<Rightarrow> segment \<Rightarrow> bytes list \<Rightarrow> bool" where
  "seg_rep s sgm ps \<longleftrightarrow> seg_layout s sgm ps \<and> unat (op_data (sg_w sgm)) = length (frames ps)"

definition seg_eos :: "os \<Rightarrow> segment \<Rightarrow> bytes list \<Rightarrow> bool" where
  "seg_eos s sgm ps \<longleftrightarrow> seg_layout s sgm ps \<and>
     unat (op_data (sg_w sgm)) = length (frames ps) + 12 \<and>
     (let h = header_of_bytes (slice (bytes_of s (sg_buffer sgm)) (length (frames ps)) 12) in
      hflags h = HEADER_FLAGS_EOS \<and> hsize h = 12)"

text \<open>What \<open>marked_eos\<close> sees in place of a header: the last twelve bytes before the write position.\<close>

definition tail_flags :: "bytes list \<Rightarrow> u16" where
  "tail_flags ps = word_of_nat (le_decode (slice (frames ps) (length (frames ps) - 12) 2))"

definition looks_eos :: "bytes list \<Rightarrow> bool" where
  "looks_eos ps \<longleftrightarrow> ps \<noteq> [] \<and> tail_flags ps = HEADER_FLAGS_EOS"

definition index_room :: "os \<Rightarrow> segment \<Rightarrow> nat" where
  "index_room s sgm = length (bytes_of s (sg_index sgm)) div 8"

definition fits :: "segment \<Rightarrow> bytes list \<Rightarrow> bytes \<Rightarrow> bool" where
  "fits sgm ps p \<longleftrightarrow> length (frames ps) + 24 + length p \<le> unat (sg_size sgm)"

section \<open>Layout lemmas\<close>

lemma length_frame_bytes [simp]: "length (frame_bytes p) = 12 + length p"
  by (simp add: frame_bytes_def)

lemma frames_simps [simp]: "frames [] = []" "frames (p # ps) = frame_bytes p @ frames ps"
  "frames (ps @ qs) = frames ps @ frames qs"
  by (simp_all add: frames_def)

lemma length_frames_ge: "12 * length ps \<le> length (frames ps)"
  by (induction ps) auto

lemma frames_Nil_iff [simp]: "frames ps = [] \<longleftrightarrow> ps = []"
  by (cases ps) (auto simp: frame_bytes_def header_bytes_def)

lemma foffset_append [simp]: "i \<le> length ps \<Longrightarrow> foffset (ps @ qs) i = foffset ps i"
  by (simp add: foffset_def)

lemma foffset_length [simp]: "foffset ps (length ps) = length (frames ps)"
  by (simp add: foffset_def)

lemma index_bytes_snoc: "index_bytes (ps @ [p]) = index_bytes ps @ le_encode 8 (length (frames ps))"
  by (simp add: index_bytes_def) (rule arg_cong [where f = concat], simp)

lemma length_index_bytes [simp]: "length (index_bytes ps) = 8 * length ps"
  by (simp add: index_bytes_def length_concat o_def sum_list_triv)

lemma frames_split:
  "i < length ps \<Longrightarrow> frames ps = frames (take i ps) @ frame_bytes (ps ! i) @ frames (drop (Suc i) ps)"
  by (subst id_take_nth_drop [of i ps]) simp_all

lemma slice_index_bytes:
  "i < length ps \<Longrightarrow> slice (index_bytes ps) (8 * i) 8 = le_encode 8 (foffset ps i)"
proof -
  assume i: "i < length ps"
  have gen: "slice (concat (map f xs)) (8 * i) 8 = f (xs ! i)"
    if "i < length xs" "\<And>x. length (f x) = 8" for f :: "nat \<Rightarrow> bytes" and xs
  proof -
    have "concat (map f xs) = concat (map f (take i xs)) @ f (xs ! i) @ concat (map f (drop (Suc i) xs))"
      by (subst id_take_nth_drop [OF that(1)]) simp
    moreover have "length (concat (map f (take i xs))) = 8 * i"
      using that by (simp add: length_concat o_def sum_list_triv)
    ultimately show ?thesis using that(2) by (simp add: slice_def)
  qed
  show ?thesis using gen [of "[0..<length ps]" "\<lambda>i. le_encode 8 (foffset ps i)"] i
    by (simp add: index_bytes_def)
qed

section \<open>The representation, unfolded\<close>

lemma seg_layoutE:
  assumes "seg_layout s sgm ps"
  obtains fd fi where "files s (sg_buffer sgm) = Some fd" "files s (sg_index sgm) = Some fi"
    "sg_buffer sgm \<noteq> sg_index sgm" "length (fbytes fd) = unat (sg_size sgm)"
    "take (length (frames ps)) (fbytes fd) = frames ps"
    "length (frames ps) + 12 \<le> length (fbytes fd)"
    "unat (op_index (sg_w sgm)) = length ps"
    "8 * length ps \<le> length (fbytes fi)" "take (8 * length ps) (fbytes fi) = index_bytes ps"
  using assms by (auto simp: seg_layout_def split: option.splits)

lemma seg_layout_small: "seg_layout s sgm ps \<Longrightarrow> length (frames ps) + 12 < 2 ^ 32"
  using unsigned_less [of "sg_size sgm", where ?'a = nat]
  by (auto elim!: seg_layoutE)

lemma slice_take: "off + k \<le> n \<Longrightarrow> slice (take n bs) off k = slice bs off k"
  by (auto simp: slice_def drop_take min_def)

lemma slice_prefix: "take n bs = xs \<Longrightarrow> off + k \<le> n \<Longrightarrow> slice bs off k = slice xs off k"
  by (auto simp: slice_def drop_take min_def)

lemma marked_eos_rep:
  assumes "seg_rep s sgm ps"
  shows "marked_eos s sgm = Some (looks_eos ps)"
proof -
  from assms have lay: "seg_layout s sgm ps" and w: "unat (op_data (sg_w sgm)) = length (frames ps)"
    by (auto simp: seg_rep_def)
  from lay obtain fd fi where f: "files s (sg_buffer sgm) = Some fd"
    and pre: "take (length (frames ps)) (fbytes fd) = frames ps"
    and room: "length (frames ps) + 12 \<le> length (fbytes fd)"
    by (rule seg_layoutE)
  show ?thesis
  proof (cases "ps = []")
    case True
    then show ?thesis using w by (simp add: marked_eos_def looks_eos_def header_size_def word_less_nat_alt)
  next
    case False
    then have "12 \<le> length (frames ps)" using length_frames_ge [of ps] by (cases ps) auto
    then show ?thesis using False w f room pre
      by (simp add: marked_eos_def looks_eos_def header_size_def word_less_nat_alt tail_flags_def
        ld_u16_eq unat_sub_if' slice_prefix)
  qed
qed

lemma claim_own: "claim sgm (sg_w sgm) new = (sgm\<lparr>sg_w := new\<rparr>, 0)"
  by (simp add: claim_def)

lemma header_size_unat [simp]: "unat header_size = 12"
  by (simp add: header_size_def)

lemma u32_add_size:
  "unat a + unat w < 2 ^ 32 \<Longrightarrow> unat (u32_of_size (size_of_u32 a + w)) = unat a + unat w"
  by (simp add: unat_u32_of_size unat_plus_if')

lemma write_guard:
  assumes "unat w \<le> unat sz" "length p + 24 < 2 ^ 64"
  shows "header_size + (header_size + size_of p) > size_of_u32 sz - size_of_u32 w \<longleftrightarrow>
         unat sz - unat w < length p + 24"
proof -
  have "unat (size_of_u32 sz - size_of_u32 w) = unat sz - unat w"
    using assms(1) by (simp add: unat_sub_if')
  moreover have "unat (header_size + size_of p) = length p + 12"
    using assms(2) by (simp add: unat_plus_if' unat_size_of)
  then have "unat (header_size + (header_size + size_of p)) = length p + 24"
    using assms(2) by (simp only: unat_plus_if' header_size_unat) simp
  ultimately show ?thesis by (simp add: word_less_nat_alt)
qed

text \<open>The files a write may change, and nothing else.\<close>

definition same_but :: "string set \<Rightarrow> os \<Rightarrow> os \<Rightarrow> bool" where
  "same_but X s s' \<longleftrightarrow> (\<forall>q. q \<notin> X \<longrightarrow> files s' q = files s q) \<and>
     page_size s' = page_size s \<and> dirs s' = dirs s \<and> map_base s' = map_base s \<and>
     outcomes s' = outcomes s \<and> dir_size s' = dir_size s \<and> nofile_cur s' = nofile_cur s"

definition after_write :: "os \<Rightarrow> segment \<Rightarrow> bytes list \<Rightarrow> bytes \<Rightarrow> os" where
  "after_write s sgm ps p =
     set_bytes (set_bytes s (sg_buffer sgm)
         (splice (bytes_of s (sg_buffer sgm)) (length (frames ps)) (frame_bytes p)))
       (sg_index sgm) (splice (bytes_of s (sg_index sgm)) (8 * length ps) (le_encode 8 (length (frames ps))))"

definition next_pair :: "segment \<Rightarrow> bytes \<Rightarrow> offset_pair" where
  "next_pair sgm p = \<lparr>op_index = op_index (sg_w sgm) + 1,
     op_data = u32_of_size (size_of_u32 (op_data (sg_w sgm)) + (header_size + size_of p))\<rparr>"

lemma fits_bounds:
  assumes "fits sgm ps p"
  shows "length (frames ps) + 24 + length p < 2 ^ 32" "unat (size_of p) = length p"
    "unat (header_size + size_of p) = 12 + length p" "ssize (size_of p) = int (length p)"
    "u32_of_size (header_size + size_of p) = word_of_nat (12 + length p)"
proof -
  show small: "length (frames ps) + 24 + length p < 2 ^ 32"
    using assms unsigned_less [of "sg_size sgm", where ?'a = nat] by (simp add: fits_def)
  show szp: "unat (size_of p) = length p" using small by (simp add: unat_size_of)
  show fsz: "unat (header_size + size_of p) = 12 + length p"
    using small by (simp add: unat_plus_if' szp)
  show "ssize (size_of p) = int (length p)" using small by (simp add: ssize_of_small szp)
  have "unat (u32_of_size (header_size + size_of p)) = 12 + length p"
    using small by (simp add: unat_u32_of_size fsz)
  then show "u32_of_size (header_size + size_of p) = word_of_nat (12 + length p)"
    by (metis of_nat_unat ucast_id)
qed

lemma next_pair_unat:
  assumes rep: "seg_rep s sgm ps" and fit: "fits sgm ps p"
  shows "unat (op_data (next_pair sgm p)) = length (frames ps) + 12 + length p"
    and "unat (op_index (next_pair sgm p)) = Suc (length ps)"
proof -
  note b = fits_bounds [OF fit]
  from rep have w: "unat (op_data (sg_w sgm)) = length (frames ps)" and lay: "seg_layout s sgm ps"
    by (auto simp: seg_rep_def)
  from lay have wi: "unat (op_index (sg_w sgm)) = length ps" by (rule seg_layoutE)
  show "unat (op_data (next_pair sgm p)) = length (frames ps) + 12 + length p"
    using b u32_add_size [of "op_data (sg_w sgm)" "header_size + size_of p"]
    by (simp add: next_pair_def w)
  have "length ps < 2 ^ 31" using length_frames_ge [of ps] b(1) by simp
  then show "unat (op_index (next_pair sgm p)) = Suc (length ps)"
    by (simp add: next_pair_def unat_plus_if' wi)
qed

lemma segment_write_run:
  assumes rep: "seg_rep s sgm ps" and eos: "\<not> looks_eos ps" and fit: "fits sgm ps p"
  shows "segment_write s sgm p =
     (if length ps < index_room s sgm
      then Some (after_write s sgm ps p, sgm\<lparr>sg_w := next_pair sgm p\<rparr>, int (length p)) else None)"
proof -
  from rep have lay: "seg_layout s sgm ps" and w: "unat (op_data (sg_w sgm)) = length (frames ps)"
    by (auto simp: seg_rep_def)
  from lay obtain fd fi where f: "files s (sg_buffer sgm) = Some fd" "files s (sg_index sgm) = Some fi"
    and ne: "sg_buffer sgm \<noteq> sg_index sgm" and sz: "length (fbytes fd) = unat (sg_size sgm)"
    and wi: "unat (op_index (sg_w sgm)) = length ps"
    by (rule seg_layoutE)
  let ?b = "sg_buffer sgm" and ?x = "sg_index sgm" and ?W = "length (frames ps)"
  note B = fits_bounds [OF fit]
  have guard: "\<not> (header_size + (header_size + size_of p) > size_of_u32 (sg_size sgm) - size_of_u32 (op_data (sg_w sgm)))"
    using write_guard [of "op_data (sg_w sgm)" "sg_size sgm" p] fit B(1) w by (simp add: fits_def)
  have pay: "unat (size_of_u32 (op_data (sg_w sgm)) + header_size) = ?W + 12"
    using B(1) by (simp add: unat_plus_if' w)
  have fb: "header_bytes \<lparr>hflags = HEADER_FLAGS_READY, hversion = HEADER_VERSION, hpad = HEADER_PAD,
      hsize = u32_of_size (header_size + size_of p), hcrc32 = crc32 CRC32_INIT p\<rparr> @ p = frame_bytes p"
    by (simp add: B(5) frame_bytes_def frame_header_def)
  have len: "?W + 12 + length p \<le> length (fbytes fd)" using fit sz by (simp add: fits_def)
  define s1 where "s1 = set_bytes s ?b (splice (fbytes fd) ?W (frame_bytes p))"
  have f1: "files s1 ?x = Some fi" using f ne by (simp add: s1_def)
  have st: "st_u64 s1 ?x (8 * length ps) (size_of_u32 (op_data (sg_w sgm))) =
     (if length ps < index_room s sgm then Some (after_write s sgm ps p) else None)"
  proof -
    have "length ps < index_room s sgm \<longleftrightarrow> 8 * length ps + 8 \<le> length (fbytes fi)"
      using f by (simp add: index_room_def bytes_of_def) linarith
    then show ?thesis
      using f f1 by (simp add: st_u64_def mem_store_def after_write_def s1_def set_bytes_def bytes_of_def w)
  qed
  show ?thesis
    unfolding segment_write_def marked_eos_rep [OF rep]
    using eos guard
    by (simp add: Let_def claim_own next_pair_def [symmetric] pay w wi
      frame_stores_bind [OF f(1) len] fb s1_def [symmetric] st B(4))
qed

lemma after_write_rep:
  assumes rep: "seg_rep s sgm ps" and fit: "fits sgm ps p" and room: "length ps < index_room s sgm"
  shows "seg_rep (after_write s sgm ps p) (sgm\<lparr>sg_w := next_pair sgm p\<rparr>) (ps @ [p])"
proof -
  from rep have lay: "seg_layout s sgm ps" by (simp add: seg_rep_def)
  then obtain fd fi where f: "files s (sg_buffer sgm) = Some fd" "files s (sg_index sgm) = Some fi"
    and ne: "sg_buffer sgm \<noteq> sg_index sgm" and sz: "length (fbytes fd) = unat (sg_size sgm)"
    and pre: "take (length (frames ps)) (fbytes fd) = frames ps"
    and il: "8 * length ps \<le> length (fbytes fi)" and ix: "take (8 * length ps) (fbytes fi) = index_bytes ps"
    by (rule seg_layoutE)
  have room8: "8 * length ps + 8 \<le> length (fbytes fi)"
    using room f by (simp add: index_room_def bytes_of_def)
  show ?thesis
    using f ne sz pre il ix room8 fit next_pair_unat [OF rep fit]
    by (simp add: seg_rep_def seg_layout_def after_write_def bytes_of_def index_bytes_snoc splice_def fits_def)
qed

lemma after_write_same_but:
  "same_but {sg_buffer sgm, sg_index sgm} s (after_write s sgm ps p)"
  by (simp add: same_but_def after_write_def)

section \<open>End of segment, reading\<close>

lemma header_slice:
  "slice (fbytes f) off 12 = header_bytes h \<Longrightarrow> off + 12 \<le> length (fbytes f) \<Longrightarrow> files s p = Some f \<Longrightarrow>
   ld_u16 s p off = Some (hflags h) \<and> ld_u32 s p (off + 4) = Some (hsize h)"
proof -
  assume sl: "slice (fbytes f) off 12 = header_bytes h" and l: "off + 12 \<le> length (fbytes f)"
    and f: "files s p = Some f"
  have "slice (fbytes f) off 2 = slice (header_bytes h) 0 2"
    "slice (fbytes f) (off + 4) 4 = slice (header_bytes h) 4 4"
    by (simp_all add: sl [symmetric] slice_def drop_take add.commute min_def)
  then show ?thesis
    using f l header_bytes_flags [of h "[]"] header_bytes_size [of h "[]"]
    by (simp add: ld_u16_eq ld_u32_eq)
qed

lemma segment_write_eos:
  assumes rep: "seg_rep s sgm ps" and eos: "\<not> looks_eos ps" and fit: "\<not> fits sgm ps p"
    and len: "length p + 24 < 2 ^ 64"
  shows "\<exists>s' sgm'. segment_write s sgm p = Some (s', sgm', ELEOS) \<and>
     seg_eos s' sgm' ps \<and> same_but {sg_buffer sgm} s s' \<and> sgm' = sgm\<lparr>sg_w := sg_w sgm'\<rparr> \<and>
     (\<exists>X. length X = 12 \<and> s' = set_bytes s (sg_buffer sgm) (splice (bytes_of s (sg_buffer sgm)) (length (frames ps)) X))"
proof -
  from rep have lay: "seg_layout s sgm ps" and w: "unat (op_data (sg_w sgm)) = length (frames ps)"
    by (auto simp: seg_rep_def)
  from lay obtain fd fi where f: "files s (sg_buffer sgm) = Some fd" "files s (sg_index sgm) = Some fi"
    and ne: "sg_buffer sgm \<noteq> sg_index sgm" and sz: "length (fbytes fd) = unat (sg_size sgm)"
    and pre: "take (length (frames ps)) (fbytes fd) = frames ps"
    and room: "length (frames ps) + 12 \<le> length (fbytes fd)"
    and wi: "unat (op_index (sg_w sgm)) = length ps"
    and il: "8 * length ps \<le> length (fbytes fi)" and ix: "take (8 * length ps) (fbytes fi) = index_bytes ps"
    by (rule seg_layoutE)
  let ?b = "sg_buffer sgm" and ?W = "length (frames ps)"
  have small: "?W + 12 < 2 ^ 32"
    using room sz unsigned_less [of "sg_size sgm", where ?'a = nat] by simp
  have guard: "header_size + (header_size + size_of p) > size_of_u32 (sg_size sgm) - size_of_u32 (op_data (sg_w sgm))"
    using write_guard [of "op_data (sg_w sgm)" "sg_size sgm" p] fit len w room sz by (simp add: fits_def)
  define new where "new = \<lparr>op_index = op_index (sg_w sgm),
     op_data = u32_of_size (size_of_u32 (op_data (sg_w sgm)) + header_size)\<rparr>"
  have new_data: "unat (op_data new) = ?W + 12"
    using small u32_add_size [of "op_data (sg_w sgm)" header_size] by (simp add: new_def w)
  define h where "h = \<lparr>hflags = HEADER_FLAGS_EOS, hversion = HEADER_VERSION, hpad = HEADER_PAD,
     hsize = u32_of_size header_size, hcrc32 = hcrc32 (header_of_bytes (slice (fbytes fd) ?W 12))\<rparr>"
  define s1 where "s1 = set_bytes s ?b (splice (fbytes fd) ?W (header_bytes h))"
  have run: "segment_write s sgm p = Some (s1, sgm\<lparr>sg_w := new\<rparr>, ELEOS)"
    unfolding segment_write_def marked_eos_rep [OF rep]
    using eos guard
    by (simp add: Let_def mark_eos_def claim_own new_def [symmetric] w
      eos_stores_bind [OF f(1) room] h_def [symmetric] s1_def [symmetric])
  have "slice (splice (fbytes fd) ?W (header_bytes h)) ?W 12 = header_bytes h"
    using slice_splice_same [of ?W "header_bytes h" "fbytes fd"] room by simp
  then have "seg_eos s1 (sgm\<lparr>sg_w := new\<rparr>) ps"
    using f ne sz pre room il ix new_data wi
    by (simp add: seg_eos_def seg_layout_def s1_def bytes_of_def header_of_header_bytes splice_def
      new_def h_def u32_of_size_def header_size_def Let_def)
  moreover have "same_but {?b} s s1" by (simp add: same_but_def s1_def)
  moreover have "s1 = set_bytes s ?b (splice (bytes_of s ?b) ?W (header_bytes h))" using f by (simp add: s1_def bytes_of_def)
  moreover have "length (header_bytes h) = 12" by simp
  ultimately show ?thesis using run
    by (intro exI [of _ s1] exI [of _ "sgm\<lparr>sg_w := new\<rparr>"] conjI) (simp, assumption, assumption, simp, blast)
qed

lemma segment_write_after_eos:
  assumes "seg_eos s sgm ps"
  shows "segment_write s sgm p = Some (s, sgm, ELEOS)"
proof -
  from assms have lay: "seg_layout s sgm ps" and w: "unat (op_data (sg_w sgm)) = length (frames ps) + 12"
    and h: "hflags (header_of_bytes (slice (bytes_of s (sg_buffer sgm)) (length (frames ps)) 12)) = HEADER_FLAGS_EOS"
    by (auto simp: seg_eos_def Let_def)
  from lay obtain fd fi where f: "files s (sg_buffer sgm) = Some fd"
    and room: "length (frames ps) + 12 \<le> length (fbytes fd)"
    by (rule seg_layoutE)
  have "header_bytes (header_of_bytes (slice (fbytes fd) (length (frames ps)) 12)) = slice (fbytes fd) (length (frames ps)) 12"
    using room by (intro header_bytes_of_bytes) (simp add: length_slice)
  with header_slice [OF this [symmetric] room f] h f
  have "ld_u16 s (sg_buffer sgm) (length (frames ps)) = Some HEADER_FLAGS_EOS"
    by (simp add: bytes_of_def)
  then have "marked_eos s sgm = Some True"
    using w by (simp add: marked_eos_def word_less_nat_alt unat_sub_if' Let_def)
  then show ?thesis by (simp add: segment_write_def)
qed

lemma segment_write_looks_eos:
  assumes "seg_rep s sgm ps" "looks_eos ps"
  shows "segment_write s sgm p = Some (s, sgm, ELEOS)"
  using assms by (simp add: segment_write_def marked_eos_rep)

definition committed :: "segment \<Rightarrow> bytes list \<Rightarrow> nat \<Rightarrow> bool" where
  "committed sgm ps i \<longleftrightarrow>
     sg_flags sgm AND SGM_RDCMT \<noteq> SGM_RDCMT \<or> foffset ps i < unat (op_data (sg_s sgm))"

definition frame_at :: "segment \<Rightarrow> bytes list \<Rightarrow> nat \<Rightarrow> frame" where
  "frame_at sgm ps i = \<lparr>fr_hdr = Some (sg_buffer sgm, foffset ps i),
     fr_buffer = Some (sg_buffer sgm, foffset ps i + 12)\<rparr>"

lemma foffset_bound: "i < length ps \<Longrightarrow> foffset ps i + 12 + length (ps ! i) \<le> length (frames ps)"
  using arg_cong [OF frames_split, of i ps length] by (simp add: foffset_def)

lemma foffset_pos: "0 < i \<Longrightarrow> i < length ps \<Longrightarrow> 0 < foffset ps i"
proof -
  assume "0 < i" "i < length ps"
  then have "take i ps \<noteq> []" by auto
  then show ?thesis by (simp add: foffset_def)
qed

lemma layout_frame:
  assumes lay: "seg_layout s sgm ps" and i: "i < length ps"
    and f: "files s (sg_buffer sgm) = Some fd"
  shows "slice (fbytes fd) (foffset ps i) (12 + length (ps ! i)) = frame_bytes (ps ! i)"
proof -
  from lay f have pre: "take (length (frames ps)) (fbytes fd) = frames ps"
    by (auto elim!: seg_layoutE)
  have "slice (fbytes fd) (foffset ps i) (12 + length (ps ! i)) = slice (frames ps) (foffset ps i) (12 + length (ps ! i))"
    using foffset_bound [OF i] by (intro slice_prefix [OF pre]) simp
  also have "\<dots> = frame_bytes (ps ! i)"
    by (subst frames_split [OF i]) (simp add: foffset_def slice_def)
  finally show ?thesis .
qed

lemma layout_read:
  assumes lay: "seg_layout s sgm ps" and i: "i < length ps"
  shows "ld_u64 s (sg_index sgm) (8 * i) = Some (word_of_nat (foffset ps i))"
    and "ld_u16 s (sg_buffer sgm) (foffset ps i) = Some HEADER_FLAGS_READY"
    and "ld_u32 s (sg_buffer sgm) (foffset ps i + 4) = Some (word_of_nat (12 + length (ps ! i)))"
    and "mem_load s (sg_buffer sgm) (foffset ps i + 12) (length (ps ! i)) = Some (ps ! i)"
    and "foffset ps i + 12 + length (ps ! i) < 2 ^ 32"
proof -
  from lay obtain fd fi where f: "files s (sg_buffer sgm) = Some fd" "files s (sg_index sgm) = Some fi"
    and sz: "length (fbytes fd) = unat (sg_size sgm)"
    and pre: "take (length (frames ps)) (fbytes fd) = frames ps"
    and room: "length (frames ps) + 12 \<le> length (fbytes fd)"
    and il: "8 * length ps \<le> length (fbytes fi)" and ix: "take (8 * length ps) (fbytes fi) = index_bytes ps"
    by (rule seg_layoutE)
  note b = foffset_bound [OF i]
  have small: "length (fbytes fd) < 2 ^ 32"
    using sz unsigned_less [of "sg_size sgm", where ?'a = nat] by simp
  then show "foffset ps i + 12 + length (ps ! i) < 2 ^ 32" using b room by linarith
  have "slice (fbytes fi) (8 * i) 8 = le_encode 8 (foffset ps i)"
    using slice_prefix [OF ix, of "8 * i" 8] i by (simp add: slice_index_bytes)
  moreover have "foffset ps i < 2 ^ 64" using b room small by simp
  ultimately show "ld_u64 s (sg_index sgm) (8 * i) = Some (word_of_nat (foffset ps i))"
    using f il i by (simp add: ld_u64_eq codec_simps)
  note fr = layout_frame [OF lay i f(1)]
  have h: "slice (fbytes fd) (foffset ps i) 12 = header_bytes (frame_header (ps ! i))"
    using arg_cong [OF fr, of "take 12"] by (simp add: slice_def frame_bytes_def min_def)
  show "ld_u16 s (sg_buffer sgm) (foffset ps i) = Some HEADER_FLAGS_READY"
    "ld_u32 s (sg_buffer sgm) (foffset ps i + 4) = Some (word_of_nat (12 + length (ps ! i)))"
    using header_slice [OF h _ f(1)] b room by (simp_all add: frame_header_def)
  have "slice (fbytes fd) (foffset ps i + 12) (length (ps ! i)) = ps ! i"
    using arg_cong [OF fr, of "drop 12"] by (simp add: slice_def frame_bytes_def drop_take add.commute)
  then show "mem_load s (sg_buffer sgm) (foffset ps i + 12) (length (ps ! i)) = Some (ps ! i)"
    using f b room by (simp add: mem_load_eq)
qed

text \<open>What reading makes of the index entry, the flags and the size that it loads.\<close>

lemma frame_size_back:
  assumes "12 + n < 2 ^ 32"
  shows "ssize (size_of_u32 (word_of_nat (12 + n)) - header_size) = int n"
proof -
  have "unat (size_of_u32 (word_of_nat (12 + n)) - header_size) = n"
    using assms by (simp add: unat_sub_if' unat_of_nat del: of_nat_add)
  then show ?thesis using assms by (simp add: ssize_of_small)
qed

lemma read_of_loads:
  assumes L: "ld_u64 s (sg_index sgm) (8 * unat rel) = Some (word_of_nat off)"
      "ld_u16 s (sg_buffer sgm) off = Some HEADER_FLAGS_READY"
      "ld_u32 s (sg_buffer sgm) (off + 4) = Some (word_of_nat (12 + n))"
    and small: "off + 12 + n < 2 ^ 32" and first: "0 < unat rel \<Longrightarrow> 0 < off"
    and wr: "off < unat (op_data (sg_w sgm))" "unat rel < unat (op_index (sg_w sgm))"
  shows "segment_read s sgm rel fr = Some
    (if sg_flags sgm AND SGM_RDCMT \<noteq> SGM_RDCMT \<or> off < unat (op_data (sg_s sgm))
     then (int n, \<lparr>fr_hdr = Some (sg_buffer sgm, off), fr_buffer = Some (sg_buffer sgm, off + 12)\<rparr>) else (ELNORD, fr))"
proof -
  have o: "unat (word_of_nat off :: u64) = off" using small by (simp add: unat_of_nat)
  have o0: "(rel \<noteq> 0 \<and> (word_of_nat off :: u64) = 0) = False" using first o by (auto simp: unat_gt_0)
  have ret: "ssize (size_of_u32 (word_of_nat (12 + n)) - header_size) = int n" using small by (intro frame_size_back) simp
  show ?thesis
    unfolding segment_read_def Let_def word_le_nat_alt L(1) bind.bind_lunit o0 if_False
    using wr L(2,3) by (simp add: o ret del: of_nat_add)
qed

lemma payload_of_loads:
  assumes "ld_u32 s b (off + 4) = Some (word_of_nat (12 + length p))" "mem_load s b (off + 12) (length p) = Some p"
    and "12 + length p < 2 ^ 32"
  shows "frame_payload s \<lparr>fr_hdr = Some (b, off), fr_buffer = Some (b, off + 12)\<rparr> = Some p"
    and "frame_payload_size s \<lparr>fr_hdr = Some (b, off), fr_buffer = Some (b, off + 12)\<rparr> = Some (word_of_nat (length p))"
proof -
  have *: "size_of_u32 (word_of_nat (12 + length p)) - header_size = word_of_nat (length p)"
    using assms(3) by (simp add: word_eq_iff_unsigned [where ?'a = nat] unat_sub_if' unat_of_nat del: of_nat_add)
  then show sz: "frame_payload_size s \<lparr>fr_hdr = Some (b, off), fr_buffer = Some (b, off + 12)\<rparr> = Some (word_of_nat (length p))"
    using assms(1) by (simp add: frame_payload_size_def del: of_nat_add)
  show "frame_payload s \<lparr>fr_hdr = Some (b, off), fr_buffer = Some (b, off + 12)\<rparr> = Some p"
    using sz assms(2,3) by (simp add: frame_payload_def unat_of_nat)
qed

lemma segment_read_frame:
  assumes rep: "seg_rep s sgm ps \<or> seg_eos s sgm ps"
  shows "segment_read s sgm rel fr = Some
    (if unat rel < length ps \<and> committed sgm ps (unat rel)
     then (int (length (ps ! unat rel)), frame_at sgm ps (unat rel))
     else (ELNORD, fr))"
proof -
  from rep have lay: "seg_layout s sgm ps" and w: "length (frames ps) \<le> unat (op_data (sg_w sgm))"
    by (auto simp: seg_rep_def seg_eos_def)
  from lay have wi: "unat (op_index (sg_w sgm)) = length ps" by (rule seg_layoutE)
  show ?thesis
  proof (cases "unat rel < length ps")
    case False
    then show ?thesis by (simp add: segment_read_def word_le_nat_alt wi)
  next
    case True
    note R = layout_read [OF lay True]
    show ?thesis
      using read_of_loads [OF R(1-3,5), of fr] foffset_pos [OF _ True] foffset_bound [OF True] w wi True
      by (auto simp: committed_def frame_at_def)
  qed
qed

lemma frame_at_payload:
  assumes lay: "seg_layout s sgm ps" and i: "i < length ps"
  shows "frame_payload s (frame_at sgm ps i) = Some (ps ! i)"
    and "frame_payload_size s (frame_at sgm ps i) = Some (word_of_nat (length (ps ! i)))"
  using payload_of_loads [OF layout_read(3,4) [OF assms]] layout_read(5) [OF assms] by (simp_all add: frame_at_def)

end
