(* ===== verification/Segment_Recovery.thy ===== *)
theory Segment_Recovery
  imports Segment_Frames
begin

text \<open>
  Opening a segment: the files \<open>segment_open\<close> creates or finds, the scan of the index that
  recovers the write position (\<open>find_w_offset_pair\<close>), and what the opened segment holds.
  \<open>seg_stored\<close> describes the two files of a segment that nobody has open.
\<close>

section \<open>Opening files\<close>

definition data_path :: "string \<Rightarrow> u64 \<Rightarrow> string" where
  "data_path dir base = path_in dir (print_jd base @ ''.log'')"

definition index_path :: "string \<Rightarrow> u64 \<Rightarrow> string" where
  "index_path dir base = path_in dir (print_jd base @ ''.idx'')"

definition ensured :: "os \<Rightarrow> string \<Rightarrow> os" where
  "ensured s dir = (if dir \<in> set (dirs s) \<or> files s dir \<noteq> None then s else s\<lparr>dirs := dir # dirs s\<rparr>)"

definition fresh_file :: "os \<Rightarrow> nat \<Rightarrow> mfile" where
  "fresh_file s n = \<lparr>fsize = n, fbytes = zeros (page_round s n), fdisk = zeros n\<rparr>"

text \<open>The file after a successful \<open>open_index\<close> or \<open>open_data\<close>: a missing or empty file
  is created with the requested length, an existing one must have it.\<close>

definition opened_file :: "os \<Rightarrow> nat \<Rightarrow> mfile option \<Rightarrow> mfile option" where
  "opened_file s n f = (case f of
     None \<Rightarrow> Some (fresh_file s n)
   | Some f \<Rightarrow> if fsize f = 0 then Some (truncate_file s n f)
               else if fsize f = n then Some f else None)"

lemma data_filename_64: "data_filename 64 w = (print_jd w @ ''.log'', 0)"
  using length_print_jd [of w] by (simp add: data_filename_def snprintf_def DATA_SUFFIX_def)

lemma index_filename_64: "index_filename 64 w = (print_jd w @ ''.idx'', 0)"
  using length_print_jd [of w] by (simp add: index_filename_def snprintf_def INDEX_SUFFIX_def)

lemma append_file_to_dir_ok:
  "dir \<noteq> [] \<Longrightarrow> length (path_in dir name) < len \<Longrightarrow>
   append_file_to_dir len dir name = Some (path_in dir name, 0)"
  by (auto simp: append_file_to_dir_def snprintf_def path_in_def split: if_splits)

lemma ensure_directory_ok: "outcomes s = [] \<Longrightarrow> ensure_directory s dir = (0, ensured s dir)"
  by (simp add: ensure_directory_def file_exists_def sys_stat_def sys_mkdir_def ensured_def Let_def)

lemma ensured_frame [simp]:
  "files (ensured s dir) = files s" "outcomes (ensured s dir) = outcomes s"
  "page_size (ensured s dir) = page_size s" "map_base (ensured s dir) = map_base s"
  by (simp_all add: ensured_def)

lemma page_round_ensured [simp]: "page_round (ensured s dir) n = page_round s n"
  by (simp add: page_round_def)

lemma truncate_empty: "truncate_file s n \<lparr>fsize = 0, fbytes = [], fdisk = []\<rparr> = fresh_file s n"
  by (simp add: truncate_file_def fresh_file_def)

lemma truncate_file_cong:
  "page_size s = page_size s' \<Longrightarrow> truncate_file s n f = truncate_file s' n f"
  by (simp add: truncate_file_def page_round_def)

lemma open_in_dir_ok:
  assumes "outcomes s = []" "dir \<noteq> []" "length (path_in dir name) < 256"
    "path_in dir name \<notin> set (dirs (ensured s dir))"
    "opened_file s (unat sz) (files s (path_in dir name)) = Some f"
  shows "open_in_dir s dir name sz =
    Some ((ensured s dir)\<lparr>files := (files s)(path_in dir name \<mapsto> f)\<rparr>, Inr (path_in dir name))"
proof -
  let ?p = "path_in dir name" and ?s = "ensured s dir"
  have *: "fun_upd (files s) ?p (files s ?p) = files s" by simp
  show ?thesis
    using assms
    by (cases "files s ?p")
      (auto simp: open_in_dir_def ensure_directory_ok append_file_to_dir_ok sys_open_def sys_fstat_def
        sys_ftruncate_def opened_file_def truncate_empty Let_def fun_upd_idem
        truncate_file_cong [of "ensured s dir" s]
        truncate_file_cong [of "ensured s dir\<lparr>files := (files s)(?p \<mapsto> \<lparr>fsize = 0, fbytes = [], fdisk = []\<rparr>)\<rparr>" s]
        fresh_file_def page_round_def split: if_splits)
qed

lemma open_in_dir_bad_size:
  assumes "outcomes s = []" "dir \<noteq> []" "length (path_in dir name) < 256"
    "path_in dir name \<notin> set (dirs (ensured s dir))"
    "opened_file s (unat sz) (files s (path_in dir name)) = None"
  shows "open_in_dir s dir name sz = Some (ensured s dir, Inl ELFLEOP)"
  using assms
  by (auto simp: open_in_dir_def ensure_directory_ok append_file_to_dir_ok sys_open_def sys_fstat_def
      opened_file_def Let_def split: if_splits option.splits)

lemma mmap_helper_ok:
  assumes "outcomes s = []" "files s p = Some f" "sz \<noteq> 0"
  shows "mmap_helper s sz p = (s\<lparr>files := (files s)(p \<mapsto> map_file s f)\<rparr>, 0, Some (MAPPED p))"
  using assms by (simp add: mmap_helper_def sys_mmap_def sys_madvise_def Let_def sys_call_def)

section \<open>Scanning the index\<close>

definition prev_offset :: "bytes list \<Rightarrow> nat \<Rightarrow> u64" where
  "prev_offset ps i = (if i = 0 then 0 else word_of_nat (foffset ps (i - 1)))"

lemma find_w_skip:
  assumes idx: "\<And>j. j < k \<Longrightarrow> ld_u64 s x (8 * j) = Some (word_of_nat (foffset ps j))"
    and k: "k \<le> length ps" "k \<le> mx" and small: "length (frames ps) < 2 ^ 64"
    and hdr: "ps \<noteq> [] \<Longrightarrow> prot_is_header s b 0 = Some 1"
  shows "i \<le> k \<Longrightarrow> find_w_loop s b x mx i (prev_offset ps i) = find_w_loop s b x mx k (prev_offset ps k)"
proof (induction "k - i" arbitrary: i)
  case (Suc n)
  then have ik: "i < k" by simp
  have il: "i < length ps" using ik k by simp
  have ne: "0 < i \<Longrightarrow> (word_of_nat (foffset ps i) :: u64) \<noteq> 0"
    using foffset_pos [OF _ il] foffset_bound [OF il] small
    by (auto simp: word_eq_iff_unsigned [where ?'a = nat] unat_of_nat)
  have "ps \<noteq> []" using il by auto
  then have "find_w_loop s b x mx i (prev_offset ps i) = find_w_loop s b x mx (Suc i) (prev_offset ps (Suc i))"
    using ik k ne idx [OF ik] hdr by (subst find_w_loop.simps) (simp add: prev_offset_def)
  then show ?case using Suc.hyps(1) [of "Suc i"] Suc.hyps(2) ik by simp
qed simp

lemma find_w_full:
  assumes "\<And>j. j < mx \<Longrightarrow> ld_u64 s x (8 * j) = Some (word_of_nat (foffset ps j))"
    and "mx \<le> length ps" "length (frames ps) < 2 ^ 64"
    and "ps \<noteq> [] \<Longrightarrow> prot_is_header s b 0 = Some 1"
  shows "find_w_loop s b x mx 0 0 = Some (ELWOFFS, None)"
  using find_w_skip [of mx s x ps mx b 0] assms
  by (simp add: prev_offset_def find_w_loop.simps [of s b x mx mx])

lemma find_w_found:
  assumes lay: "seg_layout s sgm ps" and mx: "length ps < mx"
    and zero: "ld_u64 s (sg_index sgm) (8 * length ps) = Some 0"
    and empty: "ps = [] \<Longrightarrow> prot_is_header s (sg_buffer sgm) 0 = Some 0"
  shows "\<exists>w. find_w_loop s (sg_buffer sgm) (sg_index sgm) mx 0 0 = Some (0, Some w) \<and>
     unat (op_index w) = length ps \<and> unat (op_data w) = length (frames ps)"
proof -
  have small: "length (frames ps) < 2 ^ 32" using seg_layout_small [OF lay] by simp
  have hdr: "prot_is_header s (sg_buffer sgm) 0 = Some 1" if "ps \<noteq> []"
    using that layout_read(2) [OF lay, of 0] by (simp add: prot_is_header_def foffset_def)
  have "find_w_loop s (sg_buffer sgm) (sg_index sgm) mx 0 (prev_offset ps 0) =
        find_w_loop s (sg_buffer sgm) (sg_index sgm) mx (length ps) (prev_offset ps (length ps))"
    using mx small by (intro find_w_skip) (auto simp: layout_read(1) [OF lay] hdr)
  moreover have "\<exists>w. find_w_loop s (sg_buffer sgm) (sg_index sgm) mx (length ps) (prev_offset ps (length ps)) = Some (0, Some w) \<and>
     unat (op_index w) = length ps \<and> unat (op_data w) = length (frames ps)"
  proof (cases ps rule: rev_cases)
    case Nil
    then show ?thesis using zero empty mx
      by (subst find_w_loop.simps) (simp add: prev_offset_def u32_of_size_def)
  next
    case (snoc qs q)
    let ?i = "length qs"
    have i: "?i < length ps" and q: "ps ! ?i = q" and o: "foffset ps ?i = length (frames qs)"
      by (simp_all add: snoc)
    note R = layout_read [OF lay i, unfolded q o]
    have po: "prev_offset (qs @ [q]) (Suc (length qs)) = word_of_nat (length (frames qs))"
      by (simp add: prev_offset_def)
    have un: "unat (word_of_nat (length (frames qs)) :: u64) = length (frames qs)"
      using R(5) by (simp add: unat_of_nat)
    have sum: "unat (u32_of_size (word_of_nat (length (frames qs)) + size_of_u32 (word_of_nat (12 + length q)))) = length (frames ps)"
      using R(5) un by (simp add: unat_u32_of_size unat_plus_if' unat_of_nat snoc del: of_nat_add)
    have "unat (word_of_nat (length ps) :: u32) = length ps"
      using small length_frames_ge [of ps] by (simp add: unat_of_nat)
    with sum R(3) show ?thesis using zero mx
      by (subst find_w_loop.simps) (simp add: po un snoc del: of_nat_add)
  qed
  ultimately show ?thesis by (simp add: prev_offset_def)
qed

section \<open>Opening a segment\<close>

definition env_ok :: "os \<Rightarrow> string \<Rightarrow> u64 \<Rightarrow> u32 \<Rightarrow> bool" where
  "env_ok s dir base sz \<longleftrightarrow> outcomes s = [] \<and> 0 < page_size s \<and> dir \<noteq> [] \<and>
     length (data_path dir base) < 256 \<and>
     data_path dir base \<notin> set (dirs (ensured s dir)) \<and> index_path dir base \<notin> set (dirs (ensured s dir)) \<and>
     size_of_u32 sz mod page_size s = 0 \<and> 11 \<le> unat sz"

definition index_len :: "u32 \<Rightarrow> nat" where
  "index_len sz = (unat sz + 1) div 12"

text \<open>The pair of files of a closed segment, holding the frames \<open>ps\<close>; missing files hold none.\<close>

definition seg_stored :: "os \<Rightarrow> string \<Rightarrow> u64 \<Rightarrow> u32 \<Rightarrow> bytes list \<Rightarrow> bool" where
  "seg_stored s dir base sz ps \<longleftrightarrow>
     (case (opened_file s (unat sz) (files s (data_path dir base)),
            opened_file s (index_len sz) (files s (index_path dir base))) of
        (Some fd, Some fi) \<Rightarrow>
          fsize fd = unat sz \<and> unat sz \<le> length (fbytes fd) \<and>
          fsize fi = index_len sz \<and> index_len sz \<le> length (fbytes fi) \<and>
          length (frames ps) + 12 \<le> unat sz \<and>
          take (length (frames ps)) (fbytes fd) = frames ps \<and>
          8 * length ps + 8 \<le> index_len sz \<and>
          take (8 * length ps) (fbytes fi) = index_bytes ps \<and>
          drop (8 * length ps) (take (index_len sz) (fbytes fi)) = zeros (index_len sz - 8 * length ps) \<and>
          (ps = [] \<longrightarrow> word_of_nat (le_decode (slice (fbytes fd) 0 2)) \<notin> {HEADER_FLAGS_READY, HEADER_FLAGS_EOS})
      | _ \<Rightarrow> False)"

definition opened_segment :: "string \<Rightarrow> u64 \<Rightarrow> u32 \<Rightarrow> u32 \<Rightarrow> offset_pair \<Rightarrow> segment" where
  "opened_segment dir base sz flags w = \<lparr>sg_version = LATEST_SEGMENT_VERSION, sg_flags = flags,
     sg_index_fd = index_path dir base, sg_data_fd = data_path dir base, sg_size = sz,
     sg_base_offset = base, sg_buffer = data_path dir base, sg_index = index_path dir base,
     sg_s = w, sg_w = w\<rparr>"

lemma paths_differ [simp]: "data_path dir b \<noteq> index_path dir b" "index_path dir b \<noteq> data_path dir b"
  by (simp_all add: data_path_def index_path_def path_in_def)

lemma opened_file_cong: "page_size s = page_size s' \<Longrightarrow> opened_file s n f = opened_file s' n f"
  by (simp add: opened_file_def fresh_file_def truncate_file_def page_round_def split: option.splits)

lemma length_paths: "length (index_path dir b) = length (data_path dir b)"
  by (simp add: data_path_def index_path_def path_in_def)

lemma calculate_index_size_unat: "unat (calculate_index_size (size_of_u32 sz)) = index_len sz"
proof -
  have "unat (size_of_u32 sz + 1) = unat sz + 1"
    using unsigned_less [of sz, where ?'a = nat] by (simp add: unat_plus_if')
  then show ?thesis by (simp add: calculate_index_size_def index_len_def unat_div)
qed

lemma max_index_entries: "unat (calculate_index_size (size_of_u32 sz) div index_entry_size) = index_len sz div 8"
  by (simp add: unat_div calculate_index_size_unat index_entry_size_def)

text \<open>The state of the file system after both files have been opened and mapped.\<close>

definition mapped_state :: "os \<Rightarrow> string \<Rightarrow> u64 \<Rightarrow> mfile \<Rightarrow> mfile \<Rightarrow> os" where
  "mapped_state s dir base fd fi = (ensured s dir)\<lparr>files := (files s)
     (index_path dir base \<mapsto> map_file s fi, data_path dir base \<mapsto> map_file s fd)\<rparr>"

lemma segment_open_scan:
  assumes env: "env_ok s dir base sz"
    and fd: "opened_file s (unat sz) (files s (data_path dir base)) = Some fd"
    and fi: "opened_file s (index_len sz) (files s (index_path dir base)) = Some fi"
  shows "segment_open s dir base sz flags =
    (let s' = mapped_state s dir base fd fi in do {
       (rc, w) \<leftarrow> find_w_loop s' (data_path dir base) (index_path dir base) (index_len sz div 8) 0 0;
       case w of None \<Rightarrow> Some (s', rc, None)
       | Some w \<Rightarrow> Some (s', 0, Some (opened_segment dir base sz flags w)) })"
proof -
  let ?d = "data_path dir base" and ?x = "index_path dir base"
  define s1 where "s1 = (ensured s dir)\<lparr>files := (files s)(?x \<mapsto> fi)\<rparr>"
  define s2 where "s2 = (ensured s dir)\<lparr>files := (files s)(?x \<mapsto> map_file s fi)\<rparr>"
  define s3 where "s3 = s2\<lparr>files := (files s2)(?d \<mapsto> fd)\<rparr>"
  note e = env [unfolded env_ok_def]
  have nz: "calculate_index_size (size_of_u32 sz) \<noteq> 0" "size_of_u32 sz \<noteq> 0"
    using e calculate_index_size_unat [of sz] by (auto simp: index_len_def unat_0_iff [symmetric])
  have oi: "open_index s dir base (calculate_index_size (size_of_u32 sz)) = Some (s1, Inr ?x)"
    using open_in_dir_ok [of s dir "print_jd base @ ''.idx''" "calculate_index_size (size_of_u32 sz)" fi] e fi
      length_paths [of dir base]
    by (simp add: open_index_def index_filename_64 s1_def calculate_index_size_unat index_path_def [symmetric])
  have mi: "mmap_helper s1 (calculate_index_size (size_of_u32 sz)) ?x = (s2, 0, Some (MAPPED ?x))"
    using mmap_helper_ok [of s1 ?x fi] e nz by (simp add: s1_def s2_def map_file_def page_round_def)
  have en2: "ensured s2 dir = s2" by (simp add: s2_def ensured_def)
  have fd2: "opened_file s2 (unat (size_of_u32 sz)) (files s2 ?d) = Some fd"
    using fd opened_file_cong [of s2 s] by (simp add: s2_def)
  have od: "open_data s2 dir base (size_of_u32 sz) = Some (s3, Inr ?d)"
    using open_in_dir_ok [of s2 dir "print_jd base @ ''.log''" "size_of_u32 sz" fd] e fd2 en2
    by (simp add: open_data_def data_filename_64 data_path_def [symmetric] s3_def)
       (simp add: s2_def)
  have md: "mmap_helper s3 (size_of_u32 sz) ?d = (mapped_state s dir base fd fi, 0, Some (MAPPED ?d))"
    using mmap_helper_ok [of s3 ?d fd] e nz
    by (simp add: s3_def s2_def mapped_state_def map_file_def page_round_def)
  show ?thesis
    using e oi mi od md
    by (simp add: segment_open_def pagesize_def find_w_offset_pair_def max_index_entries
      opened_segment_def Let_def)
qed

text \<open>The two files as they are mapped.\<close>

lemma mapped_data:
  assumes "env_ok s dir base sz" "fsize fd = unat sz" "unat sz \<le> length (fbytes fd)"
  shows "fbytes (map_file s fd) = take (unat sz) (fbytes fd)"
proof -
  have "page_round s (unat sz) = unat sz"
  proof (rule page_round_exact)
    show "0 < page_size s" using assms(1) by (simp add: env_ok_def)
    have "unat (size_of_u32 sz mod page_size s) = 0" using assms(1) by (simp add: env_ok_def)
    then show "unat sz mod unat (page_size s) = 0" by (simp add: unat_mod)
  qed
  then show ?thesis using assms(2,3) by (simp add: map_file_def zeros_def)
qed

lemma mapped_index:
  assumes "env_ok s dir base sz" "fsize fi = index_len sz" "index_len sz \<le> length (fbytes fi)"
  shows "index_len sz \<le> page_round s (index_len sz)"
    "fbytes (map_file s fi) = take (index_len sz) (fbytes fi) @ zeros (page_round s (index_len sz) - index_len sz)"
  using assms by (auto intro: page_round_ge simp: env_ok_def map_file_def)

lemma mapped_zero_entry:
  assumes "env_ok s dir base sz" "fsize fi = index_len sz" "index_len sz \<le> length (fbytes fi)" and room: "8 * n + 8 \<le> index_len sz"
    and rest: "drop (8 * n) (take (index_len sz) (fbytes fi)) = zeros (index_len sz - 8 * n)"
    and f: "files s' x = Some (map_file s fi)"
  shows "ld_u64 s' x (8 * n) = Some 0"
proof -
  note M = mapped_index [OF assms(1-3)]
  have "min 8 (index_len sz - 8 * n) = 8" using room by linarith
  then have "slice (take (index_len sz) (fbytes fi)) (8 * n) 8 = zeros 8"
    by (simp only: slice_def rest take_zeros)
  then have "slice (fbytes (map_file s fi)) (8 * n) 8 = zeros 8"
    using room assms(3) by (simp add: M(2) slice_append_left)
  then show ?thesis using f room assms(3) M by (simp add: ld_u64_eq)
qed

lemma segment_open_recovers:
  assumes env: "env_ok s dir base sz" and st: "seg_stored s dir base sz ps"
  shows "\<exists>fd fi w.
     opened_file s (unat sz) (files s (data_path dir base)) = Some fd \<and>
     opened_file s (index_len sz) (files s (index_path dir base)) = Some fi \<and>
     segment_open s dir base sz flags =
       Some (mapped_state s dir base fd fi, 0, Some (opened_segment dir base sz flags w)) \<and>
     seg_rep (mapped_state s dir base fd fi) (opened_segment dir base sz flags w) ps"
proof -
  let ?d = "data_path dir base" and ?x = "index_path dir base"
  from st obtain fd fi where fd: "opened_file s (unat sz) (files s ?d) = Some fd"
    and fi: "opened_file s (index_len sz) (files s ?x) = Some fi"
    and sd: "fsize fd = unat sz" "unat sz \<le> length (fbytes fd)"
    and si: "fsize fi = index_len sz" "index_len sz \<le> length (fbytes fi)"
    and room: "length (frames ps) + 12 \<le> unat sz"
    and pre: "take (length (frames ps)) (fbytes fd) = frames ps"
    and iroom: "8 * length ps + 8 \<le> index_len sz"
    and ix: "take (8 * length ps) (fbytes fi) = index_bytes ps"
    and rest: "drop (8 * length ps) (take (index_len sz) (fbytes fi)) = zeros (index_len sz - 8 * length ps)"
    and empty: "ps = [] \<Longrightarrow> word_of_nat (le_decode (slice (fbytes fd) 0 2)) \<notin> {HEADER_FLAGS_READY, HEADER_FLAGS_EOS}"
    by (auto simp: seg_stored_def split: option.splits)
  define s' where "s' = mapped_state s dir base fd fi"
  have f': "files s' ?d = Some (map_file s fd)" "files s' ?x = Some (map_file s fi)"
    by (simp_all add: s'_def mapped_state_def)
  note bd = mapped_data [OF env sd] and bi = mapped_index [OF env si]
  have lay: "seg_layout s' (opened_segment dir base sz flags w) ps" if "unat (op_index w) = length ps" for w
    using that f' sd si room pre iroom ix bi(1)
    by (simp add: seg_layout_def opened_segment_def bd bi(2) min_def)
  have zero': "ld_u64 s' ?x (8 * length ps) = Some 0" by (rule mapped_zero_entry [OF env si iroom rest f'(2)])
  have empty': "ps = [] \<Longrightarrow> prot_is_header s' ?d 0 = Some 0"
    using empty f' room sd by (simp add: prot_is_header_def ld_u16_eq bd slice_def min_def)
  define w0 :: offset_pair where "w0 = \<lparr>op_index = word_of_nat (length ps), op_data = 0\<rparr>"
  have "unat (op_index w0) = length ps"
    using length_frames_ge [of ps] room unsigned_less [of sz, where ?'a = nat] by (simp add: w0_def unat_of_nat)
  moreover have "length ps < index_len sz div 8" using iroom by linarith
  ultimately obtain w where
    "find_w_loop s' ?d ?x (index_len sz div 8) 0 0 = Some (0, Some w)"
    "unat (op_index w) = length ps" "unat (op_data w) = length (frames ps)"
    using find_w_found [OF lay, of w0 "index_len sz div 8"] zero' empty'
    by (auto simp: opened_segment_def)
  then show ?thesis
    using segment_open_scan [OF env fd fi, of flags] lay [of w] fd fi
    by (intro exI [of _ fd] exI [of _ fi] exI [of _ w]) (simp add: s'_def seg_rep_def opened_segment_def)
qed

text \<open>Missing files hold an empty segment.\<close>

lemma seg_stored_fresh:
  assumes env: "env_ok s dir base sz" and ix: "8 \<le> index_len sz"
    and none: "files s (data_path dir base) = None" "files s (index_path dir base) = None"
  shows "seg_stored s dir base sz []"
proof -
  have "unat sz \<le> page_round s (unat sz)" "index_len sz \<le> page_round s (index_len sz)"
    using env by (auto simp: env_ok_def intro: page_round_ge)
  moreover have "12 \<le> unat sz" using ix by (simp add: index_len_def)
  ultimately show ?thesis using ix none
    by (simp add: seg_stored_def opened_file_def fresh_file_def index_bytes_def slice_def
      HEADER_FLAGS_READY_def HEADER_FLAGS_EOS_def)
qed

text \<open>An index without a free entry: the scan finds no write position.\<close>

lemma segment_open_index_full:
  assumes env: "env_ok s dir base sz"
    and fd: "files s (data_path dir base) = Some fd" "fsize fd = unat sz" "unat sz \<le> length (fbytes fd)"
    and fi: "files s (index_path dir base) = Some fi" "fsize fi = index_len sz" "index_len sz \<le> length (fbytes fi)"
    and pre: "take (length (frames ps)) (fbytes fd) = frames ps" "length (frames ps) + 12 \<le> unat sz" "ps \<noteq> []"
    and ix: "take (index_len sz div 8 * 8) (fbytes fi) = take (index_len sz div 8 * 8) (index_bytes ps)"
    and full: "index_len sz div 8 \<le> length ps"
  shows "\<exists>s'. segment_open s dir base sz flags = Some (s', ELWOFFS, None)"
proof -
  let ?d = "data_path dir base" and ?x = "index_path dir base" and ?m = "index_len sz div 8"
  define s' where "s' = mapped_state s dir base fd fi"
  have pos: "0 < unat sz" "0 < index_len sz" using env by (auto simp: env_ok_def index_len_def)
  have op: "opened_file s (unat sz) (files s ?d) = Some fd" "opened_file s (index_len sz) (files s ?x) = Some fi"
    using fd fi pos by (simp_all add: opened_file_def)
  have small: "length (frames ps) < 2 ^ 32"
    using pre unsigned_less [of sz, where ?'a = nat] by simp
  have ld: "ld_u64 s' ?x (8 * j) = Some (word_of_nat (foffset ps j))" if j: "j < ?m" for j
  proof -
    have jl: "8 * j + 8 \<le> ?m * 8" using j by simp
    also have "\<dots> \<le> index_len sz" by simp
    finally have jx: "8 * j + 8 \<le> index_len sz" .
    have "slice (fbytes fi) (8 * j) 8 = slice (take (?m * 8) (index_bytes ps)) (8 * j) 8"
      by (rule slice_prefix [OF ix jl])
    also have "\<dots> = le_encode 8 (foffset ps j)"
      using jl j full by (simp add: slice_take slice_index_bytes)
    finally have "slice (fbytes (map_file s fi)) (8 * j) 8 = le_encode 8 (foffset ps j)"
      using fi jx by (simp add: map_file_def slice_append_left slice_take)
    moreover have "foffset ps j < 2 ^ 64"
      using foffset_bound [of j ps] j full small by simp
    ultimately show ?thesis
      using fi jx by (simp add: s'_def mapped_state_def map_file_def ld_u64_eq codec_simps)
  qed
  obtain q qs where ps: "ps = q # qs" using pre(3) by (cases ps) auto
  have "slice (fbytes fd) 0 12 = header_bytes (frame_header q)"
    using arg_cong [OF pre(1), of "take 12"] pre(2)
    by (simp add: ps slice_def frame_bytes_def min_def)
  then have "slice (fbytes (map_file s fd)) 0 12 = header_bytes (frame_header q)"
    using fd pre(2) by (simp add: map_file_def slice_append_left slice_take)
  then have "ld_u16 s' ?d 0 = Some HEADER_FLAGS_READY"
    using header_slice [of "map_file s fd" 0 "frame_header q" s' ?d] fd pre(2)
    by (simp add: s'_def mapped_state_def map_file_def frame_header_def)
  then have "prot_is_header s' ?d 0 = Some 1" by (simp add: prot_is_header_def)
  then have "find_w_loop s' ?d ?x ?m 0 0 = Some (ELWOFFS, None)"
    using find_w_full [OF ld full] small by simp
  then show ?thesis
    using segment_open_scan [OF env op, of flags] by (simp add: s'_def [symmetric] Let_def)
qed

end
