(* ===== verification/Segment_Sync.thy ===== *)
theory Segment_Sync
  imports Segment_Recovery
begin

text \<open>
  Durability: which bytes \<open>segment_sync\<close> brings to stable storage, what a power failure may
  leave of the files, and that a segment reopened after it holds the synchronised frames.
  \<open>seg_ok\<close> is the invariant of an open segment that every operation keeps.
\<close>

section \<open>Ranges handed to msync\<close>

text \<open>The effect of any number of \<open>msync\<close> calls: memory is unchanged, and each byte on disk is
  the old one or the one in memory.\<close>

definition flushed :: "mfile \<Rightarrow> mfile \<Rightarrow> bool" where
  "flushed f g \<longleftrightarrow> fsize g = fsize f \<and> fbytes g = fbytes f \<and>
     (length (fdisk f) = fsize f \<longrightarrow> length (fdisk g) = fsize f) \<and>
     (\<forall>i < fsize f. fdisk g ! i = fdisk f ! i \<or> fdisk g ! i = fbytes f ! i)"

definition same_bytes :: "os \<Rightarrow> os \<Rightarrow> bool" where
  "same_bytes s s' \<longleftrightarrow> (\<forall>q. rel_option flushed (files s q) (files s' q)) \<and>
     page_size s' = page_size s \<and> dirs s' = dirs s \<and> map_base s' = map_base s"

lemma flushed_refl [simp]: "flushed f f"
  by (simp add: flushed_def)

lemma flushed_sync [simp]: "flushed f (sync_file off n f)"
  by (simp add: flushed_def sync_file_def)

lemma rel_flushed_refl [simp]: "rel_option flushed x x"
  by (cases x) simp_all

text \<open>Where the mappings of a segment lie: on page boundaries, below the end of the address space.\<close>

definition mapping_ok :: "os \<Rightarrow> nat \<Rightarrow> string \<Rightarrow> bool" where
  "mapping_ok s k p \<longleftrightarrow> k < 64 \<and> page_size s = 2 ^ k \<and> unat (map_base s p) mod 2 ^ k = 0 \<and>
     unat (map_base s p) + 2 ^ 36 < 2 ^ 64"

lemma page_aligned_split:
  fixes a :: u64
  assumes "k < 64" "page_size s = 2 ^ k"
  shows "unat (a - page_aligned_addr s a) = unat a mod 2 ^ k"
    and "unat (page_aligned_addr s a) = unat a - unat a mod 2 ^ k"
proof -
  have m: "pagesize s - 1 = mask k" using assms by (simp add: pagesize_def mask_eq_exp_minus_1)
  have sum: "a = (a AND NOT (mask k)) + (a AND mask k)"
    by (subst disjunctive_add_eq_or) (auto intro!: bit_eqI simp: bit_simps)
  have al: "page_aligned_addr s a = a AND NOT (mask k)" by (simp add: page_aligned_addr_def m)
  then have d: "a - page_aligned_addr s a = take_bit k a"
    using sum by (simp add: take_bit_eq_mask [symmetric] eq_diff_eq [symmetric] diff_eq_eq add.commute)
  show 1: "unat (a - page_aligned_addr s a) = unat a mod 2 ^ k"
    by (simp only: d unsigned_take_bit_eq) (simp add: take_bit_eq_mod)
  have "page_aligned_addr s a = a - take_bit k a" using d by (simp add: algebra_simps)
  moreover have t: "unat (take_bit k a) = unat a mod 2 ^ k"
    by (simp only: unsigned_take_bit_eq) (simp add: take_bit_eq_mod)
  then have "take_bit k a \<le> a" by (simp only: word_le_nat_alt) simp
  ultimately show "unat (page_aligned_addr s a) = unat a - unat a mod 2 ^ k"
    by (simp only: unat_sub t)
qed

lemma sync_range:
  fixes b :: u64
  assumes ok: "mapping_ok s k p" and lt: "lo \<le> hi" "hi < 2 ^ 36" and b: "b = map_base s p"
    and l: "unat lo' = lo" and h: "unat n = hi - lo"
  defines "a \<equiv> page_aligned_addr s (b + lo')"
  defines "d \<equiv> (b + lo') - a"
  shows "unat (a - b) = lo - lo mod 2 ^ k" "unat (n + d) = hi - (lo - lo mod 2 ^ k)" "unat a mod unat (page_size s) = 0"
proof -
  have small: "unat b + lo < 2 ^ 64" using ok lt b by (simp add: mapping_ok_def)
  have ab: "unat (b + lo') = unat b + lo" using small l by (simp add: unat_plus_if')
  have md: "(unat b + lo) mod 2 ^ k = lo mod 2 ^ k"
    using mod_add_left_eq [of "unat b" "2 ^ k" lo] ok b by (simp add: mapping_ok_def)
  have le: "lo mod 2 ^ k \<le> lo" by simp
  have ua: "unat a = unat b + (lo - lo mod 2 ^ k)" and ud: "unat d = lo mod 2 ^ k"
    using page_aligned_split [of k s "b + lo'"] ok ab md
    unfolding a_def d_def by (simp_all add: mapping_ok_def)
  have "b \<le> a" using ua by (simp only: word_le_nat_alt)
  then show "unat (a - b) = lo - lo mod 2 ^ k" using ua by (simp only: unat_sub)
  have "hi - lo + lo mod 2 ^ k \<le> hi" using lt(1) le by linarith
  also have "\<dots> < 2 ^ 64" using lt(2) by simp
  finally have "hi - lo + lo mod 2 ^ k < 2 ^ 64" .
  then have "unat (n + d) = hi - lo + lo mod 2 ^ k" using ud h by (simp add: unat_plus_if')
  then show "unat (n + d) = hi - (lo - lo mod 2 ^ k)" using lt le by simp
  have "(2 :: nat) ^ k < 2 ^ 64" using ok by (intro power_strict_increasing) (simp_all add: mapping_ok_def)
  then have "unat (page_size s) = 2 ^ k" using ok unat_of_nat [of "2 ^ k", where ?'a = 64] by (simp add: mapping_ok_def)
  moreover have "unat a = unat (b + lo') - unat (b + lo') mod 2 ^ k"
    using page_aligned_split(2) [of k s "b + lo'"] ok by (simp add: a_def mapping_ok_def)
  ultimately show "unat a mod unat (page_size s) = 0" by (simp add: minus_mod_eq_mult_div)
qed

text \<open>The durable part of a file: a prefix that is the same on disk and in memory.\<close>

definition on_disk :: "nat \<Rightarrow> mfile \<Rightarrow> bool" where
  "on_disk n f \<longleftrightarrow> (\<forall>i < min n (fsize f). fdisk f ! i = fbytes f ! i)"

definition synced :: "os \<Rightarrow> segment \<Rightarrow> bool" where
  "synced s sgm \<longleftrightarrow>
     op_data (sg_s sgm) \<le> op_data (sg_w sgm) \<and> op_index (sg_s sgm) \<le> op_index (sg_w sgm) \<and>
     (case (files s (sg_buffer sgm), files s (sg_index sgm)) of
        (Some fd, Some fi) \<Rightarrow>
          on_disk (unat (op_data (sg_s sgm))) fd \<and> on_disk (8 * unat (op_index (sg_s sgm))) fi
      | _ \<Rightarrow> False)"

text \<open>The written position lies inside of the mappings.\<close>

definition in_mapping :: "os \<Rightarrow> segment \<Rightarrow> bool" where
  "in_mapping s sgm \<longleftrightarrow> unat (op_data (sg_w sgm)) \<le> length (bytes_of s (sg_buffer sgm)) \<and>
     8 * unat (op_index (sg_w sgm)) \<le> length (bytes_of s (sg_index sgm))"

lemma rep_in_mapping: "seg_rep s sgm ps \<or> seg_eos s sgm ps \<Longrightarrow> in_mapping s sgm"
  by (auto simp: seg_rep_def seg_eos_def in_mapping_def bytes_of_def elim!: seg_layoutE)

text \<open>The synchronised position is not behind the written one, and the files are there.\<close>

definition sync_le :: "os \<Rightarrow> segment \<Rightarrow> bool" where
  "sync_le s sgm \<longleftrightarrow> op_data (sg_s sgm) \<le> op_data (sg_w sgm) \<and> op_index (sg_s sgm) \<le> op_index (sg_w sgm) \<and>
     files s (sg_buffer sgm) \<noteq> None \<and> files s (sg_index sgm) \<noteq> None"

lemma synced_le: "synced s sgm \<Longrightarrow> sync_le s sgm"
  by (auto simp: synced_def sync_le_def split: option.splits)

lemma sync_file_frame [simp]:
  "fbytes (sync_file off n f) = fbytes f" "fsize (sync_file off n f) = fsize f"
  by (simp_all add: sync_file_def)

lemma on_disk_sync:
  "on_disk lo f \<Longrightarrow> off \<le> lo \<Longrightarrow> off + n = hi \<Longrightarrow> on_disk hi (sync_file off n f)"
  by (auto simp: on_disk_def sync_file_def)

lemma sync_data_ok:
  assumes "outcomes s = []" "files s (sg_buffer sgm) = Some fd" "mapping_ok s k (sg_buffer sgm)"
    "op_data (sg_s sgm) \<le> op_data (sg_w sgm)" "unat (op_data (sg_w sgm)) \<le> length (fbytes fd)"
  shows "\<exists>off n. off = unat (op_data (sg_s sgm)) - unat (op_data (sg_s sgm)) mod 2 ^ k \<and>
    off \<le> unat (op_data (sg_s sgm)) \<and> off + unat n = unat (op_data (sg_w sgm)) \<and>
    sync_data s sgm = (s\<lparr>files := (files s)(sg_buffer sgm \<mapsto> sync_file off (unat n) fd)\<rparr>,
      sgm\<lparr>sg_s := (sg_s sgm)\<lparr>op_data := op_data (sg_w sgm)\<rparr>\<rparr>, int_of_size n)"
proof -
  let ?lo = "unat (op_data (sg_s sgm))" and ?hi = "unat (op_data (sg_w sgm))"
  let ?b = "map_base s (sg_buffer sgm)"
  define n where "n = size_of_u32 (op_data (sg_w sgm)) - size_of_u32 (op_data (sg_s sgm))"
  define a where "a = page_aligned_addr s (?b + size_of_u32 (op_data (sg_s sgm)))"
  define m where "m = n + (?b + size_of_u32 (op_data (sg_s sgm)) - a)"
  have le: "?lo \<le> ?hi" using assms(4) by (simp add: word_le_nat_alt)
  have hi: "?hi < 2 ^ 36" using unsigned_less [of "op_data (sg_w sgm)", where ?'a = nat] by simp
  have "unat n = ?hi - ?lo" using le by (simp add: n_def unat_sub word_le_nat_alt)
  note R = sync_range [OF assms(3) le hi refl unat_size_of_u32 this, folded a_def, folded m_def]
  have r: "unat (a - ?b) \<le> ?lo" "unat (a - ?b) + unat m = ?hi" using R(1,2) le by simp_all
  have "sync_data s sgm = (s\<lparr>files := (files s)(sg_buffer sgm \<mapsto> sync_file (unat (a - ?b)) (unat m) fd)\<rparr>,
      sgm\<lparr>sg_s := (sg_s sgm)\<lparr>op_data := op_data (sg_w sgm)\<rparr>\<rparr>, int_of_size m)"
    using assms r(2) R(3) by (simp add: sync_data_def sys_msync_def Let_def a_def [symmetric] n_def [symmetric] m_def [symmetric])
  then show ?thesis using r R(1) by (intro exI [of _ "unat (a - ?b)"] exI [of _ m]) simp
qed

lemma sync_index_ok:
  assumes "outcomes s = []" "files s (sg_index sgm) = Some fi" "mapping_ok s k (sg_index sgm)"
    "op_index (sg_s sgm) \<le> op_index (sg_w sgm)" "8 * unat (op_index (sg_w sgm)) \<le> length (fbytes fi)"
  shows "\<exists>off n. off \<le> 8 * unat (op_index (sg_s sgm)) \<and> off + n = 8 * unat (op_index (sg_w sgm)) \<and>
    sync_index s sgm = (s\<lparr>files := (files s)(sg_index sgm \<mapsto> sync_file off n fi)\<rparr>,
      sgm\<lparr>sg_s := (sg_s sgm)\<lparr>op_index := op_index (sg_w sgm)\<rparr>\<rparr>,
      int_of_size (size_of_u32 (op_index (sg_w sgm)) - size_of_u32 (op_index (sg_s sgm))))"
proof -
  let ?lo = "8 * unat (op_index (sg_s sgm))" and ?hi = "8 * unat (op_index (sg_w sgm))"
  let ?b = "map_base s (sg_index sgm)" and ?l = "8 * size_of_u32 (op_index (sg_s sgm))"
  define n where "n = index_entry_size * (size_of_u32 (op_index (sg_w sgm)) - size_of_u32 (op_index (sg_s sgm)))"
  define a where "a = page_aligned_addr s (?b + ?l)"
  define m where "m = n + (?b + ?l - a)"
  have le: "?lo \<le> ?hi" using assms(4) by (simp add: word_le_nat_alt)
  have hi: "?hi < 2 ^ 36" using unsigned_less [of "op_index (sg_w sgm)", where ?'a = nat] by simp
  have ul: "unat ?l = ?lo" using hi le by (simp add: unat_word_ariths)
  have "unat (size_of_u32 (op_index (sg_w sgm)) - size_of_u32 (op_index (sg_s sgm))) =
        unat (op_index (sg_w sgm)) - unat (op_index (sg_s sgm))"
    using assms(4) by (simp add: unat_sub word_le_nat_alt)
  then have "unat n = 8 * (unat (op_index (sg_w sgm)) - unat (op_index (sg_s sgm))) mod 2 ^ 64"
    by (simp only: n_def index_entry_size_def unat_word_ariths) simp
  then have "unat n = ?hi - ?lo" using hi by (simp add: diff_mult_distrib2)
  note R = sync_range [OF assms(3) le hi refl ul this, folded a_def, folded m_def]
  have r: "unat (a - ?b) \<le> ?lo" "unat (a - ?b) + unat m = ?hi" using R(1,2) le by simp_all
  have "sync_index s sgm = (s\<lparr>files := (files s)(sg_index sgm \<mapsto> sync_file (unat (a - ?b)) (unat m) fi)\<rparr>,
      sgm\<lparr>sg_s := (sg_s sgm)\<lparr>op_index := op_index (sg_w sgm)\<rparr>\<rparr>,
      int_of_size (size_of_u32 (op_index (sg_w sgm)) - size_of_u32 (op_index (sg_s sgm))))"
    using assms r(2) R(3) by (simp add: sync_index_def sys_msync_def Let_def a_def [symmetric] n_def [symmetric] m_def [symmetric])
  with r show ?thesis by blast
qed

lemma same_bytesD:
  "same_bytes s s' \<Longrightarrow> files s q = Some f \<Longrightarrow> \<exists>g. files s' q = Some g \<and> flushed f g"
  unfolding same_bytes_def by (metis option_rel_Some1)

lemma same_bytes_layout:
  assumes same: "same_bytes s s'" and lay: "seg_layout s sgm ps"
    and keep: "sg_buffer sgm' = sg_buffer sgm" "sg_index sgm' = sg_index sgm"
      "sg_size sgm' = sg_size sgm" "sg_w sgm' = sg_w sgm"
  shows "seg_layout s' sgm' ps"
  using lay
proof (rule seg_layoutE)
  fix fd fi assume f: "files s (sg_buffer sgm) = Some fd" "files s (sg_index sgm) = Some fi"
    and rest: "sg_buffer sgm \<noteq> sg_index sgm" "length (fbytes fd) = unat (sg_size sgm)"
    "take (length (frames ps)) (fbytes fd) = frames ps"
    "length (frames ps) + 12 \<le> length (fbytes fd)"
    "unat (op_index (sg_w sgm)) = length ps"
    "8 * length ps \<le> length (fbytes fi)" "take (8 * length ps) (fbytes fi) = index_bytes ps"
  from same_bytesD [OF same f(1)] same_bytesD [OF same f(2)] obtain fd' fi' where
    "files s' (sg_buffer sgm) = Some fd'" "fbytes fd' = fbytes fd"
    "files s' (sg_index sgm) = Some fi'" "fbytes fi' = fbytes fi" by (auto simp: flushed_def)
  with rest show ?thesis by (simp add: seg_layout_def keep)
qed

lemma segment_sync_run:
  assumes ok: "outcomes s = []" and sy: "sync_le s sgm" and im: "in_mapping s sgm" and ne: "sg_buffer sgm \<noteq> sg_index sgm"
    and mp: "mapping_ok s k (sg_buffer sgm)" "mapping_ok s k (sg_index sgm)"
    and run: "segment_sync s sgm = (s', sgm', rc)"
  shows "same_bytes s s' \<and> outcomes s' = [] \<and> sync_le s' sgm' \<and> (synced s sgm \<longrightarrow> synced s' sgm') \<and>
    sgm' = sgm\<lparr>sg_s := sg_s sgm'\<rparr> \<and> op_data (sg_s sgm') = op_data (sg_w sgm) \<and>
    (0 < rc \<longrightarrow> op_index (sg_s sgm') = op_index (sg_w sgm))"
proof -
  from sy obtain fd fi where f: "files s (sg_buffer sgm) = Some fd" "files s (sg_index sgm) = Some fi"
    and le: "op_data (sg_s sgm) \<le> op_data (sg_w sgm)" "op_index (sg_s sgm) \<le> op_index (sg_w sgm)"
    by (auto simp: sync_le_def)
  have bd: "unat (op_data (sg_w sgm)) \<le> length (fbytes fd)" "8 * unat (op_index (sg_w sgm)) \<le> length (fbytes fi)"
    using im f by (simp_all add: in_mapping_def bytes_of_def)
  have od: "on_disk (unat (op_data (sg_s sgm))) fd" "on_disk (8 * unat (op_index (sg_s sgm))) fi" if "synced s sgm"
    using that f by (simp_all add: synced_def)
  obtain off n where o1: "off \<le> unat (op_data (sg_s sgm))" "off + unat n = unat (op_data (sg_w sgm))"
    and d: "sync_data s sgm = (s\<lparr>files := (files s)(sg_buffer sgm \<mapsto> sync_file off (unat n) fd)\<rparr>,
      sgm\<lparr>sg_s := (sg_s sgm)\<lparr>op_data := op_data (sg_w sgm)\<rparr>\<rparr>, int_of_size n)"
    using sync_data_ok [OF ok f(1) mp(1) le(1) bd(1)] by blast
  define s1 where "s1 = s\<lparr>files := (files s)(sg_buffer sgm \<mapsto> sync_file off (unat n) fd)\<rparr>"
  define g1 where "g1 = sgm\<lparr>sg_s := (sg_s sgm)\<lparr>op_data := op_data (sg_w sgm)\<rparr>\<rparr>"
  note d = d [folded s1_def g1_def]
  have f1: "files s1 (sg_buffer g1) = Some (sync_file off (unat n) fd)" "files s1 (sg_index g1) = Some fi"
    using f ne by (simp_all add: s1_def g1_def)
  have od1: "on_disk (unat (op_data (sg_w sgm))) (sync_file off (unat n) fd)" if "synced s sgm"
    by (rule on_disk_sync [OF od(1) [OF that] o1])
  have same1: "same_bytes s s1" using f by (simp add: same_bytes_def s1_def)
  have sy1: "sync_le s1 g1" "synced s sgm \<longrightarrow> synced s1 g1"
    using f1 od od1 le by (simp_all add: sync_le_def synced_def g1_def)
  show ?thesis
  proof (cases "int_of_size n \<le> 0")
    case True
    then have "s' = s1" "sgm' = g1" "rc \<le> 0" using run d by (simp_all add: segment_sync_def)
    then show ?thesis using same1 sy1 ok by (simp add: s1_def g1_def)
  next
    case False
    have mp1: "mapping_ok s1 k (sg_index g1)" using mp by (simp add: mapping_ok_def s1_def g1_def)
    obtain off2 n2 where o2: "off2 \<le> 8 * unat (op_index (sg_s g1))" "off2 + n2 = 8 * unat (op_index (sg_w g1))"
      and i: "sync_index s1 g1 = (s1\<lparr>files := (files s1)(sg_index g1 \<mapsto> sync_file off2 n2 fi)\<rparr>,
        g1\<lparr>sg_s := (sg_s g1)\<lparr>op_index := op_index (sg_w g1)\<rparr>\<rparr>,
        int_of_size (size_of_u32 (op_index (sg_w g1)) - size_of_u32 (op_index (sg_s g1))))"
      using sync_index_ok [of s1 g1 fi k] ok f1 mp1 le bd(2) by (auto simp: s1_def g1_def)
    have run': "s' = s1\<lparr>files := (files s1)(sg_index g1 \<mapsto> sync_file off2 n2 fi)\<rparr>"
      "sgm' = g1\<lparr>sg_s := (sg_s g1)\<lparr>op_index := op_index (sg_w g1)\<rparr>\<rparr>"
      using run d False i by (simp_all add: segment_sync_def)
    have "on_disk (8 * unat (op_index (sg_w g1))) (sync_file off2 n2 fi)" if "synced s sgm"
      using od(2) [OF that] by (intro on_disk_sync [OF _ o2]) (simp add: g1_def)
    then show ?thesis
      using run' f1 f od1 ok ne le by (simp add: same_bytes_def synced_def sync_le_def s1_def g1_def)
  qed
qed

section \<open>Power failures\<close>

text \<open>A segment opened by \<open>segment_open\<close> on the files of \<open>dir\<close>: their lengths, and an
  index that is zero behind the last entry, in memory and on disk.\<close>

definition seg_backed :: "os \<Rightarrow> string \<Rightarrow> segment \<Rightarrow> bytes list \<Rightarrow> bool" where
  "seg_backed s dir sgm ps \<longleftrightarrow>
     sg_buffer sgm = data_path dir (sg_base_offset sgm) \<and> sg_index sgm = index_path dir (sg_base_offset sgm) \<and>
     (case (files s (sg_buffer sgm), files s (sg_index sgm)) of
        (Some fd, Some fi) \<Rightarrow>
          fsize fd = unat (sg_size sgm) \<and> fsize fi = index_len (sg_size sgm) \<and>
          length (fbytes fi) = page_round s (index_len (sg_size sgm)) \<and> fsize fi \<le> length (fbytes fi) \<and>
          length (fdisk fd) = fsize fd \<and> length (fdisk fi) = fsize fi \<and>
          (\<forall>i. 8 * length ps \<le> i \<and> i < length (fbytes fi) \<longrightarrow> fbytes fi ! i = 0) \<and>
          (\<forall>i. 8 * length ps \<le> i \<and> i < fsize fi \<longrightarrow> fdisk fi ! i = 0) \<and>
          (ps = [] \<longrightarrow> slice (fbytes fd) 0 2 = zeros 2 \<and> slice (fdisk fd) 0 2 = zeros 2)
      | _ \<Rightarrow> False)"

text \<open>A power failure. Each byte of a file that is still there is what was on disk or what was in memory. A
  directory or the entry of a file may be missing, and a file may be empty, as nothing in the code synchronises a
  directory; whether the entry and the length of a file have been kept is \<open>entry_kept\<close>.\<close>

definition crash_file :: "os \<Rightarrow> mfile \<Rightarrow> mfile \<Rightarrow> bool" where
  "crash_file s f g \<longleftrightarrow> fsize g = fsize f \<and> length (fbytes g) = page_round s (fsize f) \<and>
     fdisk g = take (fsize f) (fbytes g) \<and>
     (\<forall>i < fsize f. fbytes g ! i = fdisk f ! i \<or> fbytes g ! i = fbytes f ! i)"

definition empty_file :: mfile where
  "empty_file = \<lparr>fsize = 0, fbytes = [], fdisk = []\<rparr>"

definition crash :: "os \<Rightarrow> os \<Rightarrow> bool" where
  "crash s s' \<longleftrightarrow> page_size s' = page_size s \<and> set (dirs s') \<subseteq> set (dirs s) \<and>
     (\<forall>q g. files s' q = Some g \<longrightarrow> (\<exists>f. files s q = Some f \<and> (g = empty_file \<or> crash_file s f g)))"

definition entry_kept :: "os \<Rightarrow> os \<Rightarrow> string \<Rightarrow> bool" where
  "entry_kept s s' q \<longleftrightarrow> map_option fsize (files s' q) = map_option fsize (files s q)"

lemma seg_backedE:
  assumes "seg_backed s dir sgm ps"
  obtains fd fi where "files s (data_path dir (sg_base_offset sgm)) = Some fd"
    "files s (index_path dir (sg_base_offset sgm)) = Some fi"
    "sg_buffer sgm = data_path dir (sg_base_offset sgm)" "sg_index sgm = index_path dir (sg_base_offset sgm)"
    "fsize fd = unat (sg_size sgm)" "fsize fi = index_len (sg_size sgm)"
    "length (fbytes fi) = page_round s (index_len (sg_size sgm))" "fsize fi \<le> length (fbytes fi)"
    "\<forall>i. 8 * length ps \<le> i \<and> i < length (fbytes fi) \<longrightarrow> fbytes fi ! i = 0"
    "\<forall>i. 8 * length ps \<le> i \<and> i < fsize fi \<longrightarrow> fdisk fi ! i = 0"
    "ps = [] \<longrightarrow> slice (fbytes fd) 0 2 = zeros 2 \<and> slice (fdisk fd) 0 2 = zeros 2"
    "length (fdisk fd) = fsize fd" "length (fdisk fi) = fsize fi"
  using assms by (auto simp: seg_backed_def split: option.splits)

lemma crash_empty_file: "fsize f = 0 \<Longrightarrow> crash_file s f empty_file"
  by (cases "unat (page_size s)") (simp_all add: crash_file_def empty_file_def page_round_def)

lemma crash_fileD:
  assumes "crash s s'" "entry_kept s s' q" "files s q = Some f"
  shows "\<exists>g. files s' q = Some g \<and> crash_file s f g"
proof -
  from assms(2,3) obtain g where g: "files s' q = Some g" "fsize g = fsize f" by (auto simp: entry_kept_def)
  with assms(1,3) have "g = empty_file \<or> crash_file s f g" by (fastforce simp: crash_def)
  then show ?thesis using g crash_empty_file [of f s] by (auto simp: empty_file_def)
qed

lemma crash_none: "crash s s' \<Longrightarrow> files s q = None \<Longrightarrow> files s' q = None"
  unfolding crash_def by (metis not_None_eq option.distinct(1))

lemma crashE:
  assumes "crash s s'" "entry_kept s s' q" "files s q = Some f"
  obtains g where "files s' q = Some g" "fsize g = fsize f" "length (fbytes g) = page_round s (fsize f)"
    "\<And>i. i < fsize f \<Longrightarrow> fbytes g ! i = fdisk f ! i \<or> fbytes g ! i = fbytes f ! i"
  using crash_fileD [OF assms] that by (auto simp: crash_file_def)

lemma slice_zeros_iff: "n \<le> length bs \<Longrightarrow> slice bs 0 n = zeros n \<longleftrightarrow> (\<forall>i < n. bs ! i = 0)"
  by (auto simp: slice_def list_eq_iff_nth_eq)

lemma slice_zerosD: "slice bs 0 n = zeros n \<Longrightarrow> n \<le> length bs \<and> (\<forall>i < n. bs ! i = 0)"
  by (metis length_slice length_take length_zeros min.absorb_iff2 min.commute slice_def slice_zeros_iff drop0 linorder_not_less min_def)

lemma crash_prefix:
  assumes "\<And>i. i < fsize f \<Longrightarrow> fbytes g ! i = fdisk f ! i \<or> fbytes g ! i = fbytes f ! i"
    and "on_disk n f" "n \<le> fsize f" "n \<le> length (fbytes g)" "n \<le> length (fbytes f)"
  shows "take n (fbytes g) = take n (fbytes f)"
proof (rule nth_equalityI)
  fix i assume "i < length (take n (fbytes g))"
  then have "i < n" by simp
  then show "take n (fbytes g) ! i = take n (fbytes f) ! i"
    using assms(1) [of i] assms(2-5) by (auto simp: on_disk_def)
qed (use assms in simp)

lemma recovered_stored:
  assumes rep: "seg_layout s sgm ps" and bk: "seg_backed s dir sgm ps"
    and room: "8 * length ps + 8 \<le> index_len (sg_size sgm)"
    and gd: "files s' (data_path dir (sg_base_offset sgm)) = Some gd" "fsize gd = unat (sg_size sgm)"
      "unat (sg_size sgm) \<le> length (fbytes gd)" "take (length (frames ps)) (fbytes gd) = frames ps"
    and gi: "files s' (index_path dir (sg_base_offset sgm)) = Some gi" "fsize gi = index_len (sg_size sgm)"
      "index_len (sg_size sgm) \<le> length (fbytes gi)" "take (8 * length ps) (fbytes gi) = index_bytes ps"
    and zero: "\<And>i. 8 * length ps \<le> i \<Longrightarrow> i < index_len (sg_size sgm) \<Longrightarrow> fbytes gi ! i = 0"
    and empty: "ps = [] \<Longrightarrow> slice (fbytes gd) 0 2 = zeros 2"
  shows "seg_stored s' dir (sg_base_offset sgm) (sg_size sgm) ps"
proof -
  from rep bk have fr: "length (frames ps) + 12 \<le> unat (sg_size sgm)"
    by (auto elim!: seg_layoutE)
  have z: "drop (8 * length ps) (take (index_len (sg_size sgm)) (fbytes gi)) =
        zeros (index_len (sg_size sgm) - 8 * length ps)"
    using gi zero by (intro nth_equalityI) auto
  have "opened_file s' (unat (sg_size sgm)) (Some gd) = Some gd"
    "opened_file s' (index_len (sg_size sgm)) (Some gi) = Some gi"
    using gd gi fr room by (simp_all add: opened_file_def)
  then show ?thesis
    using gd gi fr room z empty
    by (simp add: seg_stored_def HEADER_FLAGS_READY_def HEADER_FLAGS_EOS_def)
qed

lemma crash_empty:
  assumes cr: "crash s s'" "entry_kept s s' (data_path dir (sg_base_offset sgm))" and bk: "seg_backed s dir sgm ps" and pg: "0 < page_size s" and ps: "ps = []"
  shows "\<forall>gd. files s' (data_path dir (sg_base_offset sgm)) = Some gd \<longrightarrow> slice (fbytes gd) 0 2 = zeros 2"
proof (intro allI impI)
  fix gd assume gd: "files s' (data_path dir (sg_base_offset sgm)) = Some gd"
  from bk obtain fd where f: "files s (data_path dir (sg_base_offset sgm)) = Some fd"
    and e: "slice (fbytes fd) 0 2 = zeros 2" "slice (fdisk fd) 0 2 = zeros 2" and l: "length (fdisk fd) = fsize fd"
    using ps by (auto elim!: seg_backedE)
  obtain g where g: "files s' (data_path dir (sg_base_offset sgm)) = Some g"
    "length (fbytes g) = page_round s (fsize fd)"
    "\<And>i. i < fsize fd \<Longrightarrow> fbytes g ! i = fdisk fd ! i \<or> fbytes g ! i = fbytes fd ! i"
    using crashE [OF cr f] by blast
  have 2: "2 \<le> fsize fd" "\<forall>i < 2. fbytes fd ! i = 0" "\<forall>i < 2. fdisk fd ! i = 0"
    using slice_zerosD [OF e(1)] slice_zerosD [OF e(2)] l by auto
  have z: "fbytes g ! i = 0" if "i < 2" for i using g(3) [of i] 2 that by auto
  have "2 \<le> length (fbytes g)" using 2(1) g(2) page_round_ge [OF pg, of "fsize fd"] by simp
  then show "slice (fbytes gd) 0 2 = zeros 2"
    using z g(1) gd by (simp add: slice_zeros_iff)
qed

lemma crash_recovers_stored:
  assumes rep: "seg_layout s sgm ps" and bk: "seg_backed s dir sgm ps"
    and sy: "synced s sgm" "length (frames ps) \<le> unat (op_data (sg_s sgm))" "length ps \<le> unat (op_index (sg_s sgm))"
    and room: "8 * length ps + 8 \<le> index_len (sg_size sgm)"
    and cr: "crash s s'" and kd: "entry_kept s s' (data_path dir (sg_base_offset sgm))"
    and ki: "entry_kept s s' (index_path dir (sg_base_offset sgm))" and pg: "0 < page_size s"
  shows "seg_stored s' dir (sg_base_offset sgm) (sg_size sgm) ps"
proof -
  let ?d = "data_path dir (sg_base_offset sgm)" and ?x = "index_path dir (sg_base_offset sgm)"
  obtain fd fi where f: "files s ?d = Some fd" "files s ?x = Some fi"
    and pth: "sg_buffer sgm = ?d" "sg_index sgm = ?x"
    and sz: "fsize fd = unat (sg_size sgm)" "fsize fi = index_len (sg_size sgm)"
    and li: "length (fbytes fi) = page_round s (index_len (sg_size sgm))" "fsize fi \<le> length (fbytes fi)"
    and zb: "\<forall>i. 8 * length ps \<le> i \<and> i < length (fbytes fi) \<longrightarrow> fbytes fi ! i = 0"
    and zd: "\<forall>i. 8 * length ps \<le> i \<and> i < fsize fi \<longrightarrow> fdisk fi ! i = 0"
    and e: "ps = [] \<longrightarrow> slice (fbytes fd) 0 2 = zeros 2 \<and> slice (fdisk fd) 0 2 = zeros 2"
    and ld: "length (fdisk fd) = fsize fd" "length (fdisk fi) = fsize fi"
    using bk by (rule seg_backedE)
  from rep f pth have fr: "length (fbytes fd) = unat (sg_size sgm)" "take (length (frames ps)) (fbytes fd) = frames ps"
      "length (frames ps) + 12 \<le> length (fbytes fd)" "8 * length ps \<le> length (fbytes fi)"
      "take (8 * length ps) (fbytes fi) = index_bytes ps"
    by (auto elim!: seg_layoutE)
  have od: "on_disk (length (frames ps)) fd" "on_disk (8 * length ps) fi"
    using sy f pth by (auto simp: synced_def on_disk_def)
  obtain gd where gd: "files s' ?d = Some gd" "fsize gd = fsize fd" "length (fbytes gd) = page_round s (fsize fd)"
    "\<And>i. i < fsize fd \<Longrightarrow> fbytes gd ! i = fdisk fd ! i \<or> fbytes gd ! i = fbytes fd ! i"
    using crashE [OF cr kd f(1)] by blast
  obtain gi where gi: "files s' ?x = Some gi" "fsize gi = fsize fi" "length (fbytes gi) = page_round s (fsize fi)"
    "\<And>i. i < fsize fi \<Longrightarrow> fbytes gi ! i = fdisk fi ! i \<or> fbytes gi ! i = fbytes fi ! i"
    using crashE [OF cr ki f(2)] by blast
  have ge: "fsize fd \<le> length (fbytes gd)" "fsize fi \<le> length (fbytes gi)"
    using pg gd(3) gi(3) page_round_ge by auto
  have pd: "take (length (frames ps)) (fbytes gd) = frames ps"
    using crash_prefix [OF gd(4) od(1)] fr sz ge by simp
  have pi: "take (8 * length ps) (fbytes gi) = index_bytes ps"
    using crash_prefix [OF gi(4) od(2)] fr sz ge room by simp
  have zi: "fbytes gi ! i = 0" if "8 * length ps \<le> i" "i < index_len (sg_size sgm)" for i
    using gi(4) [of i] zb zd that sz li page_round_ge [OF pg, of "fsize fi"] by auto
  have ee: "slice (fbytes gd) 0 2 = zeros 2" if "ps = []"
    using crash_empty [OF cr kd bk pg that] gd(1) by simp
  show ?thesis
    using recovered_stored [OF rep bk room gd(1) _ _ pd gi(1) _ _ pi zi ee] gd gi sz ge by simp
qed

section \<open>The invariant of an open segment\<close>

definition seg_ok :: "os \<Rightarrow> string \<Rightarrow> segment \<Rightarrow> bytes list \<Rightarrow> bool" where
  "seg_ok s dir sgm ps \<longleftrightarrow> seg_rep s sgm ps \<and> seg_backed s dir sgm ps \<and> synced s sgm"

lemma nth_splice_before: "i < off \<Longrightarrow> off + length xs \<le> length bs \<Longrightarrow> splice bs off xs ! i = bs ! i"
  by (simp add: splice_def nth_append)

lemma nth_splice_after:
  "off + length xs \<le> i \<Longrightarrow> i < length bs \<Longrightarrow> splice bs off xs ! i = bs ! i"
  by (auto simp: splice_def nth_append)

lemma after_write_backed:
  assumes rep: "seg_rep s sgm ps" and bk: "seg_backed s dir sgm ps" and fit: "fits sgm ps p"
    and room: "length ps < index_room s sgm"
  shows "seg_backed (after_write s sgm ps p) dir (sgm\<lparr>sg_w := w\<rparr>) (ps @ [p])"
  using bk
proof (rule seg_backedE)
  fix fd fi
  assume f: "files s (data_path dir (sg_base_offset sgm)) = Some fd" "files s (index_path dir (sg_base_offset sgm)) = Some fi"
    "sg_buffer sgm = data_path dir (sg_base_offset sgm)" "sg_index sgm = index_path dir (sg_base_offset sgm)"
    "fsize fd = unat (sg_size sgm)" "fsize fi = index_len (sg_size sgm)"
    "length (fbytes fi) = page_round s (index_len (sg_size sgm))" "fsize fi \<le> length (fbytes fi)"
    and z: "\<forall>i. 8 * length ps \<le> i \<and> i < length (fbytes fi) \<longrightarrow> fbytes fi ! i = 0"
    "\<forall>i. 8 * length ps \<le> i \<and> i < fsize fi \<longrightarrow> fdisk fi ! i = 0"
    and l: "length (fdisk fd) = fsize fd" "length (fdisk fi) = fsize fi"
  have room8: "8 * length ps + 8 \<le> length (fbytes fi)"
    using room f by (simp add: index_room_def bytes_of_def)
  have "splice (fbytes fi) (8 * length ps) (le_encode 8 (length (frames ps))) ! i = 0"
    if "8 * length ps + 8 \<le> i" "i < length (fbytes fi)" for i
    using that z by (simp add: nth_splice_after)
  then show ?thesis
    using f z l room8 by (auto simp: seg_backed_def after_write_def bytes_of_def page_round_def)
qed

lemma after_write_synced:
  assumes rep: "seg_rep s sgm ps" and sy: "synced s sgm" and fit: "fits sgm ps p"
    and room: "length ps < index_room s sgm"
  shows "synced (after_write s sgm ps p) (sgm\<lparr>sg_w := next_pair sgm p\<rparr>)"
proof -
  from rep have lay: "seg_layout s sgm ps" and w: "unat (op_data (sg_w sgm)) = length (frames ps)"
    by (auto simp: seg_rep_def)
  from lay obtain fd fi where f: "files s (sg_buffer sgm) = Some fd" "files s (sg_index sgm) = Some fi"
    and ne: "sg_buffer sgm \<noteq> sg_index sgm" and sz: "length (fbytes fd) = unat (sg_size sgm)"
    and wi: "unat (op_index (sg_w sgm)) = length ps" and il: "8 * length ps \<le> length (fbytes fi)"
    by (rule seg_layoutE)
  have room8: "8 * length ps + 8 \<le> length (fbytes fi)"
    using room f by (simp add: index_room_def bytes_of_def)
  from sy f have le: "unat (op_data (sg_s sgm)) \<le> length (frames ps)" "unat (op_index (sg_s sgm)) \<le> length ps"
    and od: "on_disk (unat (op_data (sg_s sgm))) fd" "on_disk (8 * unat (op_index (sg_s sgm))) fi"
    using w wi by (auto simp: synced_def word_le_nat_alt)
  have len: "length (frames ps) + length (frame_bytes p) \<le> length (fbytes fd)"
    using fit sz by (simp add: fits_def)
  have "on_disk (unat (op_data (sg_s sgm))) (fd\<lparr>fbytes := splice (fbytes fd) (length (frames ps)) (frame_bytes p)\<rparr>)"
    using od(1) le(1) len by (auto simp: on_disk_def nth_splice_before)
  moreover have "on_disk (8 * unat (op_index (sg_s sgm)))
      (fi\<lparr>fbytes := splice (fbytes fi) (8 * length ps) (le_encode 8 (length (frames ps)))\<rparr>)"
    using od(2) le(2) room8 by (auto simp: on_disk_def nth_splice_before)
  ultimately show ?thesis
    using f ne le next_pair_unat [OF rep fit]
    by (simp add: synced_def after_write_def bytes_of_def word_le_nat_alt)
qed

lemma segment_write_ok:
  assumes ok: "seg_ok s dir sgm ps" and "\<not> looks_eos ps" "fits sgm ps p" "length ps < index_room s sgm"
  shows "segment_write s sgm p = Some (after_write s sgm ps p, sgm\<lparr>sg_w := next_pair sgm p\<rparr>, int (length p))"
    and "seg_ok (after_write s sgm ps p) dir (sgm\<lparr>sg_w := next_pair sgm p\<rparr>) (ps @ [p])"
  using assms segment_write_run [of s sgm ps p] after_write_rep [of s sgm ps p]
    after_write_backed [of s sgm ps dir p] after_write_synced [of s sgm ps p]
  by (auto simp: seg_ok_def)

lemma same_bytes_backed:
  assumes same: "same_bytes s s'" and bk: "seg_backed s dir sgm ps"
  shows "seg_backed s' dir (sgm\<lparr>sg_s := v\<rparr>) ps"
  using bk
proof (rule seg_backedE)
  fix fd fi
  assume f: "files s (data_path dir (sg_base_offset sgm)) = Some fd" "files s (index_path dir (sg_base_offset sgm)) = Some fi"
    and pth: "sg_buffer sgm = data_path dir (sg_base_offset sgm)" "sg_index sgm = index_path dir (sg_base_offset sgm)"
    and sz: "fsize fd = unat (sg_size sgm)" "fsize fi = index_len (sg_size sgm)"
    "length (fbytes fi) = page_round s (index_len (sg_size sgm))" "fsize fi \<le> length (fbytes fi)"
    and z: "\<forall>i. 8 * length ps \<le> i \<and> i < length (fbytes fi) \<longrightarrow> fbytes fi ! i = 0"
    "\<forall>i. 8 * length ps \<le> i \<and> i < fsize fi \<longrightarrow> fdisk fi ! i = 0"
    and e: "ps = [] \<longrightarrow> slice (fbytes fd) 0 2 = zeros 2 \<and> slice (fdisk fd) 0 2 = zeros 2"
    and l: "length (fdisk fd) = fsize fd" "length (fdisk fi) = fsize fi"
  obtain gd gi where g: "files s' (data_path dir (sg_base_offset sgm)) = Some gd" "flushed fd gd"
    "files s' (index_path dir (sg_base_offset sgm)) = Some gi" "flushed fi gi"
    using same_bytesD [OF same f(1)] same_bytesD [OF same f(2)] by blast
  have pr: "page_round s' n = page_round s n" for n using same by (simp add: same_bytes_def page_round_def)
  have zd: "fdisk gi ! i = 0" if "8 * length ps \<le> i" "i < fsize fi" for i
  proof -
    have "fdisk gi ! i = fdisk fi ! i \<or> fdisk gi ! i = fbytes fi ! i" "i < length (fbytes fi)"
      using g(4) that sz by (auto simp: flushed_def)
    then show ?thesis using z that by auto
  qed
  have ze: "slice (fdisk gd) 0 2 = zeros 2" if "ps = []"
  proof -
    have 2: "2 \<le> fsize fd" "\<forall>i < 2. fbytes fd ! i = 0" "\<forall>i < 2. fdisk fd ! i = 0"
      using e that l slice_zerosD [of "fbytes fd" 2] slice_zerosD [of "fdisk fd" 2] by auto
    have "length (fdisk gd) = fsize fd" "\<forall>i < fsize fd. fdisk gd ! i = fdisk fd ! i \<or> fdisk gd ! i = fbytes fd ! i"
      using g(2) l by (auto simp: flushed_def)
    with 2 show ?thesis by (simp add: slice_zeros_iff) (metis less_le_trans)
  qed
  show ?thesis using g pth sz z zd e ze l by (auto simp: seg_backed_def flushed_def pr)
qed

lemma segment_sync_ok:
  assumes ok: "seg_ok s dir sgm ps" and "outcomes s = []"
    and "mapping_ok s k (sg_buffer sgm)" "mapping_ok s k (sg_index sgm)"
    and run: "segment_sync s sgm = (s', sgm', rc)"
  shows "seg_ok s' dir sgm' ps" "op_data (sg_s sgm') = op_data (sg_w sgm)" "outcomes s' = []"
    "same_bytes s s'" "sgm' = sgm\<lparr>sg_s := sg_s sgm'\<rparr>"
    "0 < rc \<Longrightarrow> op_index (sg_s sgm') = op_index (sg_w sgm)"
proof -
  have ne: "sg_buffer sgm \<noteq> sg_index sgm" using ok by (auto simp: seg_ok_def seg_rep_def elim: seg_layoutE)
  have sy: "synced s sgm" using ok by (simp add: seg_ok_def)
  have "in_mapping s sgm" using ok by (intro rep_in_mapping [of s sgm ps]) (simp add: seg_ok_def)
  note R = segment_sync_run [OF assms(2) synced_le [OF sy] this ne assms(3,4) run]
  from sy R have same: "same_bytes s s'" and eq: "sgm' = sgm\<lparr>sg_s := sg_s sgm'\<rparr>"
    and rest: "op_data (sg_s sgm') = op_data (sg_w sgm)" "outcomes s' = []" "synced s' sgm'"
    "0 < rc \<Longrightarrow> op_index (sg_s sgm') = op_index (sg_w sgm)"
    by (auto simp: seg_ok_def)
  have keep: "sg_buffer sgm' = sg_buffer sgm" "sg_index sgm' = sg_index sgm"
    "sg_size sgm' = sg_size sgm" "sg_w sgm' = sg_w sgm"
    by (subst eq, simp)+
  then have "seg_rep s' sgm' ps"
    using ok same_bytes_layout [OF same _ keep] by (auto simp: seg_ok_def seg_rep_def)
  moreover have "seg_backed s' dir sgm' ps"
    using ok same_bytes_backed [OF same, of dir sgm ps] by (subst eq) (simp add: seg_ok_def)
  ultimately show "seg_ok s' dir sgm' ps" "op_data (sg_s sgm') = op_data (sg_w sgm)" "outcomes s' = []"
    "same_bytes s s'" "sgm' = sgm\<lparr>sg_s := sg_s sgm'\<rparr>"
    "0 < rc \<Longrightarrow> op_index (sg_s sgm') = op_index (sg_w sgm)"
    using rest same eq by (auto simp: seg_ok_def)
qed

text \<open>Files whose bytes are all on disk, as after a restart of the machine, and new files.\<close>

definition clean_file :: "mfile \<Rightarrow> bool" where
  "clean_file f \<longleftrightarrow> fdisk f = take (fsize f) (fbytes f) \<and> fsize f \<le> length (fbytes f)"

lemma clean_fresh: "0 < page_size s \<Longrightarrow> clean_file (fresh_file s n)"
  using page_round_ge [of s n] by (simp add: clean_file_def fresh_file_def)

definition clean_files :: "os \<Rightarrow> string \<Rightarrow> u64 \<Rightarrow> u32 \<Rightarrow> bytes list \<Rightarrow> bool" where
  "clean_files s dir base sz ps \<longleftrightarrow>
     (case (opened_file s (unat sz) (files s (data_path dir base)),
            opened_file s (index_len sz) (files s (index_path dir base))) of
        (Some fd, Some fi) \<Rightarrow> clean_file fd \<and> clean_file fi \<and> (ps = [] \<longrightarrow> slice (fbytes fd) 0 2 = zeros 2)
      | _ \<Rightarrow> False)"

lemma segment_open_ok:
  assumes env: "env_ok s dir base sz" and st: "seg_stored s dir base sz ps" and cl: "clean_files s dir base sz ps"
  shows "\<exists>s' w. segment_open s dir base sz flags = Some (s', 0, Some (opened_segment dir base sz flags w)) \<and>
     seg_ok s' dir (opened_segment dir base sz flags w) ps \<and>
     page_size s' = page_size s \<and> map_base s' = map_base s \<and> outcomes s' = [] \<and>
     (\<forall>q. q \<notin> {data_path dir base, index_path dir base} \<longrightarrow> files s' q = files s q) \<and>
     dirs s' = dirs (ensured s dir)"
proof -
  from segment_open_recovers [OF env st, of flags] obtain fd fi w where
    fd: "opened_file s (unat sz) (files s (data_path dir base)) = Some fd" and
    fi: "opened_file s (index_len sz) (files s (index_path dir base)) = Some fi" and
    run: "segment_open s dir base sz flags =
       Some (mapped_state s dir base fd fi, 0, Some (opened_segment dir base sz flags w))" and
    rep: "seg_rep (mapped_state s dir base fd fi) (opened_segment dir base sz flags w) ps"
    by blast
  let ?s = "mapped_state s dir base fd fi" and ?g = "opened_segment dir base sz flags w"
  from st fd fi have sz: "fsize fd = unat sz" "fsize fi = index_len sz" "unat sz \<le> length (fbytes fd)"
    "index_len sz \<le> length (fbytes fi)" "length (frames ps) + 12 \<le> unat sz" "8 * length ps + 8 \<le> index_len sz"
    and z: "drop (8 * length ps) (take (index_len sz) (fbytes fi)) = zeros (index_len sz - 8 * length ps)"
    by (auto simp: seg_stored_def)
  have z0: "fbytes fi ! i = 0" if i: "8 * length ps \<le> i" "i < index_len sz" for i
  proof -
    have "drop (8 * length ps) (take (index_len sz) (fbytes fi)) ! (i - 8 * length ps) = 0"
      using i by (simp only: z) simp
    then show ?thesis using i sz by (simp add: nth_drop)
  qed
  have pg: "0 < page_size s" using env by (simp add: env_ok_def)
  have pr: "page_round ?s n = page_round s n" for n by (simp add: mapped_state_def page_round_def)
  have bk: "seg_backed ?s dir ?g ps"
    using sz cl z0 fd fi page_round_ge [OF pg, of "index_len sz"] page_round_ge [OF pg, of "unat sz"]
    by (auto simp: seg_backed_def opened_segment_def mapped_state_def map_file_def clean_files_def clean_file_def
      nth_append slice_append_left slice_take page_round_def)
  have "on_disk n (map_file s f)" if "clean_file f" for n f
    using that by (auto simp: on_disk_def map_file_def clean_file_def nth_append)
  then have sy: "synced ?s ?g"
    using cl fd fi by (simp add: synced_def opened_segment_def mapped_state_def clean_files_def)
  show ?thesis using run rep bk sy env
    by (intro exI [of _ ?s] exI [of _ w]) (simp add: seg_ok_def mapped_state_def env_ok_def)
qed

lemma crash_file_clean: "crash_file s f g \<Longrightarrow> 0 < page_size s \<Longrightarrow> clean_file g"
  using page_round_ge [of s "fsize f"] by (simp add: crash_file_def clean_file_def)

lemma crash_clean:
  assumes cr: "crash s s'" and kd: "entry_kept s s' (data_path dir (sg_base_offset sgm))"
    and ki: "entry_kept s s' (index_path dir (sg_base_offset sgm))" and bk: "seg_backed s dir sgm ps" and pg: "0 < page_size s"
    and sz: "0 < unat (sg_size sgm)" "0 < index_len (sg_size sgm)"
  shows "clean_files s' dir (sg_base_offset sgm) (sg_size sgm) ps"
  using bk
proof (rule seg_backedE)
  fix fd fi
  assume f: "files s (data_path dir (sg_base_offset sgm)) = Some fd"
      "files s (index_path dir (sg_base_offset sgm)) = Some fi"
    and fs: "fsize fd = unat (sg_size sgm)" "fsize fi = index_len (sg_size sgm)"
  from crash_fileD [OF cr kd f(1)] obtain gd where
    gd: "files s' (data_path dir (sg_base_offset sgm)) = Some gd" "crash_file s fd gd" by blast
  from crash_fileD [OF cr ki f(2)] obtain gi where
    gi: "files s' (index_path dir (sg_base_offset sgm)) = Some gi" "crash_file s fi gi" by blast
  have "fsize gd = fsize fd" "fsize gi = fsize fi" using gd(2) gi(2) by (simp_all add: crash_file_def)
  moreover have "ps = [] \<longrightarrow> slice (fbytes gd) 0 2 = zeros 2"
    using crash_empty [OF cr kd bk pg] gd(1) by blast
  moreover have "clean_file gd" "clean_file gi" using gd(2) gi(2) pg by (blast intro: crash_file_clean)+
  ultimately show ?thesis
    using gd(1) gi(1) sz fs by (simp add: clean_files_def opened_file_def)
qed

lemma sync_crash_open:
  assumes ok: "seg_ok s dir sgm ps" and out: "outcomes s = []" and pg: "0 < page_size s"
    and mp: "mapping_ok s k (sg_buffer sgm)" "mapping_ok s k (sg_index sgm)"
    and room: "8 * length ps + 8 \<le> index_len (sg_size sgm)"
    and run: "segment_sync s sgm = (s', sgm', rc)" and rc: "0 < rc"
    and cr: "crash s' s''" and kd: "entry_kept s' s'' (data_path dir (sg_base_offset sgm))"
    and ki: "entry_kept s' s'' (index_path dir (sg_base_offset sgm))" and env: "env_ok s'' dir (sg_base_offset sgm) (sg_size sgm)"
  shows "\<exists>s3 w. segment_open s'' dir (sg_base_offset sgm) (sg_size sgm) flags =
       Some (s3, 0, Some (opened_segment dir (sg_base_offset sgm) (sg_size sgm) flags w)) \<and>
     seg_ok s3 dir (opened_segment dir (sg_base_offset sgm) (sg_size sgm) flags w) ps"
proof -
  note S = segment_sync_ok [OF ok out mp run]
  have eq: "sg_base_offset sgm' = sg_base_offset sgm" "sg_size sgm' = sg_size sgm" "sg_w sgm' = sg_w sgm"
    by (subst S(5), simp)+
  have rep: "seg_rep s' sgm' ps" and bk: "seg_backed s' dir sgm' ps" and sy: "synced s' sgm'"
    using S(1) by (auto simp: seg_ok_def)
  then have lay: "seg_layout s' sgm' ps" by (simp add: seg_rep_def)
  then have wi: "unat (op_index (sg_w sgm')) = length ps" by (rule seg_layoutE)
  have sp: "length (frames ps) \<le> unat (op_data (sg_s sgm'))" "length ps \<le> unat (op_index (sg_s sgm'))"
    using rep S(2) S(6) [OF rc] eq wi by (auto simp: seg_rep_def)
  have pg': "0 < page_size s'" using S(4) pg by (simp add: same_bytes_def)
  have st: "seg_stored s'' dir (sg_base_offset sgm) (sg_size sgm) ps"
    using crash_recovers_stored [OF lay bk sy sp _ cr _ _ pg'] room kd ki eq by simp
  have "0 < unat (sg_size sgm)" "0 < index_len (sg_size sgm)" using room by (auto simp: index_len_def intro: Suc_le_lessD)
  then have "clean_files s'' dir (sg_base_offset sgm) (sg_size sgm) ps"
    using crash_clean [OF cr _ _ bk pg'] kd ki eq by simp
  then show ?thesis using segment_open_ok [OF env st] by blast
qed

end
