(* ===== verification/Log_Interface.thy ===== *)
theory Log_Interface
  imports Prelude Errno
begin

text \<open>
  The contract of an append-only log, as the callers of a segment and of the whole log
  rely on it: a client state represents a list of payloads, a write that is accepted
  appends one payload, and a read at position \<open>i\<close> delivers the payload number \<open>i\<close> or the
  error \<open>ELNORD\<close>. \<open>accept\<close> says that a list of payloads can still be appended.
  The lemmas are proved once here and used for segments and for the log.
\<close>

fun write_all :: "('s \<Rightarrow> bytes \<Rightarrow> ('s \<times> int) option) \<Rightarrow> 's \<Rightarrow> bytes list \<Rightarrow> ('s \<times> int list) option" where
  "write_all wr st [] = Some (st, [])"
| "write_all wr st (q # qs) = do {
     (st, rc) \<leftarrow> wr st q;
     (st, rcs) \<leftarrow> write_all wr st qs;
     Some (st, rc # rcs) }"

locale append_log =
  fixes wr :: "'s \<Rightarrow> bytes \<Rightarrow> ('s \<times> int) option"
    and rd :: "'s \<Rightarrow> u64 \<Rightarrow> (int \<times> bytes option) option"
    and rep :: "'s \<Rightarrow> bytes list \<Rightarrow> bool"
    and accept :: "'s \<Rightarrow> bytes list \<Rightarrow> bytes list \<Rightarrow> bool"
  assumes write_appends:
      "rep st ps \<Longrightarrow> accept st ps (q # qs) \<Longrightarrow>
       \<exists>st'. wr st q = Some (st', int (length q)) \<and> rep st' (ps @ [q]) \<and> accept st' (ps @ [q]) qs"
    and read_nth:
      "rep st ps \<Longrightarrow> unat off < length ps \<Longrightarrow>
       rd st off = Some (int (length (ps ! unat off)), Some (ps ! unat off))"
    and read_beyond:
      "rep st ps \<Longrightarrow> \<not> unat off < length ps \<Longrightarrow> rd st off = Some (ELNORD, None)"
begin

lemma write_all_appends:
  "rep st ps \<Longrightarrow> accept st ps qs \<Longrightarrow>
   \<exists>st'. write_all wr st qs = Some (st', map (\<lambda>q. int (length q)) qs) \<and> rep st' (ps @ qs)"
proof (induction qs arbitrary: st ps)
  case (Cons q qs)
  from write_appends [OF Cons.prems] obtain st1 where
    1: "wr st q = Some (st1, int (length q))" "rep st1 (ps @ [q])" "accept st1 (ps @ [q]) qs" by blast
  from Cons.IH [OF 1(2,3)] obtain st2 where
    "write_all wr st1 qs = Some (st2, map (\<lambda>q. int (length q)) qs)" "rep st2 ((ps @ [q]) @ qs)" by blast
  with 1(1) show ?case by simp
qed simp

lemma read_determines: "rep st ps \<Longrightarrow> rep st qs \<Longrightarrow> length qs < 2 ^ 64 \<Longrightarrow> length qs \<le> length ps"
proof (rule ccontr)
  assume a: "rep st ps" "rep st qs" "length qs < 2 ^ 64" "\<not> length qs \<le> length ps"
  define off :: u64 where "off = word_of_nat (length ps)"
  have "unat off = length ps" using a by (simp add: off_def unat_of_nat)
  then show False using read_beyond [OF a(1), of off] read_nth [OF a(2), of off] a(4) by simp
qed

lemma write_all_reads:
  assumes "rep st ps" "accept st ps qs"
  shows "\<exists>st'. write_all wr st qs = Some (st', map (\<lambda>q. int (length q)) qs) \<and> rep st' (ps @ qs) \<and>
    (\<forall>off. unat off < length ps \<longrightarrow> rd st' off = rd st off) \<and>
    (\<forall>off. length ps \<le> unat off \<and> unat off < length ps + length qs \<longrightarrow>
       rd st' off = Some (int (length (qs ! (unat off - length ps))), Some (qs ! (unat off - length ps)))) \<and>
    (\<forall>off. length ps + length qs \<le> unat off \<longrightarrow> rd st' off = Some (ELNORD, None))"
proof -
  from write_all_appends [OF assms] obtain st' where
    w: "write_all wr st qs = Some (st', map (\<lambda>q. int (length q)) qs)" and r: "rep st' (ps @ qs)" by blast
  show ?thesis
    using w r assms(1) by (intro exI [of _ st']) (simp add: read_nth read_beyond nth_append)
qed

end

end
