(* ===== verification/Segment_Theorems.thy ===== *)
theory Segment_Theorems
  imports Segment_Sync Log_Interface
begin

text \<open>
  The properties of one segment (\<^verbatim>\<open>src/src/segment.c\<close>), stated over its operations, and
  the segment as an instance of the append-only log. The witnesses run on a small machine
  with pages of 256 bytes and a segment of four pages.
\<close>

section \<open>A small segment\<close>

definition demo_os :: os where
  "demo_os = \<lparr>page_size = 256, dir_size = 64, nofile_cur = 1024, dirs = [], files = Map.empty,
     map_base = (\<lambda>_. 0x10000), outcomes = []\<rparr>"

definition demo_open_os :: os where
  "demo_open_os = mapped_state demo_os ''d'' 0 (fresh_file demo_os 1024) (fresh_file demo_os 85)"

definition demo_seg :: segment where
  "demo_seg = opened_segment ''d'' 0 1024 0 \<lparr>op_index = 0, op_data = 0\<rparr>"

lemma demo_paths [simp]: "data_path ''d'' 0 = ''d/0.log''" "index_path ''d'' 0 = ''d/0.idx''"
  by code_simp+

lemma demo_env: "env_ok demo_os ''d'' 0 1024"
  by (simp add: env_ok_def demo_os_def ensured_def size_of_u32_def)

lemma demo_index_len [simp]: "index_len 1024 = 85"
  by (simp add: index_len_def)

lemma demo_fresh:
  "opened_file demo_os 1024 (files demo_os ''d/0.log'') = Some (fresh_file demo_os 1024)"
  "opened_file demo_os 85 (files demo_os ''d/0.idx'') = Some (fresh_file demo_os 85)"
  by (simp_all add: demo_os_def opened_file_def)

lemma demo_stored: "seg_stored demo_os ''d'' 0 1024 []" "clean_files demo_os ''d'' 0 1024 []"
proof -
  show "seg_stored demo_os ''d'' 0 1024 []"
    using seg_stored_fresh [OF demo_env] by (simp add: demo_os_def)
  show "clean_files demo_os ''d'' 0 1024 []"
    by (simp add: clean_files_def demo_fresh clean_file_def)
      (simp add: demo_os_def fresh_file_def slice_def page_round_def)
qed

lemma demo_open:
  "segment_open demo_os ''d'' 0 1024 0 = Some (demo_open_os, 0, Some demo_seg)"
  "seg_ok demo_open_os ''d'' demo_seg []"
proof -
  obtain w where w: "segment_open demo_os ''d'' 0 1024 0 =
      Some (demo_open_os, 0, Some (opened_segment ''d'' 0 1024 0 w))"
    "seg_rep demo_open_os (opened_segment ''d'' 0 1024 0 w) []"
    using segment_open_recovers [OF demo_env demo_stored(1), of 0]
    by (auto simp: demo_fresh demo_open_os_def)
  have "unat (op_index w) = 0" "unat (op_data w) = 0"
    using w(2) by (auto simp: seg_rep_def opened_segment_def elim!: seg_layoutE)
  then have "w = \<lparr>op_index = 0, op_data = 0\<rparr>"
    by (cases w) (simp add: unat_eq_0)
  with w show 1: "segment_open demo_os ''d'' 0 1024 0 = Some (demo_open_os, 0, Some demo_seg)"
    by (simp add: demo_seg_def)
  from segment_open_ok [OF demo_env demo_stored, of 0] obtain s' w where
    "segment_open demo_os ''d'' 0 1024 0 = Some (s', 0, Some (opened_segment ''d'' 0 1024 0 w))"
    "seg_ok s' ''d'' (opened_segment ''d'' 0 1024 0 w) []" by blast
  with 1 show "seg_ok demo_open_os ''d'' demo_seg []" by simp
qed

lemma demo_room [simp]: "index_room demo_open_os demo_seg = 32"
  by (simp add: index_room_def demo_open_os_def demo_seg_def opened_segment_def mapped_state_def
    bytes_of_def map_file_def fresh_file_def page_round_def demo_os_def ensured_def)

lemma demo_fits [simp]: "fits demo_seg ps p \<longleftrightarrow> length (frames ps) + length p \<le> 1000"
  by (auto simp: fits_def demo_seg_def opened_segment_def)

lemma demo_flags [simp]: "sg_flags demo_seg = 0" "sg_size demo_seg = 1024" "sg_base_offset demo_seg = 0"
  by (simp_all add: demo_seg_def opened_segment_def)

lemma looks_eos_zeros: "12 \<le> n \<Longrightarrow> \<not> looks_eos [zeros n]"
proof -
  assume n: "12 \<le> n"
  have "slice (header_bytes (frame_header (zeros n)) @ zeros n) (12 + (n - 12)) 2 = slice (zeros n) (n - 12) 2"
    using slice_append_right [of "header_bytes (frame_header (zeros n))" "zeros n" "n - 12" 2] by simp
  also have "\<dots> = zeros 2" using n by (simp add: slice_def)
  finally show ?thesis using n by (simp add: looks_eos_def tail_flags_def frame_bytes_def HEADER_FLAGS_EOS_def)
qed

section \<open>A segment as a log\<close>

type_synonym seg_state = "os \<times> segment"

definition null_frame :: frame where
  "null_frame = \<lparr>fr_hdr = None, fr_buffer = None\<rparr>"

definition seg_wr :: "seg_state \<Rightarrow> bytes \<Rightarrow> (seg_state \<times> int) option" where
  "seg_wr st p = (case st of (s, sgm) \<Rightarrow> do {
     (s, sgm, rc) \<leftarrow> segment_write s sgm p;
     Some ((s, sgm), rc) })"

text \<open>A client that reads the payload through the frame when the read succeeds.\<close>

definition seg_rd :: "seg_state \<Rightarrow> u64 \<Rightarrow> (int \<times> bytes option) option" where
  "seg_rd st off = (case st of (s, sgm) \<Rightarrow> do {
     (rc, fr) \<leftarrow> segment_read s sgm off null_frame;
     if rc < 0 then Some (rc, None) else do { b \<leftarrow> frame_payload s fr; Some (rc, Some b) } })"

definition seg_log :: "string \<Rightarrow> seg_state \<Rightarrow> bytes list \<Rightarrow> bool" where
  "seg_log dir st ps \<longleftrightarrow> (case st of (s, sgm) \<Rightarrow>
     seg_ok s dir sgm ps \<and> sg_flags sgm AND SGM_RDCMT \<noteq> SGM_RDCMT)"

definition seg_accept :: "seg_state \<Rightarrow> bytes list \<Rightarrow> bytes list \<Rightarrow> bool" where
  "seg_accept st ps qs \<longleftrightarrow> (case st of (s, sgm) \<Rightarrow>
     length (frames ps) + length (frames qs) + 12 \<le> unat (sg_size sgm) \<and>
     length ps + length qs \<le> index_room s sgm \<and>
     (\<forall>k < length qs. \<not> looks_eos (ps @ take k qs)))"

lemma seg_okD: "seg_ok s dir sgm ps \<Longrightarrow> seg_rep s sgm ps"
  by (simp add: seg_ok_def)

lemma seg_accept_Cons:
  assumes "seg_accept (s, sgm) ps (q # qs)"
  shows "fits sgm ps q" "length ps < index_room s sgm" "\<not> looks_eos ps"
    "k < length qs \<Longrightarrow> \<not> looks_eos (ps @ q # take k qs)"
  using assms spec [of "\<lambda>k. k < length (q # qs) \<longrightarrow> \<not> looks_eos (ps @ take k (q # qs))" 0]
    spec [of "\<lambda>k. k < length (q # qs) \<longrightarrow> \<not> looks_eos (ps @ take k (q # qs))" "Suc k"]
  by (simp_all add: seg_accept_def fits_def)

lemma index_room_write:
  assumes "seg_rep s sgm ps" "length ps < index_room s sgm"
  shows "index_room (after_write s sgm ps p) (sgm\<lparr>sg_w := w\<rparr>) = index_room s sgm"
proof -
  from assms(1) obtain fi where "files s (sg_index sgm) = Some fi" "sg_buffer sgm \<noteq> sg_index sgm"
    by (auto simp: seg_rep_def elim!: seg_layoutE)
  then show ?thesis using assms(2) by (auto simp: index_room_def after_write_def bytes_of_def)
qed

lemma seg_write_step:
  assumes "seg_log dir (s, sgm) ps" "seg_accept (s, sgm) ps (q # qs)"
  shows "\<exists>st'. seg_wr (s, sgm) q = Some (st', int (length q)) \<and> seg_log dir st' (ps @ [q]) \<and>
     seg_accept st' (ps @ [q]) qs"
proof -
  note A = seg_accept_Cons [OF assms(2)]
  have ok: "seg_ok s dir sgm ps" "sg_flags sgm AND SGM_RDCMT \<noteq> SGM_RDCMT"
    using assms(1) by (simp_all add: seg_log_def)
  note W = segment_write_ok [OF ok(1) A(3) A(1) A(2)]
  let ?st = "(after_write s sgm ps q, sgm\<lparr>sg_w := next_pair sgm q\<rparr>)"
  have "seg_accept ?st (ps @ [q]) qs"
    using assms(2) A(4) index_room_write [OF seg_okD [OF ok(1)] A(2)]
    by (simp add: seg_accept_def)
  moreover have "seg_log dir ?st (ps @ [q])" using W(2) ok(2) by (simp add: seg_log_def)
  ultimately show ?thesis by (intro exI [of _ ?st]) (simp add: seg_wr_def W(1))
qed

lemma seg_rd_rep:
  assumes "seg_log dir (s, sgm) ps"
  shows "seg_rd (s, sgm) off = Some (if unat off < length ps
     then (int (length (ps ! unat off)), Some (ps ! unat off)) else (ELNORD, None))"
proof -
  have rep: "seg_rep s sgm ps" "sg_flags sgm AND SGM_RDCMT \<noteq> SGM_RDCMT"
    using assms by (simp_all add: seg_log_def seg_ok_def)
  then have lay: "seg_layout s sgm ps" by (simp add: seg_rep_def)
  show ?thesis
    using rep frame_at_payload(1) [OF lay]
    by (simp add: seg_rd_def segment_read_frame [OF disjI1 [OF rep(1)]] committed_def ELNORD_def)
qed

interpretation sl: append_log seg_wr seg_rd "seg_log dir" seg_accept
proof unfold_locales
  fix st ps q qs assume "seg_log dir st ps" "seg_accept st ps (q # qs)"
  then show "\<exists>st'. seg_wr st q = Some (st', int (length q)) \<and> seg_log dir st' (ps @ [q]) \<and>
      seg_accept st' (ps @ [q]) qs"
    using seg_write_step by (cases st) blast
next
  fix st ps and off :: u64
  assume "seg_log dir st ps" "unat off < length ps"
  then show "seg_rd st off = Some (int (length (ps ! unat off)), Some (ps ! unat off))"
    by (cases st) (simp add: seg_rd_rep)
next
  fix st ps and off :: u64
  assume "seg_log dir st ps" "\<not> unat off < length ps"
  then show "seg_rd st off = Some (ELNORD, None)"
    by (cases st) (simp add: seg_rd_rep)
qed

section \<open>Return codes of a synchronisation\<close>

lemma int_of_size_stb: "unat w < 2 ^ 32 \<Longrightarrow> int_of_size w = signed_take_bit 31 (int (unat w))"
proof -
  assume "unat w < 2 ^ 32"
  then have "unat (ucast w :: u32) = unat w"
    by (simp add: unsigned_ucast_eq take_bit_nat_eq_self)
  then show ?thesis by (simp only: int_of_size_def sint_uint uint_nat) simp
qed

lemma signed_take_bit_31:
  "n < 2 ^ 31 \<Longrightarrow> signed_take_bit 31 (int n) = int n"
  "2 ^ 31 \<le> n \<Longrightarrow> n < 2 ^ 32 \<Longrightarrow> signed_take_bit 31 (int n) < 0"
proof -
  show "n < 2 ^ 31 \<Longrightarrow> signed_take_bit 31 (int n) = int n"
    by (rule signed_take_bit_int_eq_self) simp_all
  assume "2 ^ 31 \<le> n" "n < 2 ^ 32"
  then have "n div 2 ^ 31 = 1" by (intro div_nat_eqI) simp_all
  then have "bit n 31" by (simp only: bit_iff_odd odd_one not_False_eq_True)
  then have "bit (int n) 31" by (simp only: bit_of_nat_iff_bit)
  then show "signed_take_bit 31 (int n) < 0" by simp
qed

lemma int_of_size_small: "unat w < 2 ^ 31 \<Longrightarrow> int_of_size w = int (unat w)"
  using signed_take_bit_31(1) [of "unat w"] int_of_size_stb [of w] by (simp only:) simp

lemma int_of_size_neg: "2 ^ 31 \<le> unat w \<Longrightarrow> unat w < 2 ^ 32 \<Longrightarrow> int_of_size w < 0"
  using signed_take_bit_31(2) [of "unat w"] int_of_size_stb [of w] by (simp only:)

lemma segment_sync_rc:
  assumes ok: "outcomes s = []" and sy: "sync_le s sgm" and im: "in_mapping s sgm" and ne: "sg_buffer sgm \<noteq> sg_index sgm"
    and mp: "mapping_ok s k (sg_buffer sgm)" "mapping_ok s k (sg_index sgm)"
    and sm: "unat (op_data (sg_w sgm)) < 2 ^ 31" "unat (op_index (sg_w sgm)) < 2 ^ 31"
    and run: "segment_sync s sgm = (s', sgm', rc)"
  shows "0 \<le> rc"
    and "op_data (sg_s sgm) < op_data (sg_w sgm) \<Longrightarrow> op_index (sg_s sgm) < op_index (sg_w sgm) \<Longrightarrow> 0 < rc"
proof -
  from sy obtain fd fi where f: "files s (sg_buffer sgm) = Some fd" "files s (sg_index sgm) = Some fi"
    and le: "op_data (sg_s sgm) \<le> op_data (sg_w sgm)" "op_index (sg_s sgm) \<le> op_index (sg_w sgm)"
    by (auto simp: sync_le_def)
  have bd: "unat (op_data (sg_w sgm)) \<le> length (fbytes fd)" "8 * unat (op_index (sg_w sgm)) \<le> length (fbytes fi)"
    using im f by (simp_all add: in_mapping_def bytes_of_def)
  obtain off n where o: "off + unat n = unat (op_data (sg_w sgm))" "off \<le> unat (op_data (sg_s sgm))"
    and d: "sync_data s sgm = (s\<lparr>files := (files s)(sg_buffer sgm \<mapsto> sync_file off (unat n) fd)\<rparr>,
      sgm\<lparr>sg_s := (sg_s sgm)\<lparr>op_data := op_data (sg_w sgm)\<rparr>\<rparr>, int_of_size n)"
    using sync_data_ok [OF ok f(1) mp(1) le(1) bd(1)] by blast
  let ?s = "s\<lparr>files := (files s)(sg_buffer sgm \<mapsto> sync_file off (unat n) fd)\<rparr>"
    and ?g = "sgm\<lparr>sg_s := (sg_s sgm)\<lparr>op_data := op_data (sg_w sgm)\<rparr>\<rparr>"
  have "mapping_ok ?s k (sg_index ?g)" using mp(2) by (simp add: mapping_ok_def)
  from sync_index_ok [of ?s ?g fi k, OF _ _ this] obtain s2 g2 where
    x: "sync_index ?s ?g = (s2, g2, int_of_size (size_of_u32 (op_index (sg_w sgm)) - size_of_u32 (op_index (sg_s sgm))))"
    using ok f ne le bd(2) by auto
  have len: "unat (size_of_u32 (op_index (sg_w sgm)) - size_of_u32 (op_index (sg_s sgm)))
      = unat (op_index (sg_w sgm)) - unat (op_index (sg_s sgm))"
    using le(2) by (simp add: unat_sub word_le_nat_alt)
  then have i: "int_of_size (size_of_u32 (op_index (sg_w sgm)) - size_of_u32 (op_index (sg_s sgm)))
      = int (unat (op_index (sg_w sgm)) - unat (op_index (sg_s sgm)))"
    using sm(2) by (subst int_of_size_small) simp_all
  have n: "int_of_size n = int (unat n)" using o sm(1) by (simp add: int_of_size_small)
  have rc: "rc = (if int_of_size n \<le> 0 then int_of_size n
      else int (unat (op_index (sg_w sgm)) - unat (op_index (sg_s sgm))))"
    using run d x i by (auto simp: segment_sync_def split: if_splits)
  show "0 \<le> rc" using rc n by simp
  assume "op_data (sg_s sgm) < op_data (sg_w sgm)" "op_index (sg_s sgm) < op_index (sg_w sgm)"
  then have "unat (op_data (sg_s sgm)) < unat (op_data (sg_w sgm))"
    "unat (op_index (sg_s sgm)) < unat (op_index (sg_w sgm))" by (simp_all only: word_less_nat_alt)
  then have "0 < unat n" "0 < unat (op_index (sg_w sgm)) - unat (op_index (sg_s sgm))" using o by linarith+
  then show "0 < rc" using rc n by (simp del: of_nat_unat uint_nat split: if_splits)
qed

section \<open>Properties of writing\<close>

text \<open>C7. A write that fits behind the frames of a segment, has a slot in the index mapping, and finds
  no bytes that look like an end mark twelve bytes before the write position, returns the number of payload
  bytes, appends exactly this payload to the contents, advances the write offset by one, keeps the invariant and touches no
  file but the two of the segment.\<close>

theorem segment_write_appends:
  assumes "seg_ok s dir sgm ps" and "\<not> looks_eos ps" and "fits sgm ps p" and "length ps < index_room s sgm"
  shows "\<exists>s' sgm'. segment_write s sgm p = Some (s', sgm', int (length p)) \<and>
     seg_ok s' dir sgm' (ps @ [p]) \<and> same_but {sg_buffer sgm, sg_index sgm} s s' \<and>
     segment_write_offset sgm' = segment_write_offset sgm + 1 \<and>
     sgm' = sgm\<lparr>sg_w := sg_w sgm'\<rparr>"
proof -
  note W = segment_write_ok [OF assms]
  from assms(1) have rep: "seg_rep s sgm ps" by (rule seg_okD)
  have lt: "unat (op_index (sg_w sgm)) + 1 < 2 ^ 32"
    using next_pair_unat(2) [OF rep assms(3)] rep unsigned_less [of "op_index (next_pair sgm p)", where ?'a = nat]
    by (auto simp: seg_rep_def elim!: seg_layoutE)
  then have "unat (op_index (sg_w sgm) + 1) = unat (op_index (sg_w sgm)) + 1"
    by (simp add: unat_plus_if')
  then have "size_of_u32 (op_index (sg_w sgm) + 1) = size_of_u32 (op_index (sg_w sgm)) + 1"
    using lt by (intro unsigned_word_eqI [where ?'a = nat]) (simp add: unat_plus_if')
  then show ?thesis using W after_write_same_but [of sgm s ps p]
    by (auto simp: segment_write_offset_def next_pair_def)
qed

theorem segment_write_appends_witness:
  "\<exists>s' sgm'. segment_write demo_open_os demo_seg [1, 2, 3] = Some (s', sgm', 3) \<and>
     seg_ok s' ''d'' sgm' [[1, 2, 3]] \<and> segment_write_offset sgm' = 1"
proof -
  have "segment_write_offset demo_seg = 0"
    by (simp add: segment_write_offset_def demo_seg_def opened_segment_def size_of_u32_def)
  with segment_write_appends [OF demo_open(2), of "[1, 2, 3]"] show ?thesis
    by (simp add: looks_eos_def) blast
qed

text \<open>C34. A payload that does not leave room for one more header is refused: the write puts an
  end-of-segment frame behind the last frame, returns \<open>ELEOS\<close>, changes nothing but that
  header, and every later write returns \<open>ELEOS\<close> without any effect.\<close>

theorem segment_write_marks_end:
  assumes "seg_rep s sgm ps" "\<not> looks_eos ps" "\<not> fits sgm ps p" "length p + 24 < 2 ^ 64"
  shows "\<exists>s' sgm'. segment_write s sgm p = Some (s', sgm', ELEOS) \<and> seg_eos s' sgm' ps \<and>
     same_but {sg_buffer sgm} s s' \<and> (\<forall>q. segment_write s' sgm' q = Some (s', sgm', ELEOS))"
  using segment_write_eos [OF assms] segment_write_after_eos by blast

theorem segment_write_marks_end_witness:
  "\<exists>s' sgm'. segment_write demo_open_os demo_seg (zeros 1001) = Some (s', sgm', ELEOS) \<and>
     segment_write s' sgm' [7] = Some (s', sgm', ELEOS)"
  using segment_write_marks_end [OF seg_okD [OF demo_open(2)], of "zeros 1001"]
  by (auto simp: looks_eos_def)

lemma looks_eos_payload:
  assumes "12 \<le> length p" "p ! (length p - 12) = 0xAA" "p ! (length p - 11) = 0xAA"
  shows "looks_eos (ps @ [p])"
proof -
  let ?k = "length p - 12"
  have sl: "slice (frames (ps @ [p])) (length (frames (ps @ [p])) - 12) 2 = [0xAA, 0xAA]"
  proof -
    have "length (frames (ps @ [p])) - 12 = length (frames ps @ header_bytes (frame_header p)) + ?k"
      using assms(1) by simp
    moreover have "frames (ps @ [p]) = (frames ps @ header_bytes (frame_header p)) @ p"
      by (simp add: frame_bytes_def)
    ultimately have "slice (frames (ps @ [p])) (length (frames (ps @ [p])) - 12) 2 = slice p ?k 2"
      by (simp only: slice_append_right)
    also have "\<dots> = [p ! ?k, p ! Suc ?k]"
      using assms(1) by (simp add: slice_def take_Suc_conv_app_nth nth_drop numeral_2_eq_2)
    finally have "slice (frames (ps @ [p])) (length (frames (ps @ [p])) - 12) 2 = [p ! ?k, p ! Suc ?k]" .
    moreover have "Suc ?k = length p - 11" using assms(1) by simp
    ultimately show ?thesis using assms(2,3) by (simp only:)
  qed
  show ?thesis by (simp only: looks_eos_def tail_flags_def sl) (simp add: HEADER_FLAGS_EOS_def)
qed

text \<open>C37. A payload whose bytes 12 and 11 before its end are both 0xAA is taken for an
  end-of-segment header by the next write: the write returns \<open>ELEOS\<close>, whatever room is left.\<close>

theorem segment_payload_mimics_end:
  assumes "seg_rep s sgm (ps @ [p])" "12 \<le> length p" "p ! (length p - 12) = 0xAA" "p ! (length p - 11) = 0xAA"
  shows "segment_write s sgm q = Some (s, sgm, ELEOS)"
  using assms looks_eos_payload segment_write_looks_eos by blast

theorem segment_payload_mimics_end_witness:
  "\<exists>s' sgm'. segment_write demo_open_os demo_seg (replicate 12 0xAA) = Some (s', sgm', 12) \<and>
     segment_write s' sgm' [1] = Some (s', sgm', ELEOS)"
proof -
  let ?p = "replicate 12 (0xAA :: byte)"
  let ?s = "after_write demo_open_os demo_seg [] ?p" and ?g = "demo_seg\<lparr>sg_w := next_pair demo_seg ?p\<rparr>"
  note W = segment_write_ok [OF demo_open(2), of ?p]
  have 1: "segment_write demo_open_os demo_seg ?p = Some (?s, ?g, 12)" using W(1) by (simp add: looks_eos_def)
  have "seg_rep ?s ?g ([] @ [?p])" using W(2) by (simp add: looks_eos_def seg_ok_def)
  from segment_payload_mimics_end [OF this, of "[1]"] 1 show ?thesis by auto
qed

text \<open>C38. The index mapping can be too small for the frames the data file still takes: a write
  that fits into the data file but finds the index mapping full stores outside the mapping.\<close>

theorem segment_write_beyond_index:
  assumes "seg_rep s sgm ps" "\<not> looks_eos ps" "fits sgm ps p" "index_room s sgm \<le> length ps"
  shows "segment_write s sgm p = None"
  using segment_write_run [OF assms(1-3)] assms(4) by simp

lemma looks_eos_empty_payload: "\<not> looks_eos (ps @ [[]])"
proof -
  have "slice (frames (ps @ [[]])) (length (frames (ps @ [[]])) - 12) 2 =
        slice (header_bytes (frame_header []) @ []) 0 2"
    using slice_append_right [of "frames ps" "header_bytes (frame_header [])" 0 2] by (simp add: frame_bytes_def)
  then show ?thesis
    by (simp only: looks_eos_def tail_flags_def header_bytes_flags)
      (simp add: frame_header_def HEADER_FLAGS_READY_def HEADER_FLAGS_EOS_def)
qed

lemma looks_eos_empties: "\<not> looks_eos (replicate n [])"
proof (cases n)
  case 0
  then show ?thesis by (simp add: looks_eos_def)
next
  case (Suc m)
  then have "replicate n [] = replicate m [] @ [[] :: bytes]" by (simp add: replicate_append_same)
  then show ?thesis using looks_eos_empty_payload by simp
qed

lemma frames_empties: "length (frames (replicate n [])) = 12 * n"
  by (induction n) simp_all

lemma demo_empties:
  "n \<le> 32 \<Longrightarrow> \<exists>s sgm. seg_log ''d'' (s, sgm) (replicate n []) \<and> sg_size sgm = 1024 \<and> index_room s sgm = 32 \<and>
     sg_base_offset sgm = 0 \<and> outcomes s = [] \<and> page_size s = 256 \<and> map_base s = map_base demo_os \<and> dirs s = [''d'']"
proof (induction n)
  case 0
  have "SGM_RDCMT \<noteq> 0" by (simp add: SGM_RDCMT_def)
  then have "seg_log ''d'' (demo_open_os, demo_seg) (replicate 0 [])"
    using demo_open(2) by (simp add: seg_log_def)
  moreover have "outcomes demo_open_os = []" "page_size demo_open_os = 256" "map_base demo_open_os = map_base demo_os"
    "dirs demo_open_os = [''d'']"
    by (simp_all add: demo_open_os_def mapped_state_def demo_os_def ensured_def)
  ultimately show ?case by (intro exI [of _ demo_open_os] exI [of _ demo_seg]) simp
next
  case (Suc n)
  then obtain s sgm where IH: "seg_log ''d'' (s, sgm) (replicate n [])" "sg_size sgm = 1024" "index_room s sgm = 32"
    "sg_base_offset sgm = 0" "outcomes s = []" "page_size s = 256" "map_base s = map_base demo_os" "dirs s = [''d'']"
    by auto
  let ?s = "after_write s sgm (replicate n []) []" and ?g = "sgm\<lparr>sg_w := next_pair sgm []\<rparr>"
  have ok: "seg_ok s ''d'' sgm (replicate n [])" using IH by (simp add: seg_log_def)
  have fit: "fits sgm (replicate n []) []" "n < 32" using Suc.prems IH by (simp_all add: fits_def frames_empties)
  have "seg_ok ?s ''d'' ?g (replicate n [] @ [[]])"
    using segment_write_ok(2) [OF ok looks_eos_empties fit(1)] fit IH by simp
  then have "seg_log ''d'' (?s, ?g) (replicate (Suc n) [])"
    using IH by (simp add: seg_log_def replicate_append_same)
  moreover have "index_room ?s ?g = 32" using index_room_write [OF seg_okD [OF ok]] fit IH by simp
  ultimately show ?case
    using IH by (intro exI [of _ ?s] exI [of _ ?g]) (simp add: after_write_def)
qed

theorem segment_write_beyond_index_witness:
  "\<exists>s sgm. seg_rep s sgm (replicate 32 []) \<and> sg_size sgm = 1024 \<and> segment_write s sgm [] = None"
proof -
  from demo_empties [of 32] obtain s sgm where
    "seg_log ''d'' (s, sgm) (replicate 32 [])" "sg_size sgm = 1024" "index_room s sgm = 32" by auto
  moreover from this have "seg_rep s sgm (replicate 32 [])" by (simp add: seg_log_def seg_ok_def)
  moreover have "fits sgm (replicate 32 []) []" using calculation by (simp add: fits_def frames_empties)
  ultimately show ?thesis
    using segment_write_beyond_index [OF _ looks_eos_empties, of s sgm 32 "[]"] by auto
qed

section \<open>Properties of reading\<close>

text \<open>C8. A read delivers frame number \<open>i\<close> exactly when it has been written and, in a
  segment opened with \<open>SGM_RDCMT\<close>, starts below the synchronised offset; the frame then
  points at the payload that was written and the result is its size. Otherwise the
  result is \<open>ELNORD\<close> and the caller's frame is left alone.\<close>

theorem segment_read_delivers:
  assumes "seg_rep s sgm ps \<or> seg_eos s sgm ps"
  shows "if unat i < length ps \<and> committed sgm ps (unat i)
    then (\<exists>fr'. segment_read s sgm i fr = Some (int (length (ps ! unat i)), fr') \<and>
            frame_payload s fr' = Some (ps ! unat i) \<and>
            frame_payload_size s fr' = Some (word_of_nat (length (ps ! unat i))))
    else segment_read s sgm i fr = Some (ELNORD, fr)"
proof -
  have "seg_layout s sgm ps" using assms by (auto simp: seg_rep_def seg_eos_def)
  then show ?thesis using segment_read_frame [OF assms, of i fr] frame_at_payload by auto
qed

theorem segment_read_delivers_witness:
  "\<exists>s sgm. (\<exists>fr'. segment_read s sgm 0 null_frame = Some (3, fr') \<and> frame_payload s fr' = Some [1, 2, 3]) \<and>
     segment_read s sgm 1 null_frame = Some (ELNORD, null_frame)"
proof -
  let ?s = "after_write demo_open_os demo_seg [] [1, 2, 3]"
    and ?g = "demo_seg\<lparr>sg_w := next_pair demo_seg [1, 2, 3]\<rparr>"
  have rep: "seg_rep ?s ?g [[1, 2, 3]]"
    using segment_write_ok(2) [OF demo_open(2), of "[1, 2, 3]"] by (simp add: looks_eos_def seg_ok_def)
  have "committed ?g [[1, 2, 3]] 0" by (simp add: committed_def SGM_RDCMT_def)
  then show ?thesis
    using segment_read_delivers [OF disjI1 [OF rep], of 0 null_frame]
      segment_read_delivers [OF disjI1 [OF rep], of 1 null_frame]
    by (intro exI [of _ ?s] exI [of _ ?g]) auto
qed

text \<open>C10. On a segment opened without \<open>SGM_RDCMT\<close>, a sequence of writes for which the data file and the
  index mapping have room, and none of which but the last leaves bytes that look like an end mark, succeeds and
  returns the sizes of the payloads; after it, what could be read before reads the same, the new
  payloads follow in order, and nothing else can be read.\<close>

theorem segment_log_behaviour:
  assumes "seg_log dir st ps" "seg_accept st ps qs"
  shows "\<exists>st'. write_all seg_wr st qs = Some (st', map (\<lambda>q. int (length q)) qs) \<and> seg_log dir st' (ps @ qs) \<and>
    (\<forall>off. unat off < length ps \<longrightarrow> seg_rd st' off = seg_rd st off) \<and>
    (\<forall>off. length ps \<le> unat off \<and> unat off < length ps + length qs \<longrightarrow>
       seg_rd st' off = Some (int (length (qs ! (unat off - length ps))), Some (qs ! (unat off - length ps)))) \<and>
    (\<forall>off. length ps + length qs \<le> unat off \<longrightarrow> seg_rd st' off = Some (ELNORD, None))"
  using assms by (rule sl.write_all_reads)

theorem segment_log_behaviour_witness:
  "\<exists>st'. write_all seg_wr (demo_open_os, demo_seg) [zeros 20, [4 :: byte]] = Some (st', [20, 1]) \<and>
     seg_rd st' 0 = Some (20, Some (zeros 20)) \<and> seg_rd st' 1 = Some (1, Some [4]) \<and> seg_rd st' 2 = Some (ELNORD, None)"
proof -
  let ?qs = "[zeros 20, [4 :: byte]]"
  have l: "seg_log ''d'' (demo_open_os, demo_seg) []"
    using demo_open(2) by (simp add: seg_log_def SGM_RDCMT_def)
  have "\<not> looks_eos (take k ?qs)" if "k < 2" for k
    using that looks_eos_zeros [of 20] by (auto simp: less_2_cases_iff) (simp add: looks_eos_def)
  then have "seg_accept (demo_open_os, demo_seg) [] ?qs" by (simp add: seg_accept_def)
  from segment_log_behaviour [OF l this] obtain st' where
    w: "write_all seg_wr (demo_open_os, demo_seg) ?qs = Some (st', [20, 1])"
      "\<And>off. unat off < 2 \<Longrightarrow> seg_rd st' off = Some (int (length (?qs ! unat off)), Some (?qs ! unat off))"
      "\<And>off. 2 \<le> unat off \<Longrightarrow> seg_rd st' off = Some (ELNORD, None)"
    by (auto simp del: write_all.simps simp: numeral_2_eq_2)
  show ?thesis using w(1) w(2) [of 0] w(2) [of 1] w(3) [of 2] by (intro exI [of _ st']) simp
qed

section \<open>Properties of opening and closing\<close>

text \<open>C11. Opening a segment whose data file holds the frames \<open>ps\<close> and whose index file has their offsets and
  at least one free entry (missing files hold nothing) succeeds, recovers the write position behind
  the last frame and yields a segment that holds \<open>ps\<close>; no other file is changed. The synchronised position
  starts out as the write position; when what the files hold is also on disk it is right, and the opened segment has
  the whole invariant.\<close>

theorem segment_open_restores:
  assumes "env_ok s dir base sz" "seg_stored s dir base sz ps"
  shows "\<exists>s' sgm. segment_open s dir base sz flags = Some (s', 0, Some sgm) \<and> seg_rep s' sgm ps \<and>
     sg_flags sgm = flags \<and> segment_base_offset sgm = base \<and>
     unat (op_index (sg_w sgm)) = length ps \<and> unat (op_data (sg_w sgm)) = length (frames ps) \<and> sg_s sgm = sg_w sgm \<and>
     (clean_files s dir base sz ps \<longrightarrow> seg_ok s' dir sgm ps) \<and>
     (\<forall>q. q \<notin> {data_path dir base, index_path dir base} \<longrightarrow> files s' q = files s q)"
proof -
  from segment_open_recovers [OF assms, of flags] obtain fd fi w where
    run: "segment_open s dir base sz flags = Some (mapped_state s dir base fd fi, 0, Some (opened_segment dir base sz flags w))"
    and rep: "seg_rep (mapped_state s dir base fd fi) (opened_segment dir base sz flags w) ps" by blast
  let ?s = "mapped_state s dir base fd fi" and ?g = "opened_segment dir base sz flags w"
  have "seg_ok ?s dir ?g ps" if "clean_files s dir base sz ps"
    using segment_open_ok [OF assms that, of flags] run by auto
  moreover have "unat (op_index w) = length ps" "unat (op_data w) = length (frames ps)"
    using rep by (auto simp: seg_rep_def opened_segment_def elim!: seg_layoutE)
  moreover have "files ?s q = files s q" if "q \<notin> {data_path dir base, index_path dir base}" for q
    using that by (simp add: mapped_state_def)
  ultimately show ?thesis using run rep
    by (intro exI [of _ ?s] exI [of _ ?g]) (simp add: segment_base_offset_def, simp add: opened_segment_def)
qed

lemma closed_stored:
  assumes lay: "seg_layout s sgm ps" and bk: "seg_backed s dir sgm ps"
    and room: "8 * length ps + 8 \<le> index_len (sg_size sgm)"
  shows "seg_stored s dir (sg_base_offset sgm) (sg_size sgm) ps"
proof -
  from bk show ?thesis
  proof (rule seg_backedE)
    fix fd fi
    assume f: "files s (data_path dir (sg_base_offset sgm)) = Some fd" "files s (index_path dir (sg_base_offset sgm)) = Some fi"
      "sg_buffer sgm = data_path dir (sg_base_offset sgm)" "sg_index sgm = index_path dir (sg_base_offset sgm)"
      "fsize fd = unat (sg_size sgm)" "fsize fi = index_len (sg_size sgm)" "fsize fi \<le> length (fbytes fi)"
      and z: "\<forall>i. 8 * length ps \<le> i \<and> i < length (fbytes fi) \<longrightarrow> fbytes fi ! i = 0"
      and e: "ps = [] \<longrightarrow> slice (fbytes fd) 0 2 = zeros 2 \<and> slice (fdisk fd) 0 2 = zeros 2"
    from lay f have fr: "length (fbytes fd) = unat (sg_size sgm)" "take (length (frames ps)) (fbytes fd) = frames ps"
        "take (8 * length ps) (fbytes fi) = index_bytes ps"
      by (auto elim!: seg_layoutE)
    have zero: "\<And>i. 8 * length ps \<le> i \<Longrightarrow> i < index_len (sg_size sgm) \<Longrightarrow> fbytes fi ! i = 0"
      using z f(6,7) by (metis less_le_trans)
    show ?thesis
      using recovered_stored [OF lay bk room f(1,5) _ fr(2) f(2,6) _ fr(3) zero] fr(1) f(6,7) e by simp
  qed
qed

text \<open>The files of the small segment with one frame in it.\<close>

lemma demo_env_any:
  "outcomes s = [] \<Longrightarrow> page_size s = 256 \<Longrightarrow> dirs s = [''d''] \<Longrightarrow> env_ok s ''d'' 0 1024"
  by (simp add: env_ok_def ensured_def size_of_u32_def)

lemma demo_one:
  obtains s sgm where "segment_write demo_open_os demo_seg [1, 2, 3] = Some (s, sgm, 3)" "seg_ok s ''d'' sgm [[1, 2, 3]]"
    "sg_size sgm = 1024" "sg_base_offset sgm = 0" "outcomes s = []" "page_size s = 256" "map_base s = map_base demo_os"
    "env_ok s ''d'' 0 1024"
proof -
  let ?s = "after_write demo_open_os demo_seg [] [1, 2, 3]" and ?g = "demo_seg\<lparr>sg_w := next_pair demo_seg [1, 2, 3]\<rparr>"
  have o: "outcomes ?s = []" "page_size ?s = 256" "map_base ?s = map_base demo_os" "dirs ?s = [''d'']"
    by (simp_all add: after_write_def demo_open_os_def mapped_state_def demo_os_def ensured_def)
  show ?thesis
    using that [of ?s ?g] segment_write_ok [OF demo_open(2), of "[1, 2, 3]"] o demo_env_any [OF o(1,2,4)]
    by (simp add: looks_eos_def)
qed

theorem segment_open_restores_witness:
  "\<exists>s sgm s' sgm'. segment_write demo_open_os demo_seg [1, 2, 3] = Some (s, sgm, 3) \<and>
     segment_open s ''d'' 0 1024 0 = Some (s', 0, Some sgm') \<and> seg_rep s' sgm' [[1, 2, 3]] \<and> op_index (sg_w sgm') = 1"
proof -
  obtain s sgm where d: "segment_write demo_open_os demo_seg [1, 2, 3] = Some (s, sgm, 3)" "seg_ok s ''d'' sgm [[1, 2, 3]]"
    "sg_size sgm = 1024" "sg_base_offset sgm = 0" "env_ok s ''d'' 0 1024" by (rule demo_one)
  then have "seg_stored s ''d'' 0 1024 [[1, 2, 3]]"
    using closed_stored [of s sgm "[[1, 2, 3]]" "''d''"] by (simp add: seg_ok_def seg_rep_def)
  from segment_open_restores [OF d(5) this, of 0] obtain s' sgm' where
    o: "segment_open s ''d'' 0 1024 0 = Some (s', 0, Some sgm')" "seg_rep s' sgm' [[1, 2, 3]]" "unat (op_index (sg_w sgm')) = 1" by auto
  have "op_index (sg_w sgm') = 1" using o(3) word_unat_eq_iff [of "op_index (sg_w sgm')" 1] by simp
  with o d(1) show ?thesis by blast
qed

text \<open>C29. Closing a segment of less than 2 GiB on a machine where no call fails returns 0, and opening it
  again gives a segment with the same contents, as long as the index file has a free entry left.\<close>

theorem segment_close_open:
  assumes ok: "seg_ok s dir sgm ps" and out: "outcomes s = []"
    and mp: "mapping_ok s k (sg_buffer sgm)" "mapping_ok s k (sg_index sgm)"
    and room: "8 * length ps + 8 \<le> index_len (sg_size sgm)" and sm: "unat (sg_size sgm) < 2 ^ 31"
    and env: "env_ok s dir (sg_base_offset sgm) (sg_size sgm)"
  shows "\<exists>s1 s2 sgm'. segment_close s sgm = (s1, None, 0) \<and>
     segment_open s1 dir (sg_base_offset sgm) (sg_size sgm) flags = Some (s2, 0, Some sgm') \<and> seg_rep s2 sgm' ps"
proof -
  obtain s1 g1 rc where run: "segment_sync s sgm = (s1, g1, rc)" by (metis prod.exhaust)
  note S = segment_sync_ok [OF ok out mp run]
  have lay: "seg_layout s sgm ps" and w: "unat (op_data (sg_w sgm)) = length (frames ps)"
    and sy: "synced s sgm" using ok by (auto simp: seg_ok_def seg_rep_def)
  have b: "length (frames ps) < 2 ^ 31" and wi: "unat (op_index (sg_w sgm)) = length ps"
    and ne: "sg_buffer sgm \<noteq> sg_index sgm"
    using lay sm by (auto elim!: seg_layoutE)
  have "unat (op_data (sg_w sgm)) < 2 ^ 31" "unat (op_index (sg_w sgm)) < 2 ^ 31"
    using b w wi length_frames_ge [of ps] by simp_all
  from segment_sync_rc(1) [OF out synced_le [OF sy] rep_in_mapping [OF disjI1 [OF seg_okD [OF ok]]] ne mp this run] have "segment_close s sgm = (s1, None, 0)"
    by (simp add: segment_close_def run)
  moreover have eq: "sg_base_offset g1 = sg_base_offset sgm" "sg_size g1 = sg_size sgm"
    by (subst S(5), simp)+
  have "seg_stored s1 dir (sg_base_offset sgm) (sg_size sgm) ps"
    using closed_stored [of s1 g1 ps dir] S(1) room eq by (simp add: seg_ok_def seg_rep_def)
  moreover have "env_ok s1 dir (sg_base_offset sgm) (sg_size sgm)"
  proof -
    have "page_size s1 = page_size s" "dirs s1 = dirs s" "\<And>q. files s1 q = None \<longleftrightarrow> files s q = None"
      using S(4) by (auto simp: same_bytes_def) (metis option_rel_Some1 option_rel_Some2 not_None_eq)+
    moreover from this have "dirs (ensured s1 dir) = dirs (ensured s dir)"
      by (simp add: ensured_def)
    ultimately show ?thesis using env S(3) by (simp add: env_ok_def)
  qed
  ultimately show ?thesis using segment_open_recovers by blast
qed

lemma demo_mapping: "page_size s = 256 \<Longrightarrow> map_base s = map_base demo_os \<Longrightarrow> mapping_ok s 8 p"
  by (simp add: mapping_ok_def demo_os_def)

theorem segment_close_open_witness:
  "\<exists>s sgm s1 s2 sgm'. segment_write demo_open_os demo_seg [1, 2, 3] = Some (s, sgm, 3) \<and> segment_close s sgm = (s1, None, 0) \<and>
     segment_open s1 ''d'' 0 1024 0 = Some (s2, 0, Some sgm') \<and> seg_rep s2 sgm' [[1, 2, 3]]"
proof -
  obtain s sgm where d: "segment_write demo_open_os demo_seg [1, 2, 3] = Some (s, sgm, 3)" "seg_ok s ''d'' sgm [[1, 2, 3]]"
    "sg_size sgm = 1024" "sg_base_offset sgm = 0" "outcomes s = []" "page_size s = 256" "map_base s = map_base demo_os"
    "env_ok s ''d'' 0 1024" by (rule demo_one)
  from segment_close_open [OF d(2,5) demo_mapping [OF d(6,7)] demo_mapping [OF d(6,7)], of 0] d(3,4,8)
  have "\<exists>s1 s2 sgm'. segment_close s sgm = (s1, None, 0) \<and>
     segment_open s1 ''d'' 0 1024 0 = Some (s2, 0, Some sgm') \<and> seg_rep s2 sgm' [[1, 2, 3]]" by simp
  with d(1) show ?thesis by blast
qed

text \<open>C39. A segment whose frames use up every entry of the index file cannot be opened again: the
  scan for the write position fails with \<open>ELWOFFS\<close>, although the data file may have room.\<close>

theorem segment_open_full_index:
  assumes ok: "seg_ok s dir sgm ps" and env: "env_ok s dir (sg_base_offset sgm) (sg_size sgm)"
    and full: "index_len (sg_size sgm) div 8 \<le> length ps" and ne: "ps \<noteq> []"
  shows "\<exists>s'. segment_open s dir (sg_base_offset sgm) (sg_size sgm) flags = Some (s', ELWOFFS, None)"
proof -
  have lay: "seg_layout s sgm ps" and bk: "seg_backed s dir sgm ps"
    using ok by (auto simp: seg_ok_def seg_rep_def)
  from bk obtain fd fi where f: "files s (data_path dir (sg_base_offset sgm)) = Some fd" "files s (index_path dir (sg_base_offset sgm)) = Some fi"
      "sg_buffer sgm = data_path dir (sg_base_offset sgm)" "sg_index sgm = index_path dir (sg_base_offset sgm)"
      "fsize fd = unat (sg_size sgm)" "fsize fi = index_len (sg_size sgm)" "fsize fi \<le> length (fbytes fi)"
    by (rule seg_backedE)
  from lay f have fr: "length (fbytes fd) = unat (sg_size sgm)" "take (length (frames ps)) (fbytes fd) = frames ps"
      "length (frames ps) + 12 \<le> unat (sg_size sgm)" "take (8 * length ps) (fbytes fi) = index_bytes ps"
    by (auto elim!: seg_layoutE)
  let ?n = "index_len (sg_size sgm) div 8 * 8"
  have "take ?n (take (8 * length ps) (fbytes fi)) = take ?n (index_bytes ps)" using fr(4) by (simp only:)
  moreover have "?n \<le> 8 * length ps" using full by simp
  ultimately have "take ?n (fbytes fi) = take ?n (index_bytes ps)" by (simp add: min_absorb1)
  then show ?thesis
    using segment_open_index_full [OF env f(1,5) _ f(2,6) _ fr(2,3) ne _ full] fr(1) f(6,7) by simp
qed

theorem segment_open_full_index_witness:
  "\<exists>s sgm s'. seg_ok s ''d'' sgm (replicate 10 []) \<and> sg_size sgm = 1024 \<and>
     segment_open s ''d'' 0 1024 0 = Some (s', ELWOFFS, None)"
proof -
  from demo_empties [of 10] obtain s sgm where
    s: "seg_log ''d'' (s, sgm) (replicate 10 [])" "sg_size sgm = 1024" "sg_base_offset sgm = 0"
      "outcomes s = []" "page_size s = 256" "dirs s = [''d'']" by auto
  then have ok: "seg_ok s ''d'' sgm (replicate 10 [])" by (simp add: seg_log_def)
  have "env_ok s ''d'' (sg_base_offset sgm) (sg_size sgm)" using demo_env_any s by simp
  from segment_open_full_index [OF ok this, of 0] s(2,3) ok show ?thesis by auto
qed

section \<open>Properties of synchronisation\<close>


text \<open>A power failure that loses the entries of the files: the segment, synchronised or not, is empty afterwards.\<close>

lemma sync_entries_lost:
  assumes "env_ok s dir base sz" "8 \<le> index_len sz" "dir \<in> set (dirs s)"
  shows "\<exists>s' s3 sgm. crash s s' \<and> segment_open s' dir base sz flags = Some (s3, 0, Some sgm) \<and> seg_rep s3 sgm []"
proof -
  let ?s' = "s\<lparr>files := Map.empty\<rparr>"
  have "crash s ?s'" by (simp add: crash_def)
  moreover have "env_ok ?s' dir base sz" using assms(1,3) by (simp add: env_ok_def ensured_def)
  then have "seg_stored ?s' dir base sz []" using assms(2) by (intro seg_stored_fresh) simp_all
  ultimately show ?thesis using segment_open_recovers [of ?s' dir base sz "[]" flags] \<open>env_ok ?s' dir base sz\<close> by blast
qed

text \<open>The worst power failure: every byte that was not synchronised is lost.\<close>

definition lose_file :: "os \<Rightarrow> mfile \<Rightarrow> mfile" where
  "lose_file s f = (let d = map (\<lambda>i. fdisk f ! i) [0..<fsize f] in
     \<lparr>fsize = fsize f, fbytes = d @ zeros (page_round s (fsize f) - fsize f), fdisk = d\<rparr>)"

definition power_loss :: "os \<Rightarrow> os" where
  "power_loss s = s\<lparr>files := map_option (lose_file s) \<circ> files s\<rparr>"

lemma crash_power_loss: "0 < page_size s \<Longrightarrow> crash s (power_loss s)"
proof -
  assume pg: "0 < page_size s"
  have "crash_file s f (lose_file s f)" for f
    using page_round_ge [OF pg, of "fsize f"] by (auto simp: crash_file_def lose_file_def Let_def nth_append)
  then show ?thesis by (auto simp: crash_def power_loss_def)
qed

lemma entry_kept_power_loss: "entry_kept s (power_loss s) q"
  by (cases "files s q") (simp_all add: entry_kept_def power_loss_def lose_file_def Let_def)


text \<open>C40. The size of the synchronised area is returned as a C \<open>int\<close>: when the bytes from the page of
  the synchronised position to the written position are 2 GiB or more, \<open>segment_sync\<close> brings them to the disk but returns a
  negative value, moves the synchronised position of the data only, and leaves the index file alone.\<close>

theorem segment_sync_large_fails:
  assumes ok: "seg_ok s dir sgm ps" and out: "outcomes s = []" and mp: "mapping_ok s k (sg_buffer sgm)"
    and large: "2 ^ 31 \<le> unat (op_data (sg_w sgm)) - (unat (op_data (sg_s sgm)) - unat (op_data (sg_s sgm)) mod 2 ^ k)"
  shows "\<exists>s' sgm' rc. segment_sync s sgm = (s', sgm', rc) \<and> rc < 0 \<and> seg_ok s' dir sgm' ps \<and>
     op_data (sg_s sgm') = op_data (sg_w sgm) \<and> op_index (sg_s sgm') = op_index (sg_s sgm) \<and>
     files s' (sg_index sgm) = files s (sg_index sgm)"
proof -
  have rep: "seg_rep s sgm ps" and sy: "synced s sgm" and bk: "seg_backed s dir sgm ps" using ok by (simp_all add: seg_ok_def)
  from rep obtain fd fi where f: "files s (sg_buffer sgm) = Some fd" "files s (sg_index sgm) = Some fi" "sg_buffer sgm \<noteq> sg_index sgm"
    and w: "unat (op_data (sg_w sgm)) \<le> length (fbytes fd)" by (auto simp: seg_rep_def elim!: seg_layoutE)
  have le: "op_data (sg_s sgm) \<le> op_data (sg_w sgm)" "op_index (sg_s sgm) \<le> op_index (sg_w sgm)"
    and od: "on_disk (unat (op_data (sg_s sgm))) fd" "on_disk (8 * unat (op_index (sg_s sgm))) fi"
    using sy f by (simp_all add: synced_def)
  let ?lo = "unat (op_data (sg_s sgm)) - unat (op_data (sg_s sgm)) mod 2 ^ k"
  obtain n where n: "?lo + unat n = unat (op_data (sg_w sgm))"
    and d: "sync_data s sgm = (s\<lparr>files := (files s)(sg_buffer sgm \<mapsto> sync_file ?lo (unat n) fd)\<rparr>,
      sgm\<lparr>sg_s := (sg_s sgm)\<lparr>op_data := op_data (sg_w sgm)\<rparr>\<rparr>, int_of_size n)"
    using sync_data_ok [OF out f(1) mp le(1) w] by blast
  let ?s = "s\<lparr>files := (files s)(sg_buffer sgm \<mapsto> sync_file ?lo (unat n) fd)\<rparr>"
    and ?g = "sgm\<lparr>sg_s := (sg_s sgm)\<lparr>op_data := op_data (sg_w sgm)\<rparr>\<rparr>"
  have "2 ^ 31 \<le> unat n" using large n by linarith
  moreover have "unat (op_data (sg_w sgm)) < 2 ^ 32" using unsigned_less [of "op_data (sg_w sgm)", where ?'a = nat] by simp
  then have "unat n < 2 ^ 32" using n by linarith
  ultimately have "int_of_size n < 0" by (rule int_of_size_neg)
  then have run: "segment_sync s sgm = (?s, ?g, int_of_size n)" by (simp add: segment_sync_def d)
  have same: "same_bytes s ?s" using f by (simp add: same_bytes_def)
  have "on_disk (unat (op_data (sg_w sgm))) (sync_file ?lo (unat n) fd)" using n by (intro on_disk_sync [OF od(1)]) simp_all
  then have "synced ?s ?g" using f od(2) le by (simp add: synced_def)
  moreover have "seg_rep ?s ?g ps" using rep same_bytes_layout [OF same, of sgm ps ?g] by (auto simp: seg_rep_def)
  ultimately have "seg_ok ?s dir ?g ps" using same_bytes_backed [OF same bk] by (simp add: seg_ok_def)
  then show ?thesis using run \<open>int_of_size n < 0\<close> f(3) by (intro exI [of _ ?s] exI [of _ ?g] exI [of _ "int_of_size n"]) simp
qed

text \<open>A segment of 3 GiB with a payload of 2 GiB.\<close>

lemma large_open:
  obtains s sgm where "segment_open demo_os ''d'' 0 0xC0000000 0 = Some (s, 0, Some sgm)" "seg_ok s ''d'' sgm []"
    "sg_size sgm = 0xC0000000" "sg_s sgm = \<lparr>op_index = 0, op_data = 0\<rparr>" "outcomes s = []" "page_size s = 256"
    "map_base s = map_base demo_os"
proof -
  have env: "env_ok demo_os ''d'' 0 0xC0000000" by (simp add: env_ok_def demo_os_def ensured_def size_of_u32_def)
  have len: "index_len 0xC0000000 = 268435456" by (simp add: index_len_def)
  have none: "files demo_os q = None" for q by (simp add: demo_os_def)
  have st: "seg_stored demo_os ''d'' 0 0xC0000000 []" using none len by (intro seg_stored_fresh [OF env]) simp_all
  have pr: "2 \<le> page_round demo_os (unat (0xC0000000 :: u32))"
    using page_round_ge [of demo_os "unat (0xC0000000 :: u32)"] by (simp add: demo_os_def)
  then have cl: "clean_files demo_os ''d'' 0 0xC0000000 []"
    using clean_fresh [of demo_os] by (simp add: clean_files_def none opened_file_def) (simp add: fresh_file_def slice_def demo_os_def)
  from segment_open_ok [OF env st cl, of 0] obtain s w where
    o: "segment_open demo_os ''d'' 0 0xC0000000 0 = Some (s, 0, Some (opened_segment ''d'' 0 0xC0000000 0 w))"
      "seg_ok s ''d'' (opened_segment ''d'' 0 0xC0000000 0 w) []" "page_size s = page_size demo_os" "map_base s = map_base demo_os"
      "outcomes s = []" by blast
  have "unat (op_data w) = 0" "unat (op_index w) = 0"
    using o(2) by (auto simp: seg_ok_def seg_rep_def opened_segment_def elim!: seg_layoutE)
  then have "w = \<lparr>op_index = 0, op_data = 0\<rparr>" by (cases w) (simp add: unat_eq_0)
  then show ?thesis using o by (intro that [OF o(1,2)]) (simp_all add: opened_segment_def, simp add: demo_os_def)
qed

theorem segment_sync_large_fails_witness:
  "\<exists>s sgm s1 sgm1 s2 sgm2 rc. segment_open demo_os ''d'' 0 0xC0000000 0 = Some (s, 0, Some sgm) \<and>
     segment_write s sgm (zeros (2 ^ 31)) = Some (s1, sgm1, 2 ^ 31) \<and>
     segment_sync s1 sgm1 = (s2, sgm2, rc) \<and> rc < 0 \<and> op_index (sg_s sgm2) \<noteq> op_index (sg_w sgm2)"
proof -
  obtain s sgm where o: "segment_open demo_os ''d'' 0 0xC0000000 0 = Some (s, 0, Some sgm)" "seg_ok s ''d'' sgm []"
    "sg_size sgm = 0xC0000000" "sg_s sgm = \<lparr>op_index = 0, op_data = 0\<rparr>" "outcomes s = []" "page_size s = 256"
    "map_base s = map_base demo_os" by (rule large_open)
  define p where "p = zeros (2 ^ 31)"
  have len: "length p = 2 ^ 31" by (simp add: p_def)
  have room: "0 < index_room s sgm" using o(2,3) page_round_ge [of s 268435456] o(6)
    by (auto simp: seg_ok_def index_room_def bytes_of_def index_len_def elim!: seg_backedE)
  have fit: "fits sgm [] p" using len o(3) by (simp add: fits_def)
  note W = segment_write_ok [OF o(2) _ fit, simplified, OF _ room]
  have ne: "\<not> looks_eos []" by (simp add: looks_eos_def)
  let ?s = "after_write s sgm [] p" and ?g = "sgm\<lparr>sg_w := next_pair sgm p\<rparr>"
  have w: "segment_write s sgm p = Some (?s, ?g, int (length p))" "seg_ok ?s ''d'' ?g [p]" using W ne by simp_all
  have i: "unat (op_index (next_pair sgm p)) = 1" "unat (op_data (next_pair sgm p)) = 12 + 2 ^ 31"
    using next_pair_unat [OF seg_okD [OF o(2)] fit] len by simp_all
  have os: "outcomes ?s = []" "mapping_ok ?s 8 q" for q
    using o(5-7) demo_mapping [of ?s q] by (simp_all add: after_write_def)
  from segment_sync_large_fails [OF w(2) os(1) os(2)] i(2) o(4) obtain s2 sgm2 rc where
    y: "segment_sync ?s ?g = (s2, sgm2, rc)" "rc < 0" "op_index (sg_s sgm2) = 0" "seg_ok s2 ''d'' sgm2 [p]"
    by auto
  have "unat (op_index (sg_w sgm2)) = 1" using y(4) by (auto simp: seg_ok_def seg_rep_def elim!: seg_layoutE)
  then have "op_index (sg_s sgm2) \<noteq> op_index (sg_w sgm2)" using y(3) by auto
  moreover have "segment_write s sgm (zeros (2 ^ 31)) = Some (?s, ?g, 2 ^ 31)" using w(1) len by (simp add: p_def)
  ultimately show ?thesis using o(1) y(1,2) by blast
qed

end
