(* ===== verification/Segment_Writers.thy ===== *)
theory Segment_Writers
  imports Segment_Theorems
begin

text \<open>
  Several threads in \<open>segment_write\<close> (\<^verbatim>\<open>src/src/segment.c\<close>) at the same time. A thread is a
  call of \<open>segment_write\<close> that has got to a certain point; one step is one access to the
  shared memory: the loads of \<open>marked_eos\<close>, the load of the write position, the
  compare-and-swap of \<open>claim\<close>, and each store behind it, where \<open>memcpy\<close> counts as one. The
  threads share the files and the write position of the segment, and take their steps in
  any order. Stores become visible in the order of the program, as on the machines that the
  library targets; the write position is loaded as a whole.
\<close>

section \<open>Threads\<close>

type_synonym store = "string \<times> nat \<times> bytes"

datatype thread =
    Called bytes
  | Marked bytes u64
  | Writable bytes
  | Claiming bytes offset_pair
  | Claiming_eos offset_pair
  | Storing "store list" int
  | Returned int

text \<open>The stores of \<open>header_init\<close>, of \<open>segment_write\<close> behind the claim and of \<open>mark_eos\<close>.\<close>

definition header_init_stores :: "string \<Rightarrow> nat \<Rightarrow> store list" where
  "header_init_stores b hdr =
     [(b, hdr, le_encode 2 (unat HEADER_FLAGS_EMPTY)), (b, hdr + 2, [HEADER_VERSION]), (b, hdr + 3, [HEADER_PAD])]"

definition write_stores :: "segment \<Rightarrow> offset_pair \<Rightarrow> bytes \<Rightarrow> store list" where
  "write_stores sgm cur buf =
     (let w_offset = size_of_u32 (op_data cur);
          payload_offset = w_offset + header_size;
          frame_size = header_size + size_of buf;
          hdr = unat w_offset; b = sg_buffer sgm in
      [(b, unat payload_offset, buf)] @ header_init_stores b hdr @
      [(b, hdr + 8, le_encode 4 (unat (crc32 CRC32_INIT buf))),
       (b, hdr + 4, le_encode 4 (unat (u32_of_size frame_size))),
       (b, hdr, le_encode 2 (unat HEADER_FLAGS_READY)),
       (sg_index sgm, 8 * unat (op_index cur), le_encode 8 (unat w_offset))])"

definition eos_stores_list :: "segment \<Rightarrow> offset_pair \<Rightarrow> store list" where
  "eos_stores_list sgm cur =
     (let w_offset = unat (op_data cur); b = sg_buffer sgm in
      header_init_stores b w_offset @
      [(b, w_offset + 4, le_encode 4 (unat (u32_of_size header_size))),
       (b, w_offset, le_encode 2 (unat HEADER_FLAGS_EOS))])"

fun thread_step :: "os \<Rightarrow> segment \<Rightarrow> thread \<Rightarrow> (os \<times> segment \<times> thread) option" where
  "thread_step s sgm (Called buf) =
     (let w_offset = size_of_u32 (op_data (sg_w sgm)) in
      Some (s, sgm, if w_offset < header_size then Writable buf else Marked buf w_offset))"
| "thread_step s sgm (Marked buf w_offset) = do {
     fl \<leftarrow> ld_u16 s (sg_buffer sgm) (unat (w_offset - header_size));
     Some (s, sgm, if fl = HEADER_FLAGS_EOS then Returned ELEOS else Writable buf) }"
| "thread_step s sgm (Writable buf) =
     (let cur = sg_w sgm;
          frame_size = header_size + size_of buf in
      Some (s, sgm, if header_size + frame_size > size_of_u32 (sg_size sgm) - size_of_u32 (op_data cur)
                    then Claiming_eos cur else Claiming buf cur))"
| "thread_step s sgm (Claiming buf cur) =
     (let new = \<lparr>op_index = op_index cur + 1,
                 op_data = u32_of_size (size_of_u32 (op_data cur) + (header_size + size_of buf))\<rparr>;
          (sgm, rc) = claim sgm cur new in
      Some (s, sgm, if rc \<noteq> 0 then Returned rc else Storing (write_stores sgm cur buf) (ssize (size_of buf))))"
| "thread_step s sgm (Claiming_eos cur) =
     (let new = \<lparr>op_index = op_index cur, op_data = u32_of_size (size_of_u32 (op_data cur) + header_size)\<rparr>;
          (sgm, rc) = claim sgm cur new in
      Some (s, sgm, if rc \<noteq> 0 then Returned rc else Storing (eos_stores_list sgm cur) ELEOS))"
| "thread_step s sgm (Storing [] rc) = Some (s, sgm, Returned rc)"
| "thread_step s sgm (Storing ((p, off, bs) # xs) rc) = do {
     s \<leftarrow> mem_store s p off bs;
     Some (s, sgm, Storing xs rc) }"
| "thread_step s sgm (Returned rc) = None"

section \<open>Interleaving\<close>

type_synonym writers = "os \<times> segment \<times> thread list"

fun running :: "thread \<Rightarrow> bool" where
  "running (Returned rc) = False"
| "running t = True"

inductive write_step :: "writers \<Rightarrow> writers \<Rightarrow> bool" where
  "i < length ts \<Longrightarrow> thread_step s sgm (ts ! i) = Some (s', sgm', t) \<Longrightarrow>
   write_step (s, sgm, ts) (s', sgm', ts[i := t])"

inductive_cases write_stepE: "write_step (s, sgm, ts) st'"

text \<open>Many steps, with the numbers of the threads that take them.\<close>

inductive write_run :: "writers \<Rightarrow> nat list \<Rightarrow> writers \<Rightarrow> bool" for st where
  start: "write_run st [] st"
| step: "write_run st is (s, sgm, ts) \<Longrightarrow> i < length ts \<Longrightarrow> thread_step s sgm (ts ! i) = Some (s', sgm', t) \<Longrightarrow>
   write_run st (is @ [i]) (s', sgm', ts[i := t])"

text \<open>A thread that has not returned but has no step is about to access memory outside of its mapping.\<close>

definition faulty :: "writers \<Rightarrow> bool" where
  "faulty st \<longleftrightarrow> (case st of (s, sgm, ts) \<Rightarrow> \<exists>t \<in> set ts. running t \<and> thread_step s sgm t = None)"

definition finished :: "writers \<Rightarrow> bool" where
  "finished st \<longleftrightarrow> (case st of (s, sgm, ts) \<Rightarrow> \<forall>t \<in> set ts. \<not> running t)"

lemma write_run_steps: "write_run st is st' \<Longrightarrow> write_step\<^sup>*\<^sup>* st st'"
proof (induction rule: write_run.induct)
  case (step "is" s sgm ts i s' sgm' t)
  then show ?case using write_step.intros by (metis rtranclp.rtrancl_into_rtrancl)
qed simp

lemma write_steps_run: "write_step\<^sup>*\<^sup>* st st' \<Longrightarrow> \<exists>is. write_run st is st'"
proof (induction rule: rtranclp_induct)
  case base
  then show ?case using write_run.start by blast
next
  case (step st1 st2)
  obtain s sgm ts where st1: "st1 = (s, sgm, ts)" by (cases st1)
  from step(2) [unfolded st1] step(3) st1 show ?case by (auto elim!: write_stepE intro: write_run.step)
qed

section \<open>A thread alone\<close>

partial_function (option) thread_run :: "os \<Rightarrow> segment \<Rightarrow> thread \<Rightarrow> (os \<times> segment \<times> int) option" where
  "thread_run s sgm t = (case t of
     Returned rc \<Rightarrow> Some (s, sgm, rc)
   | _ \<Rightarrow> do { (s, sgm, t) \<leftarrow> thread_step s sgm t; thread_run s sgm t })"

fun run_stores :: "os \<Rightarrow> store list \<Rightarrow> os option" where
  "run_stores s [] = Some s"
| "run_stores s ((p, off, bs) # xs) = do { s \<leftarrow> mem_store s p off bs; run_stores s xs }"

lemma thread_run_Returned [simp]: "thread_run s sgm (Returned rc) = Some (s, sgm, rc)"
  by (subst thread_run.simps) simp

lemma thread_run_running: "running t \<Longrightarrow> thread_run s sgm t = do { (s, sgm, t) \<leftarrow> thread_step s sgm t; thread_run s sgm t }"
  by (subst thread_run.simps) (cases t; simp)

lemma thread_run_stores [simp]: "thread_run s sgm (Storing xs rc) = do { s \<leftarrow> run_stores s xs; Some (s, sgm, rc) }"
proof (induction xs arbitrary: s)
  case (Cons x xs)
  obtain p off bs where "x = (p, off, bs)" by (cases x)
  then show ?case using Cons by (simp add: thread_run_running)
qed (simp add: thread_run_running)

lemma run_stores_append [simp]: "run_stores s (xs @ ys) = run_stores s xs \<bind> (\<lambda>s. run_stores s ys)"
  by (induction xs arbitrary: s) (auto simp: Option.bind_assoc)

lemma run_header_init [simp]: "run_stores s (header_init_stores b hdr) = header_init s b hdr"
  by (simp add: header_init_stores_def header_init_def st_u16_def st_u8_def)

text \<open>A thread that runs without interruption does exactly what \<open>segment_write\<close> does: the steps
  between which other threads may come are those of the function.\<close>

lemma segment_write_alone: "thread_run s sgm (Called buf) = segment_write s sgm buf"
proof -
  have eos: "thread_run s sgm (Claiming_eos cur) = mark_eos s sgm cur" for cur
    by (simp add: thread_run_running mark_eos_def eos_stores_list_def Let_def st_u32_def st_u16_def split: prod.split)
  have run: "segment_write s sgm buf = marked_eos s sgm \<bind> (\<lambda>eos. if eos then Some (s, sgm, ELEOS) else
      if header_size + (header_size + size_of buf) > size_of_u32 (sg_size sgm) - size_of_u32 (op_data (sg_w sgm))
      then mark_eos s sgm (sg_w sgm) else thread_run s sgm (Claiming buf (sg_w sgm)))"
    unfolding segment_write_def
    by (rule arg_cong [of _ _ "\<lambda>f. marked_eos s sgm \<bind> f"])
      (simp add: fun_eq_iff thread_run_running [of "Claiming buf (sg_w sgm)"] write_stores_def Let_def st_u32_def st_u16_def
        st_u64_def split: prod.split)
  have "thread_run s sgm (Writable buf) = (
      if header_size + (header_size + size_of buf) > size_of_u32 (sg_size sgm) - size_of_u32 (op_data (sg_w sgm))
      then mark_eos s sgm (sg_w sgm) else thread_run s sgm (Claiming buf (sg_w sgm)))"
    by (simp add: thread_run_running [of "Writable buf"] eos Let_def)
  then show ?thesis unfolding run
    by (cases "ld_u16 s (sg_buffer sgm) (unat (size_of_u32 (op_data (sg_w sgm)) - header_size))")
      (simp_all add: thread_run_running [of "Called buf"] thread_run_running [of "Marked buf w" for w] marked_eos_def Let_def
        del: bind_eq_None_conv)
qed

end
