(* ===== verification/Segment_Linear.thy ===== *)
theory Segment_Linear
  imports Segment_Writers
begin

text \<open>
  The invariant of threads that write to one segment at the same time, for payloads that
  all fit: the threads that have claimed their space are ordered by their claims, and when
  their remaining stores are carried out the segment holds exactly the payloads
  in this order. Stores of different threads go to different places and so commute. From
  this follow what any thread reads at any moment and what is left in the end.
\<close>

section \<open>Stores that do not meet\<close>

fun indep :: "store \<Rightarrow> store \<Rightarrow> bool" where
  "indep (p, o1, xs) (q, o2, ys) \<longleftrightarrow> p \<noteq> q \<or> o1 + length xs \<le> o2 \<or> o2 + length ys \<le> o1"

lemma splice_commute:
  assumes "o1 + length xs \<le> o2" "o2 + length ys \<le> length bs"
  shows "splice (splice bs o1 xs) o2 ys = splice (splice bs o2 ys) o1 xs"
  using assms by (intro nth_equalityI) (auto simp: splice_def nth_append)

lemma store_commute:
  assumes "indep (p, o1, xs) (q, o2, ys)"
  shows "(mem_store s p o1 xs \<bind> (\<lambda>s. mem_store s q o2 ys)) = (mem_store s q o2 ys \<bind> (\<lambda>s. mem_store s p o1 xs))"
proof (cases "p = q")
  case True
  then have d: "o1 + length xs \<le> o2 \<or> o2 + length ys \<le> o1" using assms by simp
  have "splice (splice bs o1 xs) o2 ys = splice (splice bs o2 ys) o1 xs"
    if "o1 + length xs \<le> length bs" "o2 + length ys \<le> length bs" for bs
    using d splice_commute [of o1 xs o2 ys bs] splice_commute [of o2 ys o1 xs bs] that by auto
  then show ?thesis unfolding True
    by (cases "files s q") (auto simp: mem_store_def)
next
  case False
  then show ?thesis
    by (cases "files s q"; cases "files s p") (auto simp: mem_store_def fun_upd_twist)
qed

lemma run_stores_front:
  assumes "\<forall>y \<in> set ys. indep x y"
  shows "run_stores s (ys @ x # zs) = run_stores s (x # ys @ zs)"
  using assms
proof (induction ys arbitrary: s)
  case (Cons y ys)
  obtain p o1 xs where x: "x = (p, o1, xs)" by (cases x)
  obtain q o2 bs where y: "y = (q, o2, bs)" by (cases y)
  have "run_stores s ((y # ys) @ x # zs) = (mem_store s q o2 bs \<bind> (\<lambda>s. mem_store s p o1 xs)) \<bind> (\<lambda>s. run_stores s (ys @ zs))"
    using Cons by (simp add: x y Option.bind_assoc)
  also have "\<dots> = (mem_store s p o1 xs \<bind> (\<lambda>s. mem_store s q o2 bs)) \<bind> (\<lambda>s. run_stores s (ys @ zs))"
    using Cons.prems store_commute [of p o1 xs q o2 bs s] by (simp add: x y)
  finally show ?case by (simp add: x y Option.bind_assoc)
qed simp

lemma load_store_other:
  assumes "mem_store s p off xs = Some s'" "p \<noteq> q \<or> off + length xs \<le> o2 \<or> o2 + n \<le> off"
  shows "mem_load s' q o2 n = mem_load s q o2 n"
  using assms(2) mem_store_SomeD [OF assms(1)]
  by (auto simp: mem_load_def slice_splice_before slice_splice_after)

lemma load_run_other:
  assumes "run_stores s xs = Some s'" "\<forall>x \<in> set xs. indep x (q, off, zeros n)"
  shows "mem_load s' q off n = mem_load s q off n"
  using assms
proof (induction xs arbitrary: s)
  case (Cons x xs)
  obtain p o1 bs where x: "x = (p, o1, bs)" by (cases x)
  from Cons.prems(1) obtain s1 where 1: "mem_store s p o1 bs = Some s1" "run_stores s1 xs = Some s'"
    by (auto simp: x bind_eq_Some_conv)
  have "mem_load s1 q off n = mem_load s q off n"
    using Cons.prems(2) by (intro load_store_other [OF 1(1)]) (auto simp: x)
  then show ?case using Cons.IH [OF 1(2)] Cons.prems(2) by simp
qed simp

lemma run_stores_length: "run_stores s xs = Some s' \<Longrightarrow> length (bytes_of s' q) = length (bytes_of s q)"
proof (induction xs arbitrary: s)
  case (Cons x xs)
  obtain p o1 bs where x: "x = (p, o1, bs)" by (cases x)
  from Cons.prems obtain s1 where 1: "mem_store s p o1 bs = Some s1" "run_stores s1 xs = Some s'"
    by (auto simp: x bind_eq_Some_conv)
  have "length (bytes_of s1 q) = length (bytes_of s q)"
    using mem_store_SomeD [OF 1(1)] by (auto simp: bytes_of_def)
  then show ?case using Cons.IH [OF 1(2)] by simp
qed simp

section \<open>The stores of one frame\<close>

definition stores_at :: "string \<Rightarrow> string \<Rightarrow> nat \<Rightarrow> nat \<Rightarrow> bytes \<Rightarrow> store list" where
  "stores_at b x off idx p =
     [(b, off + 12, p)] @ header_init_stores b off @
     [(b, off + 8, le_encode 4 (unat (crc32 CRC32_INIT p))),
      (b, off + 4, le_encode 4 (unat (word_of_nat (12 + length p) :: u32))),
      (b, off, le_encode 2 (unat HEADER_FLAGS_READY)),
      (x, 8 * idx, le_encode 8 off)]"

lemma length_stores_at [simp]: "length (stores_at b x off idx p) = 8"
  by (simp add: stores_at_def header_init_stores_def)

lemma stores_at_range:
  "(q, o1, bs) \<in> set (stores_at b x off idx p) \<Longrightarrow>
   q = b \<and> off \<le> o1 \<and> o1 + length bs \<le> off + 12 + length p \<or> q = x \<and> o1 = 8 * idx \<and> length bs = 8"
  by (auto simp: stores_at_def header_init_stores_def)

lemma write_stores_at:
  assumes rep: "seg_rep s sgm ps" and fit: "fits sgm ps p"
  shows "write_stores sgm (sg_w sgm) p = stores_at (sg_buffer sgm) (sg_index sgm) (length (frames ps)) (length ps) p"
proof -
  note B = fits_bounds [OF fit]
  have w: "unat (op_data (sg_w sgm)) = length (frames ps)" "unat (op_index (sg_w sgm)) = length ps"
    using rep by (auto simp: seg_rep_def elim!: seg_layoutE)
  have "unat (size_of_u32 (op_data (sg_w sgm)) + header_size) = length (frames ps) + 12"
    using B(1) by (simp add: unat_plus_if' w)
  then show ?thesis by (simp add: write_stores_def stores_at_def Let_def w B(5) del: of_nat_add)
qed

lemma run_write_stores:
  assumes rep: "seg_rep s sgm ps" and fit: "fits sgm ps p" and room: "length ps < index_room s sgm"
  shows "run_stores s (write_stores sgm (sg_w sgm) p) = Some (after_write s sgm ps p)"
proof -
  from rep obtain fd fi where f: "files s (sg_buffer sgm) = Some fd" "files s (sg_index sgm) = Some fi"
    and ne: "sg_buffer sgm \<noteq> sg_index sgm" and sz: "length (fbytes fd) = unat (sg_size sgm)"
    by (auto simp: seg_rep_def elim!: seg_layoutE)
  let ?b = "sg_buffer sgm" and ?x = "sg_index sgm" and ?W = "length (frames ps)"
  note B = fits_bounds [OF fit]
  have len: "?W + 12 + length p \<le> length (fbytes fd)" using fit sz by (simp add: fits_def)
  have fb: "header_bytes \<lparr>hflags = HEADER_FLAGS_READY, hversion = HEADER_VERSION, hpad = HEADER_PAD,
      hsize = word_of_nat (12 + length p), hcrc32 = crc32 CRC32_INIT p\<rparr> @ p = frame_bytes p"
    by (simp add: frame_bytes_def frame_header_def)
  have "8 * length ps + 8 \<le> length (fbytes fi)" using room f by (simp add: index_room_def bytes_of_def)
  then have "mem_store (set_bytes s ?b (splice (fbytes fd) ?W (frame_bytes p))) ?x (8 * length ps) (le_encode 8 ?W) =
      Some (after_write s sgm ps p)"
    using f ne by (simp add: mem_store_def after_write_def set_bytes_def bytes_of_def)
  then show ?thesis
    using frame_stores_bind [OF f(1) len, of "crc32 CRC32_INIT p" "word_of_nat (12 + length p)" HEADER_FLAGS_READY
      "\<lambda>s. mem_store s ?x (8 * length ps) (le_encode 8 ?W)"]
    by (simp add: write_stores_at [OF rep fit] stores_at_def st_u32_def st_u16_def fb del: of_nat_add)
qed

lemma after_write_ok:
  assumes ok: "seg_ok s dir sgm ps" and fit: "fits sgm ps p" and room: "length ps < index_room s sgm"
  shows "seg_ok (after_write s sgm ps p) dir (sgm\<lparr>sg_w := next_pair sgm p\<rparr>) (ps @ [p])"
  using ok fit room after_write_rep [of s sgm ps p] after_write_backed [of s sgm ps dir p] after_write_synced [of s sgm ps p]
  by (auto simp: seg_ok_def)


section \<open>The claims\<close>

text \<open>The payloads in a segment that held \<open>ps\<close> when the threads with the numbers \<open>cs\<close> have
  claimed their space in this order; thread \<open>i\<close> was called with \<open>args ! i\<close>.\<close>

definition claimed :: "bytes list \<Rightarrow> bytes list \<Rightarrow> nat list \<Rightarrow> bytes list" where
  "claimed ps args cs = ps @ map (\<lambda>i. args ! i) cs"

fun pend :: "thread \<Rightarrow> store list" where
  "pend (Storing xs rc) = xs"
| "pend _ = []"

definition slot_stores :: "segment \<Rightarrow> bytes list \<Rightarrow> nat \<Rightarrow> store list" where
  "slot_stores g qs j = stores_at (sg_buffer g) (sg_index g) (foffset qs j) j (qs ! j)"

text \<open>What a reader relies on while \<open>m\<close> stores of frame \<open>j\<close> are still to come.\<close>

definition unstored :: "os \<Rightarrow> segment \<Rightarrow> nat \<Rightarrow> nat \<Rightarrow> bool" where
  "unstored s g j m \<longleftrightarrow> (0 < m \<longrightarrow> mem_load s (sg_index g) (8 * j) 8 = Some (zeros 8)) \<and>
     (j = 0 \<and> 1 < m \<longrightarrow> mem_load s (sg_buffer g) 0 2 = Some (zeros 2))"

fun thread_ok :: "os \<Rightarrow> segment \<Rightarrow> bytes list \<Rightarrow> bytes list \<Rightarrow> nat list \<Rightarrow> nat \<Rightarrow> thread \<Rightarrow> bool" where
  "thread_ok s g ps args cs i (Called p) \<longleftrightarrow> p = args ! i \<and> i \<notin> set cs"
| "thread_ok s g ps args cs i (Marked p w) \<longleftrightarrow> p = args ! i \<and> i \<notin> set cs \<and> 12 \<le> unat w \<and>
     unat w \<le> unat (op_data (sg_w g)) \<and> (cs = [] \<longrightarrow> w = size_of_u32 (op_data (sg_w g)))"
| "thread_ok s g ps args cs i (Writable p) \<longleftrightarrow> p = args ! i \<and> i \<notin> set cs"
| "thread_ok s g ps args cs i (Claiming p cur) \<longleftrightarrow> p = args ! i \<and> i \<notin> set cs \<and> (cs = [] \<longrightarrow> cur = sg_w g)"
| "thread_ok s g ps args cs i (Claiming_eos cur) \<longleftrightarrow> False"
| "thread_ok s g ps args cs i (Storing xs rc) \<longleftrightarrow> rc = int (length (args ! i)) \<and> (\<exists>k n. k < length cs \<and> cs ! k = i \<and>
     xs = drop n (slot_stores g (claimed ps args cs) (length ps + k)) \<and> unstored s g (length ps + k) (length xs))"
| "thread_ok s g ps args cs i (Returned rc) \<longleftrightarrow>
     (if i \<in> set cs then rc = int (length (args ! i)) else cs \<noteq> [] \<and> (rc = ELLOCK \<or> rc = ELEOS))"

definition writers_ok :: "string \<Rightarrow> bytes list \<Rightarrow> bytes list \<Rightarrow> nat list \<Rightarrow> os \<Rightarrow> segment \<Rightarrow> thread list \<Rightarrow> bool" where
  "writers_ok dir ps args cs s g ts \<longleftrightarrow>
     length ts = length args \<and> distinct cs \<and> set cs \<subseteq> {..<length args} \<and>
     (\<forall>i < length args. thread_ok s g ps args cs i (ts ! i)) \<and>
     (\<exists>s'. run_stores s (concat (map (\<lambda>i. pend (ts ! i)) cs)) = Some s' \<and> seg_ok s' dir g (claimed ps args cs)) \<and>
     length ps + length args \<le> index_room s g \<and> length (frames (ps @ args)) + 12 \<le> unat (sg_size g) \<and> \<not> looks_eos ps"

lemma unstored_w [simp]: "unstored s (g\<lparr>sg_w := w\<rparr>) j m = unstored s g j m"
  by (simp add: unstored_def)

lemma storing_okI:
  "k < length cs \<Longrightarrow> cs ! k = i \<Longrightarrow> rc = int (length (args ! i)) \<Longrightarrow>
   xs = drop n (slot_stores g (claimed ps args cs) (length ps + k)) \<Longrightarrow> unstored s g (length ps + k) (length xs) \<Longrightarrow>
   thread_ok s g ps args cs i (Storing xs rc)"
  by auto

lemma storing_okE:
  assumes "thread_ok s g ps args cs i (Storing xs rc)"
  obtains k n where "k < length cs" "cs ! k = i" "rc = int (length (args ! i))"
    "xs = drop n (slot_stores g (claimed ps args cs) (length ps + k))" "unstored s g (length ps + k) (length xs)"
  using assms by auto

lemma length_claimed [simp]: "length (claimed ps args cs) = length ps + length cs"
  by (simp add: claimed_def)

lemma claimed_snoc: "claimed ps args (cs @ [i]) = claimed ps args cs @ [args ! i]"
  by (simp add: claimed_def)

lemma claimed_nth: "k < length cs \<Longrightarrow> claimed ps args cs ! (length ps + k) = args ! (cs ! k)"
  by (simp add: claimed_def)

lemma length_frames_sum: "length (frames xs) = (\<Sum>p \<leftarrow> xs. 12 + length p)"
  by (induction xs) auto

lemma frames_subset:
  assumes "distinct js" "set js \<subseteq> {..<length args}"
  shows "length (frames (map (\<lambda>i. args ! i) js)) \<le> length (frames args)"
proof -
  have "length (frames (map (\<lambda>i. args ! i) js)) = (\<Sum>i \<in> set js. 12 + length (args ! i))"
    using assms(1) by (simp add: length_frames_sum o_def sum_list_distinct_conv_sum_set)
  also have "\<dots> \<le> (\<Sum>i < length args. 12 + length (args ! i))" using assms(2) by (intro sum_mono2) auto
  also have "\<dots> = length (frames args)" by (simp add: length_frames_sum sum_list_sum_nth atLeast0LessThan)
  finally show ?thesis .
qed

lemma claim_room:
  assumes "distinct cs" "set cs \<subseteq> {..<length args}" "i < length args" "i \<notin> set cs"
    and "length (frames (ps @ args)) + 12 \<le> unat (sg_size g)"
  shows "fits g (claimed ps args cs) (args ! i)" "length cs < length args"
proof -
  have d: "distinct (cs @ [i])" "set (cs @ [i]) \<subseteq> {..<length args}" using assms(1-4) by auto
  then show "fits g (claimed ps args cs) (args ! i)"
    using frames_subset [OF d] assms(5) by (simp add: fits_def claimed_def)
  have "length (cs @ [i]) = card (set (cs @ [i]))" using d(1) by (simp only: distinct_card)
  also have "\<dots> \<le> length args" using card_mono [OF _ d(2)] by simp
  finally show "length cs < length args" by simp
qed

lemma foffset_Suc: "j < length ps \<Longrightarrow> foffset ps (Suc j) = foffset ps j + 12 + length (ps ! j)"
  by (simp add: foffset_def take_Suc_conv_app_nth)

lemma foffset_mono: "i \<le> j \<Longrightarrow> foffset ps i \<le> foffset ps j"
  using take_add [of i "j - i" ps] by (simp add: foffset_def)

lemma slots_apart: "j < j' \<Longrightarrow> j' < length qs \<Longrightarrow> foffset qs j + 12 + length (qs ! j) \<le> foffset qs j'"
  using foffset_Suc [of j qs] foffset_mono [of "Suc j" j' qs] by simp

lemma slots_indep:
  assumes "sg_buffer g \<noteq> sg_index g" "j \<noteq> j'" "j < length qs" "j' < length qs"
    and "x \<in> set (slot_stores g qs j)" "y \<in> set (slot_stores g qs j')"
  shows "indep x y"
proof -
  obtain p o1 xs where x: "x = (p, o1, xs)" by (cases x)
  obtain q o2 ys where y: "y = (q, o2, ys)" by (cases y)
  have "foffset qs j + 12 + length (qs ! j) \<le> foffset qs j' \<or> foffset qs j' + 12 + length (qs ! j') \<le> foffset qs j"
    using assms(2-4) slots_apart [of j j' qs] slots_apart [of j' j qs] by (cases "j < j'") auto
  then show ?thesis
    using stores_at_range [OF assms(5) [unfolded slot_stores_def x]] stores_at_range [OF assms(6) [unfolded slot_stores_def y]]
      assms(1,2) by (auto simp: x y)
qed

lemma slot_stores_claimed:
  "j < length qs \<Longrightarrow> slot_stores (g\<lparr>sg_w := w\<rparr>) (qs @ rs) j = slot_stores g qs j"
  by (simp add: slot_stores_def nth_append)

lemma cas_helper_eq [simp]: "cas_helper v = cas_helper w \<longleftrightarrow> v = w"
  by (cases v; cases w) (simp add: cas_helper_def pack_inject)

section \<open>Steps keep the invariant\<close>

lemma writers_okD:
  assumes "writers_ok dir ps args cs s g ts"
  shows "length ts = length args" "distinct cs" "set cs \<subseteq> {..<length args}"
    "\<And>i. i < length args \<Longrightarrow> thread_ok s g ps args cs i (ts ! i)"
    "length ps + length args \<le> index_room s g" "length (frames (ps @ args)) + 12 \<le> unat (sg_size g)" "\<not> looks_eos ps"
  using assms unfolding writers_ok_def by blast+

text \<open>What is left to store of the frames that have been claimed.\<close>

abbreviation rest :: "nat list \<Rightarrow> thread list \<Rightarrow> store list" where
  "rest cs ts \<equiv> concat (map (\<lambda>i. pend (ts ! i)) cs)"

lemma rest_update [simp]: "i \<notin> set cs \<Longrightarrow> rest cs (ts[i := t]) = rest cs ts"
  by (intro arg_cong [where f = concat] map_cong refl) (metis nth_list_update_neq)

lemma rest_in_slots:
  assumes ok: "writers_ok dir ps args cs s g ts" and x: "x \<in> set (pend (ts ! (cs ! k)))" and k: "k < length cs"
  shows "x \<in> set (slot_stores g (claimed ps args cs) (length ps + k))"
proof -
  have i: "cs ! k < length args" using writers_okD(3) [OF ok] k by (auto dest: nth_mem)
  obtain xs rc where t: "ts ! (cs ! k) = Storing xs rc" "x \<in> set xs" using x by (cases "ts ! (cs ! k)") auto
  from writers_okD(4) [OF ok i] t(1) obtain k' n where
    "k' < length cs" "cs ! k' = cs ! k" "xs = drop n (slot_stores g (claimed ps args cs) (length ps + k'))" by auto
  moreover from this have "k' = k" using writers_okD(2) [OF ok] k by (simp add: nth_eq_iff_index_eq)
  ultimately show ?thesis using t(2) by (auto dest: in_set_dropD)
qed

lemma rest_apart:
  assumes ok: "writers_ok dir ps args cs s g ts" and ne: "sg_buffer g \<noteq> sg_index g"
    and x: "x \<in> set (slot_stores g (claimed ps args cs) j)" "j < length (claimed ps args cs)"
    and y: "y \<in> set (pend (ts ! i))" "i \<in> set cs" and j: "\<And>k. k < length cs \<Longrightarrow> cs ! k = i \<Longrightarrow> j \<noteq> length ps + k"
  shows "indep x y"
proof -
  from y(2) obtain k where k: "k < length cs" "cs ! k = i" by (auto simp: in_set_conv_nth)
  show ?thesis
    by (rule slots_indep [OF ne j [OF k] x(2) _ x(1) rest_in_slots [OF ok _ k(1)]]) (use k y(1) in simp_all)
qed

lemma completion:
  assumes "writers_ok dir ps args cs s g ts"
  obtains s' where "run_stores s (rest cs ts) = Some s'" "seg_ok s' dir g (claimed ps args cs)"
    "seg_layout s' g (claimed ps args cs)" "sg_buffer g \<noteq> sg_index g" "index_room s' g = index_room s g"
proof -
  from assms obtain s' where s': "run_stores s (rest cs ts) = Some s'" "seg_ok s' dir g (claimed ps args cs)"
    unfolding writers_ok_def by blast
  then have lay: "seg_layout s' g (claimed ps args cs)" by (simp add: seg_ok_def seg_rep_def)
  then have "sg_buffer g \<noteq> sg_index g" by (rule seg_layoutE)
  moreover have "index_room s' g = index_room s g" using run_stores_length [OF s'(1)] by (simp add: index_room_def)
  ultimately show ?thesis using that s' lay by blast
qed

lemma idle_step:
  assumes ok: "writers_ok dir ps args cs s g ts" and i: "i < length args"
    and t: "pend t = pend (ts ! i)" "thread_ok s g ps args cs i t"
  shows "writers_ok dir ps args cs s g (ts[i := t])"
proof -
  note D = writers_okD [OF ok]
  have "rest cs (ts[i := t]) = rest cs ts"
    using D(1) i t(1) by (intro arg_cong [where f = concat] map_cong refl) (simp add: nth_list_update)
  moreover have "thread_ok s g ps args cs j (ts[i := t] ! j)" if "j < length args" for j
    using D(1) D(4) [OF that] t(2) i by (auto simp: nth_list_update)
  ultimately show ?thesis using ok D(1) unfolding writers_ok_def by simp
qed

text \<open>Behind the claimed frames nothing has been stored.\<close>

lemma unclaimed_unstored:
  assumes ok: "writers_ok dir ps args cs s g ts" and less: "length cs < length args"
  shows "unstored s g (length ps + length cs) 8"
proof -
  let ?all = "claimed ps args cs"
  from ok obtain s' where s': "run_stores s (rest cs ts) = Some s'" "seg_ok s' dir g ?all" "seg_layout s' g ?all"
    "sg_buffer g \<noteq> sg_index g" "index_room s' g = index_room s g" by (rule completion)
  have "seg_backed s' dir g ?all" using s'(2) by (simp add: seg_ok_def)
  then obtain fd fi where f: "files s' (sg_buffer g) = Some fd" "files s' (sg_index g) = Some fi"
    "\<forall>k. 8 * length ?all \<le> k \<and> k < length (fbytes fi) \<longrightarrow> fbytes fi ! k = 0"
    "?all = [] \<longrightarrow> slice (fbytes fd) 0 2 = zeros 2" by (auto elim!: seg_backedE)
  have "length ?all < index_room s' g" using less writers_okD(5) [OF ok] s'(5) by simp
  then have len: "8 * length ?all + 8 \<le> length (fbytes fi)" using f(2) by (simp add: index_room_def bytes_of_def)
  then have "slice (fbytes fi) (8 * length ?all) 8 = zeros 8" using f(3) by (intro nth_equalityI) (auto simp: slice_def)
  then have "mem_load s' (sg_index g) (8 * length ?all) 8 = Some (zeros 8)" using f(2) len by (simp add: mem_load_eq)
  moreover have "mem_load s' (sg_index g) (8 * length ?all) 8 = mem_load s (sg_index g) (8 * length ?all) 8"
  proof (rule load_run_other [OF s'(1)], rule ballI)
    fix x assume "x \<in> set (rest cs ts)"
    then obtain k where k: "k < length cs" "x \<in> set (pend (ts ! (cs ! k)))" by (auto simp: in_set_conv_nth [of _ cs])
    obtain q o1 bs where x: "x = (q, o1, bs)" by (cases x)
    from rest_in_slots [OF ok k(2,1)] show "indep x (sg_index g, 8 * length ?all, zeros 8)"
      using stores_at_range [of q o1 bs] k(1) s'(4) unfolding slot_stores_def x by fastforce
  qed
  moreover have "mem_load s (sg_buffer g) 0 2 = Some (zeros 2)" if "length ps + length cs = 0"
  proof -
    have e: "?all = []" "s' = s" using that s'(1) by (simp_all add: claimed_def)
    have "2 \<le> length (fbytes fd)" using s'(3) f(1) by (auto elim!: seg_layoutE)
    then show ?thesis using f(1,4) e by (simp add: mem_load_eq)
  qed
  ultimately show ?thesis by (simp add: unstored_def)
qed

text \<open>The claim of thread \<open>i\<close>, as the other threads see it.\<close>

lemma claim_others:
  assumes t: "thread_ok s g ps args cs j t" and j: "j \<noteq> i" and w: "unat (op_data (sg_w g)) \<le> unat (op_data w)"
  shows "thread_ok s (g\<lparr>sg_w := w\<rparr>) ps args (cs @ [i]) j t"
proof (cases t)
  case (Storing xs rc)
  from t [unfolded Storing] obtain k n where k: "k < length cs" "cs ! k = j" "rc = int (length (args ! j))"
    "xs = drop n (slot_stores g (claimed ps args cs) (length ps + k))" "unstored s g (length ps + k) (length xs)" by (rule storing_okE)
  then have "slot_stores (g\<lparr>sg_w := w\<rparr>) (claimed ps args (cs @ [i])) (length ps + k) = slot_stores g (claimed ps args cs) (length ps + k)"
    by (simp add: slot_stores_claimed claimed_snoc)
  then show ?thesis unfolding Storing using k by (intro storing_okI [of k _ _ _ _ _ n]) (simp_all add: nth_append)
qed (use t j w in auto)

lemma claim_step:
  assumes ok: "writers_ok dir ps args cs s g ts" and i: "i < length args" "i \<notin> set cs"
  shows "writers_ok dir ps args (cs @ [i]) s (g\<lparr>sg_w := next_pair g (args ! i)\<rparr>)
    (ts[i := Storing (write_stores g (sg_w g) (args ! i)) (int (length (args ! i)))])"
    (is "writers_ok _ _ _ _ _ ?g ?ts")
proof -
  note D = writers_okD [OF ok]
  let ?p = "args ! i" and ?all = "claimed ps args cs"
  from ok obtain s' where s': "run_stores s (rest cs ts) = Some s'" "seg_ok s' dir g ?all" "index_room s' g = index_room s g"
    by (rule completion)
  note F = claim_room [OF D(2,3) i D(6)]
  have rep: "seg_rep s' g ?all" using s'(2) by (rule seg_okD)
  have room: "length ?all < index_room s' g" using F(2) D(5) s'(3) by simp
  have st: "write_stores g (sg_w g) ?p = slot_stores ?g (?all @ [?p]) (length ps + length cs)"
    using write_stores_at [OF rep F(1)] foffset_length [of ?all] by (simp add: slot_stores_def nth_append del: foffset_length)
  have "rest (cs @ [i]) ?ts = rest cs ts @ write_stores g (sg_w g) ?p" using D(1) i by simp
  then have run: "run_stores s (rest (cs @ [i]) ?ts) = Some (after_write s' g ?all ?p)"
    using s'(1) run_write_stores [OF rep F(1) room] by simp
  have seg: "seg_ok (after_write s' g ?all ?p) dir ?g (claimed ps args (cs @ [i]))"
    using after_write_ok [OF s'(2) F(1) room] by (simp add: claimed_snoc)
  have wd: "unat (op_data (sg_w g)) \<le> unat (op_data (next_pair g ?p))"
    using next_pair_unat(1) [OF rep F(1)] rep by (simp add: seg_rep_def)
  have "length (write_stores g (sg_w g) ?p) = 8" by (simp add: write_stores_at [OF rep F(1)])
  then have own: "thread_ok s ?g ps args (cs @ [i]) i (Storing (write_stores g (sg_w g) ?p) (int (length ?p)))"
    using st unclaimed_unstored [OF ok F(2)] by (intro storing_okI [of "length cs" _ _ _ _ _ 0]) (simp_all add: claimed_snoc)
  have "thread_ok s ?g ps args (cs @ [i]) j (?ts ! j)" if j: "j < length args" for j
    using own claim_others [OF D(4) [OF j] _ wd] D(1) i by (cases "j = i") simp_all
  moreover have "length ps + length args \<le> index_room s ?g" using D(5) by (simp add: index_room_def)
  ultimately show ?thesis using run seg D i unfolding writers_ok_def by auto
qed

lemma slot_marks:
  "(sg_index g, 8 * j, le_encode 8 (foffset qs j)) \<in> set (slot_stores g qs j)"
  "(sg_buffer g, foffset qs j, le_encode 2 (unat HEADER_FLAGS_READY)) \<in> set (slot_stores g qs j)"
  by (simp_all add: slot_stores_def stores_at_def)

lemma unstored_other:
  assumes "unstored s g j m" "mem_store s p off bs = Some s1" "(p, off, bs) \<in> set (slot_stores g qs j')"
    and "j \<noteq> j'" "j < length qs" "j' < length qs" "sg_buffer g \<noteq> sg_index g"
  shows "unstored s1 g j m"
proof -
  note I = slots_indep [OF assms(7) assms(4) [symmetric] assms(6,5,3)]
  have "mem_load s1 (sg_index g) (8 * j) 8 = mem_load s (sg_index g) (8 * j) 8"
    using I [OF slot_marks(1)] by (intro load_store_other [OF assms(2)]) auto
  moreover have "mem_load s1 (sg_buffer g) 0 2 = mem_load s (sg_buffer g) 0 2" if "j = 0"
    using I [OF slot_marks(2)] that by (intro load_store_other [OF assms(2)]) (auto simp: foffset_def)
  ultimately show ?thesis using assms(1) by (simp add: unstored_def)
qed

lemma unstored_own:
  assumes un: "unstored s g j (Suc (length xs))" and st: "mem_store s p off bs = Some s1"
    and d: "drop n (slot_stores g qs j) = (p, off, bs) # xs" and ne: "sg_buffer g \<noteq> sg_index g"
  shows "unstored s1 g j (length xs)"
proof -
  have n: "length xs = 7 - n" "n < 8" using arg_cong [OF d, of length] by (simp_all add: slot_stores_def)
  have x: "(p, off, bs) = slot_stores g qs j ! n"
    using d n(2) by (metis Cons_nth_drop_Suc length_stores_at list.inject slot_stores_def)
  have n8: "n = 0 \<or> n = 1 \<or> n = 2 \<or> n = 3 \<or> n = 4 \<or> n = 5 \<or> n = 6 \<or> n = 7" using n(2) by linarith
  have "mem_load s1 (sg_index g) (8 * j) 8 = Some (zeros 8)" if "n < 7"
  proof -
    have "p = sg_buffer g" using x n8 that by (auto simp: slot_stores_def stores_at_def header_init_stores_def)
    then show ?thesis using load_store_other [OF st, of "sg_index g" "8 * j" 8] ne un by (simp add: unstored_def)
  qed
  moreover have "mem_load s1 (sg_buffer g) 0 2 = Some (zeros 2)" if "j = 0" "n < 6"
  proof (cases "n = 1")
    case True
    then have "p = sg_buffer g" "off = 0" "bs = zeros 2"
      using x that(1) by (auto simp: slot_stores_def stores_at_def header_init_stores_def foffset_def HEADER_FLAGS_EMPTY_def
        zeros_def numeral_2_eq_2)
    with mem_store_SomeD [OF st] show ?thesis
      using slice_splice_same [of 0 "zeros 2"] by (auto simp: mem_load_def)
  next
    case False
    then have "p = sg_buffer g" "2 \<le> off"
      using x that n8 by (auto simp: slot_stores_def stores_at_def header_init_stores_def foffset_def)
    then show ?thesis using load_store_other [OF st, of "sg_buffer g" 0 2] un that n(1) by (simp add: unstored_def)
  qed
  ultimately show ?thesis using n(1) by (auto simp: unstored_def)
qed

lemma store_others:
  assumes t: "thread_ok s g ps args cs j t" and st: "mem_store s p off bs = Some s1"
    and k: "k < length cs" "j \<noteq> cs ! k" "(p, off, bs) \<in> set (slot_stores g (claimed ps args cs) (length ps + k))"
    and ne: "sg_buffer g \<noteq> sg_index g"
  shows "thread_ok s1 g ps args cs j t"
proof (cases t)
  case (Storing ys rc)
  from t [unfolded Storing] obtain k' n' where k': "k' < length cs" "cs ! k' = j" "rc = int (length (args ! j))"
    "ys = drop n' (slot_stores g (claimed ps args cs) (length ps + k'))" "unstored s g (length ps + k') (length ys)" by (rule storing_okE)
  have "k' \<noteq> k" using k(2) k'(2) by auto
  then have "unstored s1 g (length ps + k') (length ys)"
    using k(1) k'(1) by (intro unstored_other [OF k'(5) st k(3) _ _ _ ne]) auto
  then show ?thesis using storing_okI [OF k'(1-4)] Storing by simp
qed (use t in auto)

lemma store_step:
  assumes ok: "writers_ok dir ps args cs s g ts" and i: "i < length args" and t: "ts ! i = Storing ((p, off, bs) # xs) rc"
  shows "\<exists>s1. mem_store s p off bs = Some s1 \<and> writers_ok dir ps args cs s1 g (ts[i := Storing xs rc])"
proof -
  note D = writers_okD [OF ok]
  let ?all = "claimed ps args cs" and ?st = "(p, off, bs)" and ?ts = "ts[i := Storing xs rc]"
  from ok obtain s' where s': "run_stores s (rest cs ts) = Some s'" "seg_ok s' dir g ?all" "sg_buffer g \<noteq> sg_index g"
    by (rule completion)
  from D(4) [OF i, unfolded t] obtain k n where k: "k < length cs" "cs ! k = i" "rc = int (length (args ! i))"
    "?st # xs = drop n (slot_stores g ?all (length ps + k))" "unstored s g (length ps + k) (length (?st # xs))"
    by (rule storing_okE)
  have st: "?st \<in> set (slot_stores g ?all (length ps + k))" using k(4) by (metis in_set_dropD list.set_intros(1))
  have cs: "cs = take k cs @ i # drop (Suc k) cs" using id_take_nth_drop [OF k(1)] k(2) by simp
  then have ni: "i \<notin> set (take k cs)" "i \<notin> set (drop (Suc k) cs)" using D(2) by (metis distinct_append distinct.simps(2) disjoint_iff list.set_intros(1))+
  let ?A = "rest (take k cs) ts" and ?B = "rest (drop (Suc k) cs) ts"
  have r: "rest cs ts = ?A @ ?st # (xs @ ?B)" by (subst cs) (simp add: t)
  have r': "rest cs ?ts = ?A @ xs @ ?B" using ni i D(1) by (subst cs) simp
  have "indep ?st y" if y: "y \<in> set ?A" for y
  proof -
    from y obtain i' where i': "i' \<in> set (take k cs)" "y \<in> set (pend (ts ! i'))" by auto
    then have "i' \<noteq> i" "i' \<in> set cs" using ni(1) by (auto dest: in_set_takeD)
    then show ?thesis using k by (intro rest_apart [OF ok s'(3) st _ i'(2)]) auto
  qed
  then have "run_stores s (?st # ?A @ xs @ ?B) = Some s'" using s'(1) r run_stores_front [of ?A ?st s "xs @ ?B"] by simp
  then obtain s1 where s1: "mem_store s p off bs = Some s1" "run_stores s1 (?A @ xs @ ?B) = Some s'"
    by (auto simp: bind_eq_Some_conv)
  have room: "index_room s1 g = index_room s g" using run_stores_length [of s "[?st]" s1] s1(1) by (simp add: index_room_def)
  have "unstored s1 g (length ps + k) (length xs)"
    by (rule unstored_own [OF _ s1(1) k(4) [symmetric] s'(3)]) (use k(5) in simp)
  then have own: "thread_ok s1 g ps args cs i (Storing xs rc)"
    by (rule storing_okI [OF k(1-3), of _ "Suc n", rotated]) (metis drop_Suc list.sel(3) k(4) tl_drop)
  have "thread_ok s1 g ps args cs j (?ts ! j)" if j: "j < length args" for j
    using own store_others [OF D(4) [OF j] s1(1) k(1) _ st s'(3)] k(2) D(1) i by (cases "j = i") simp_all
  then show ?thesis using s1 s'(2) D r' room unfolding writers_ok_def by auto
qed

text \<open>What a step can do to the claims that have been made.\<close>

definition grows :: "nat list \<Rightarrow> segment \<Rightarrow> thread list \<Rightarrow> nat list \<Rightarrow> segment \<Rightarrow> thread list \<Rightarrow> bool" where
  "grows cs g ts cs' g' ts' \<longleftrightarrow> prefix cs cs' \<and> g' = g\<lparr>sg_w := sg_w g'\<rparr> \<and>
     (\<forall>i \<in> set cs. suffix (pend (ts' ! i)) (pend (ts ! i)))"

lemma grows_refl [simp]: "grows cs g ts cs g ts"
  by (simp add: grows_def)

lemma grows_trans:
  assumes "grows cs g ts cs1 g1 ts1" "grows cs1 g1 ts1 cs2 g2 ts2"
  shows "grows cs g ts cs2 g2 ts2"
proof -
  have "set cs \<subseteq> set cs1" using assms(1) by (auto simp: grows_def dest: set_mono_prefix)
  moreover have "g2 = g\<lparr>sg_w := sg_w g2\<rparr>"
    using assms unfolding grows_def by (metis segment.surjective segment.update_convs(10))
  ultimately show ?thesis using assms unfolding grows_def
    by (meson prefix_order.trans suffix_order.trans subsetD)
qed

lemma grows_idle: "i < length ts \<Longrightarrow> suffix (pend t) (pend (ts ! i)) \<Longrightarrow> grows cs g ts cs g (ts[i := t])"
  by (auto simp: grows_def nth_list_update)

text \<open>The loads of \<open>marked_eos\<close> stay inside of the data file; before the first claim they
  see the last frame.\<close>

lemma marked_load:
  assumes ok: "writers_ok dir ps args cs s g ts" and w: "12 \<le> unat w" "unat w \<le> unat (op_data (sg_w g))"
    and first: "cs = [] \<longrightarrow> w = size_of_u32 (op_data (sg_w g))"
  shows "\<exists>fl. ld_u16 s (sg_buffer g) (unat (w - header_size)) = Some fl \<and> (cs = [] \<longrightarrow> fl \<noteq> HEADER_FLAGS_EOS)"
proof -
  from ok obtain s' where s': "run_stores s (rest cs ts) = Some s'" "seg_ok s' dir g (claimed ps args cs)"
    "seg_layout s' g (claimed ps args cs)" by (rule completion)
  have rep: "seg_rep s' g (claimed ps args cs)" using s'(2) by (rule seg_okD)
  then obtain fd where fd: "files s' (sg_buffer g) = Some fd" "unat (op_data (sg_w g)) + 12 \<le> length (fbytes fd)"
    by (auto simp: seg_rep_def elim!: seg_layoutE)
  have "length (bytes_of s (sg_buffer g)) = length (fbytes fd)"
    using run_stores_length [OF s'(1), of "sg_buffer g"] fd(1) by (simp add: bytes_of_def)
  then obtain f where f: "files s (sg_buffer g) = Some f" "length (fbytes f) = length (fbytes fd)"
    using fd(2) by (auto simp: bytes_of_def split: option.splits)
  have off: "unat (w - header_size) = unat w - 12" using w(1) by (simp add: unat_sub_if' header_size_unat)
  then have "\<exists>fl. ld_u16 s (sg_buffer g) (unat (w - header_size)) = Some fl" using f fd(2) w by (simp add: ld_u16_eq)
  moreover have "fl \<noteq> HEADER_FLAGS_EOS"
    if "cs = []" "ld_u16 s (sg_buffer g) (unat (w - header_size)) = Some fl" for fl
  proof -
    have "seg_rep s g ps" using rep s'(1) that(1) by (simp add: claimed_def)
    then have "marked_eos s g = Some False" using writers_okD(7) [OF ok] by (simp add: marked_eos_rep)
    moreover have "\<not> w < header_size" using w(1) by (simp add: word_less_nat_alt)
    ultimately show ?thesis using that first by (auto simp: marked_eos_def Let_def)
  qed
  ultimately show ?thesis by blast
qed

text \<open>A step of thread \<open>i\<close> that succeeds and keeps the invariant, case by case.\<close>

definition step_kept :: "string \<Rightarrow> bytes list \<Rightarrow> bytes list \<Rightarrow> nat list \<Rightarrow> os \<Rightarrow> segment \<Rightarrow> thread list \<Rightarrow> nat \<Rightarrow> bool" where
  "step_kept dir ps args cs s g ts i \<longleftrightarrow> (\<exists>s1 g1 t cs'. thread_step s g (ts ! i) = Some (s1, g1, t) \<and>
     writers_ok dir ps args cs' s1 g1 (ts[i := t]) \<and> grows cs g ts cs' g1 (ts[i := t]))"

lemma step_kept_idle:
  assumes "writers_ok dir ps args cs s g ts" "i < length args"
    and "thread_step s g (ts ! i) = Some (s, g, t)" "pend t = []" "pend (ts ! i) = []" "thread_ok s g ps args cs i t"
  shows "step_kept dir ps args cs s g ts i"
proof -
  have "i < length ts" using assms(2) writers_okD(1) [OF assms(1)] by simp
  then show ?thesis using assms idle_step [OF assms(1,2), of t] grows_idle [of i ts t cs g] unfolding step_kept_def
    by (intro exI [of _ s] exI [of _ g] exI [of _ t] exI [of _ cs]) simp
qed

lemma step_kept_writable:
  assumes ok: "writers_ok dir ps args cs s g ts" and i: "i < length args" and t: "ts ! i = Writable p"
  shows "step_kept dir ps args cs s g ts i"
proof -
  note D = writers_okD [OF ok]
  have p: "p = args ! i" "i \<notin> set cs" using D(4) [OF i] t by simp_all
  from ok obtain s' where s': "seg_ok s' dir g (claimed ps args cs)" by (rule completion)
  have w: "unat (op_data (sg_w g)) = length (frames (claimed ps args cs))" using seg_okD [OF s'] by (simp add: seg_rep_def)
  have fit: "fits g (claimed ps args cs) p" using claim_room(1) [OF D(2,3) i p(2) D(6)] p(1) by simp
  then have "\<not> (header_size + (header_size + size_of p) > size_of_u32 (sg_size g) - size_of_u32 (op_data (sg_w g)))"
    using write_guard [of "op_data (sg_w g)" "sg_size g" p] fits_bounds(1) [OF fit] w by (simp add: fits_def)
  then show ?thesis using t p by (intro step_kept_idle [OF ok i, of "Claiming p (sg_w g)"]) (auto simp: Let_def)
qed

lemma step_kept_claiming:
  assumes ok: "writers_ok dir ps args cs s g ts" and i: "i < length args" and t: "ts ! i = Claiming p cur"
  shows "step_kept dir ps args cs s g ts i"
proof (cases "cur = sg_w g")
  case True
  note D = writers_okD [OF ok]
  have p: "p = args ! i" "i \<notin> set cs" using D(4) [OF i] t by simp_all
  have fit: "fits g (claimed ps args cs) p" using claim_room(1) [OF D(2,3) i p(2) D(6)] p(1) by simp
  have "thread_step s g (ts ! i) = Some (s, g\<lparr>sg_w := next_pair g p\<rparr>, Storing (write_stores g (sg_w g) p) (int (length p)))"
    using t True fits_bounds(4) [OF fit] by (simp add: claim_def next_pair_def write_stores_def Let_def)
  moreover have "grows cs g ts (cs @ [i]) (g\<lparr>sg_w := next_pair g p\<rparr>) (ts[i := Storing (write_stores g (sg_w g) p) (int (length p))])"
    using p(2) by (auto simp: grows_def) (metis nth_list_update_neq suffix_order.order_refl)
  ultimately show ?thesis using claim_step [OF ok i p(2)] p(1) unfolding step_kept_def by blast
next
  case False
  then have "thread_step s g (ts ! i) = Some (s, g, Returned ELLOCK)" using t by (simp add: claim_def ELLOCK_def)
  then show ?thesis using writers_okD(4) [OF ok i] t False by (intro step_kept_idle [OF ok i, of "Returned ELLOCK"]) auto
qed

lemma step_kept_storing:
  assumes ok: "writers_ok dir ps args cs s g ts" and i: "i < length args" and t: "ts ! i = Storing xs rc"
  shows "step_kept dir ps args cs s g ts i"
proof (cases xs)
  case Nil
  from writers_okD(4) [OF ok i, unfolded t] obtain k where "k < length cs" "cs ! k = i" "rc = int (length (args ! i))" by (rule storing_okE)
  then show ?thesis using t Nil by (intro step_kept_idle [OF ok i, of "Returned rc"]) auto
next
  case (Cons x ys)
  obtain p off bs where "x = (p, off, bs)" by (cases x)
  with t Cons have t': "ts ! i = Storing ((p, off, bs) # ys) rc" by simp
  from store_step [OF ok i t'] obtain s1 where s1: "mem_store s p off bs = Some s1"
    "writers_ok dir ps args cs s1 g (ts[i := Storing ys rc])" by blast
  have "i < length ts" using i writers_okD(1) [OF ok] by simp
  then have "grows cs g ts cs g (ts[i := Storing ys rc])" using t' by (intro grows_idle) (simp_all add: suffix_ConsI)
  then show ?thesis using t' s1 unfolding step_kept_def by (intro exI [of _ s1] exI [of _ g] exI [of _ "Storing ys rc"] exI [of _ cs]) simp
qed

lemma writers_step:
  assumes ok: "writers_ok dir ps args cs s g ts" and i: "i < length args" and run: "running (ts ! i)"
  shows "step_kept dir ps args cs s g ts i"
proof (cases "ts ! i")
  case (Called p)
  then show ?thesis using writers_okD(4) [OF ok i]
    by (intro step_kept_idle [OF ok i, of "if size_of_u32 (op_data (sg_w g)) < header_size then Writable p else Marked p (size_of_u32 (op_data (sg_w g)))"])
      (auto simp: word_less_nat_alt)
next
  case (Marked p w)
  with writers_okD(4) [OF ok i] obtain fl where "ld_u16 s (sg_buffer g) (unat (w - header_size)) = Some fl" "cs = [] \<longrightarrow> fl \<noteq> HEADER_FLAGS_EOS"
    using marked_load [OF ok, of w] by auto
  then show ?thesis using writers_okD(4) [OF ok i] Marked
    by (intro step_kept_idle [OF ok i, of "if fl = HEADER_FLAGS_EOS then Returned ELEOS else Writable p"]) auto
next
  case (Claiming_eos cur)
  then show ?thesis using writers_okD(4) [OF ok i] by simp
qed (use run step_kept_writable [OF ok i] step_kept_claiming [OF ok i] step_kept_storing [OF ok i] in simp_all)

lemma writers_steps:
  assumes "write_step\<^sup>*\<^sup>* (s, g, ts) (s', g', ts')" "writers_ok dir ps args cs s g ts"
  shows "\<exists>cs'. writers_ok dir ps args cs' s' g' ts' \<and> grows cs g ts cs' g' ts'"
  using assms
proof (induction "(s', g', ts')" arbitrary: s' g' ts' rule: rtranclp_induct)
  case base
  then show ?case by (auto intro: exI [of _ cs])
next
  case (step st)
  obtain s1 g1 ts1 where st: "st = (s1, g1, ts1)" by (cases st)
  from step(3) [OF st step(4)] obtain cs1 where 1: "writers_ok dir ps args cs1 s1 g1 ts1" "grows cs g ts cs1 g1 ts1" by blast
  from step(2) [unfolded st] obtain i t where i: "i < length ts1" "thread_step s1 g1 (ts1 ! i) = Some (s', g', t)" "ts' = ts1[i := t]"
    by (auto elim: write_stepE)
  then have "running (ts1 ! i)" by (cases "ts1 ! i") auto
  from writers_step [OF 1(1) _ this] i writers_okD(1) [OF 1(1)] obtain cs2 where
    "writers_ok dir ps args cs2 s' g' ts'" "grows cs1 g1 ts1 cs2 g' ts'" by (auto simp: step_kept_def)
  then show ?case using grows_trans [OF 1(2)] by blast
qed

lemma writers_start:
  assumes "seg_ok s dir g ps" "\<not> looks_eos ps" "length (frames ps) + length (frames args) + 12 \<le> unat (sg_size g)"
    and "length ps + length args \<le> index_room s g"
  shows "writers_ok dir ps args [] s g (map Called args)"
  using assms by (simp add: writers_ok_def claimed_def)

end
