(* ===== verification/Segment_Concurrency.thy ===== *)
theory Segment_Concurrency
  imports Segment_Linear
begin

text \<open>
  The properties of threads that write to one segment at the same time
  (\<^verbatim>\<open>src/src/segment.c\<close>), for all interleavings of their steps, and what goes wrong when several
  of them find the segment full.
\<close>

section \<open>All writes together\<close>

lemma writers_all:
  assumes "seg_ok s dir g ps" "\<not> looks_eos ps" "length (frames ps) + length (frames args) + 12 \<le> unat (sg_size g)"
    and "length ps + length args \<le> index_room s g" "write_step\<^sup>*\<^sup>* (s, g, map Called args) (s', g', ts)"
  obtains cs where "writers_ok dir ps args cs s' g' ts" "grows [] g (map Called args) cs g' ts"
  using writers_steps [OF assms(5) writers_start [OF assms(1-4)]] by blast

lemma writers_not_faulty:
  assumes "writers_ok dir ps args cs s g ts"
  shows "\<not> faulty (s, g, ts)"
proof -
  have "thread_step s g t \<noteq> None" if t: "t \<in> set ts" "running t" for t
  proof -
    from t(1) obtain i where i: "i < length ts" "t = ts ! i" by (auto simp: in_set_conv_nth)
    then have "i < length args" using writers_okD(1) [OF assms] by simp
    from writers_step [OF assms this] t(2) i show ?thesis by (auto simp: step_kept_def)
  qed
  then show ?thesis by (auto simp: faulty_def)
qed

lemma writers_done:
  assumes ok: "writers_ok dir ps args cs s g ts" and fin: "finished (s, g, ts)"
  shows "seg_ok s dir g (claimed ps args cs)" "i < length args \<Longrightarrow> ts ! i = Returned (int (length (args ! i))) \<longleftrightarrow> i \<in> set cs"
    "i < length args \<Longrightarrow> i \<notin> set cs \<Longrightarrow> cs \<noteq> [] \<and> ts ! i \<in> {Returned ELLOCK, Returned ELEOS}"
proof -
  note D = writers_okD [OF ok]
  have ret: "\<exists>rc. ts ! i = Returned rc" if "i < length args" for i
  proof -
    have "\<not> running (ts ! i)" using fin that D(1) by (simp add: finished_def)
    then show ?thesis by (cases "ts ! i") auto
  qed
  have "pend (ts ! i) = []" if "i \<in> set cs" for i 
  proof -
    have "i < length args" using D(3) that by auto
    then show ?thesis using ret [of i] by auto
  qed
  then have "rest cs ts = []" by simp
  with ok show "seg_ok s dir g (claimed ps args cs)" unfolding writers_ok_def by auto
  show 3: "cs \<noteq> [] \<and> ts ! i \<in> {Returned ELLOCK, Returned ELEOS}" if "i < length args" "i \<notin> set cs"
    using ret [OF that(1)] D(4) [OF that(1)] that(2) by auto
  show "ts ! i = Returned (int (length (args ! i))) \<longleftrightarrow> i \<in> set cs" if "i < length args"
    using ret [OF that] D(4) [OF that] 3 [OF that] by (auto simp: ELLOCK_def ELEOS_def split: if_splits)
qed

text \<open>How many steps a thread can still take.\<close>

fun steps_left :: "thread \<Rightarrow> nat" where
  "steps_left (Called p) = 13"
| "steps_left (Marked p w) = 12"
| "steps_left (Writable p) = 11"
| "steps_left (Claiming p cur) = 10"
| "steps_left (Claiming_eos cur) = 10"
| "steps_left (Storing xs rc) = Suc (length xs)"
| "steps_left (Returned rc) = 0"

lemma thread_step_left:
  assumes "thread_step s g t = Some (s', g', t')"
  shows "steps_left t' < steps_left t"
  using assms
  by (cases "(s, g, t)" rule: thread_step.cases)
    (auto simp: Let_def write_stores_def eos_stores_list_def header_init_stores_def bind_eq_Some_conv split: if_splits prod.splits)

lemma write_step_left:
  assumes "write_step (s, g, ts) (s', g', ts')"
  shows "sum_list (map steps_left ts') < sum_list (map steps_left ts)"
proof -
  from assms obtain i t where i: "i < length ts" "thread_step s g (ts ! i) = Some (s', g', t)" "ts' = ts[i := t]"
    by (auto elim: write_stepE)
  have "sum_list (map steps_left ts) = sum_list (map steps_left (take i ts)) + steps_left (ts ! i) + sum_list (map steps_left (drop (Suc i) ts))"
    by (subst id_take_nth_drop [OF i(1)]) simp
  moreover have "sum_list (map steps_left ts') = sum_list (map steps_left (take i ts)) + steps_left t + sum_list (map steps_left (drop (Suc i) ts))"
    using i(1) by (simp add: i(3) upd_conv_take_nth_drop)
  ultimately show ?thesis using thread_step_left [OF i(2)] by simp
qed

text \<open>No thread takes more steps than it had left at the start.\<close>

lemma run_bound:
  "write_run (s, g, ts) is (s', g', ts') \<Longrightarrow> length ts' = length ts \<and> (\<forall>i < length ts. count_list is i + steps_left (ts' ! i) \<le> steps_left (ts ! i))"
proof (induction "is" "(s', g', ts')" arbitrary: s' g' ts' rule: write_run.induct)
  case (step "is" s1 g1 ts1 i s2 g2 t)
  then show ?case using thread_step_left [OF step(4)] by (fastforce simp: nth_list_update)
qed simp

lemma not_stuck:
  assumes "writers_ok dir ps args cs s g ts" "\<not> finished (s, g, ts)"
  shows "\<exists>st. write_step (s, g, ts) st"
proof -
  from assms(2) obtain t where "t \<in> set ts" "running t" by (auto simp: finished_def)
  then obtain i where i: "i < length ts" "running (ts ! i)" by (auto simp: in_set_conv_nth)
  then show ?thesis using writers_step [OF assms(1), unfolded step_kept_def] writers_okD(1) [OF assms(1)] by (metis write_step.intros)
qed

lemma run_finishes:
  assumes "writers_ok dir ps args cs s g ts"
  shows "\<exists>s' g' ts'. write_step\<^sup>*\<^sup>* (s, g, ts) (s', g', ts') \<and> finished (s', g', ts')"
  using assms
proof (induction "sum_list (map steps_left ts)" arbitrary: cs s g ts rule: less_induct)
  case less
  show ?case
  proof (cases "finished (s, g, ts)")
    case False
    from not_stuck [OF less.prems this] obtain s1 g1 ts1 where 1: "write_step (s, g, ts) (s1, g1, ts1)" by auto
    from 1 have "write_step\<^sup>*\<^sup>* (s, g, ts) (s1, g1, ts1)" by (rule r_into_rtranclp)
    from writers_steps [OF this less.prems] obtain cs1 where "writers_ok dir ps args cs1 s1 g1 ts1" by blast
    from less.hyps [OF write_step_left [OF 1] this] 1 show ?thesis by (meson converse_rtranclp_into_rtranclp)
  qed blast
qed

section \<open>Properties\<close>

text \<open>C26. Threads that write payloads to a segment with room for all of them never access memory
  outside of the mappings, in any interleaving. When all have returned, the segment holds
  what it held before, followed by the payloads of the threads that returned a
  size, each once, in the order of their claims; the others returned \<open>ELLOCK\<close> or
  \<open>ELEOS\<close> and left nothing.\<close>

theorem concurrent_writes_linearise:
  assumes "seg_ok s dir g ps" "\<not> looks_eos ps" "length (frames ps) + length (frames args) + 12 \<le> unat (sg_size g)"
    and "length ps + length args \<le> index_room s g"
    and "write_step\<^sup>*\<^sup>* (s, g, map Called args) (s', g', ts)"
  shows "\<not> faulty (s', g', ts) \<and> (finished (s', g', ts) \<longrightarrow>
    (\<exists>cs. distinct cs \<and> seg_ok s' dir g' (ps @ map (\<lambda>i. args ! i) cs) \<and>
      set cs = {i. i < length args \<and> ts ! i = Returned (int (length (args ! i)))} \<and>
      (\<forall>i < length args. i \<notin> set cs \<longrightarrow> ts ! i \<in> {Returned ELLOCK, Returned ELEOS})))"
proof -
  from assms obtain cs where ok: "writers_ok dir ps args cs s' g' ts" by (rule writers_all)
  have "\<exists>cs. distinct cs \<and> seg_ok s' dir g' (ps @ map (\<lambda>i. args ! i) cs) \<and>
      set cs = {i. i < length args \<and> ts ! i = Returned (int (length (args ! i)))} \<and>
      (\<forall>i < length args. i \<notin> set cs \<longrightarrow> ts ! i \<in> {Returned ELLOCK, Returned ELEOS})" if "finished (s', g', ts)"
    using writers_done [OF ok that] writers_okD [OF ok] by (intro exI [of _ cs]) (auto simp: claimed_def)
  then show ?thesis using writers_not_faulty [OF ok] by blast
qed

lemma demo_writers:
  "writers_ok ''d'' [] [[1], [2, 3]] [] demo_open_os demo_seg (map Called [[1], [2, 3]])"
  by (rule writers_start [OF demo_open(2)]) (simp_all add: looks_eos_def)

theorem concurrent_writes_linearise_witness:
  "\<exists>s g ts cs. write_step\<^sup>*\<^sup>* (demo_open_os, demo_seg, [Called [1], Called [2, 3]]) (s, g, ts) \<and> finished (s, g, ts) \<and>
     \<not> faulty (s, g, ts) \<and> distinct cs \<and> set cs \<subseteq> {0, 1} \<and> seg_ok s ''d'' g (map (\<lambda>i. [[1], [2, 3]] ! i) cs)"
proof -
  from run_finishes [OF demo_writers] obtain s g ts where
    r: "write_step\<^sup>*\<^sup>* (demo_open_os, demo_seg, map Called [[1], [2, 3]]) (s, g, ts)" "finished (s, g, ts)" by blast
  have "\<not> looks_eos []" by (simp add: looks_eos_def)
  from concurrent_writes_linearise [OF demo_open(2) this _ _ r(1)] r(2) obtain cs where
    c: "\<not> faulty (s, g, ts)" "distinct cs" "seg_ok s ''d'' g (map (\<lambda>i. [[1], [2, 3]] ! i) cs)" "set cs \<subseteq> {..<Suc (Suc 0)}" by auto
  have "{..<Suc (Suc 0)} = {0, 1 :: nat}" by auto
  with c r show ?thesis by (intro exI [of _ s] exI [of _ g] exI [of _ ts] exI [of _ cs]) simp
qed

text \<open>C28. Writing is without locks. Threads write to a segment that has room for the frames and
  the index entries of all of them, and whose contents do not look like an end mark. In every interleaving no thread
  takes more than 13 steps, and every thread that has not returned yet can take its next step, whatever the others have
  done; and when all have returned, at least one of them has written its payload.\<close>

theorem concurrent_writes_progress:
  assumes "seg_ok s dir g ps" "\<not> looks_eos ps" "length (frames ps) + length (frames args) + 12 \<le> unat (sg_size g)"
    and "length ps + length args \<le> index_room s g"
    and "write_run (s, g, map Called args) is (s', g', ts)"
  shows "(\<forall>i < length args. count_list is i \<le> 13 \<and> (running (ts ! i) \<longrightarrow> (\<exists>st. thread_step s' g' (ts ! i) = Some st))) \<and>
    (finished (s', g', ts) \<longrightarrow> args = [] \<or> (\<exists>i < length args. ts ! i = Returned (int (length (args ! i)))))"
proof -
  have n: "\<forall>i < length args. count_list is i \<le> 13" using run_bound [OF assms(5)] by fastforce
  from assms(1-4) write_run_steps [OF assms(5)] obtain cs where
    ok: "writers_ok dir ps args cs s' g' ts" by (rule writers_all)
  have "\<forall>i < length args. running (ts ! i) \<longrightarrow> (\<exists>st. thread_step s' g' (ts ! i) = Some st)"
    using writers_step [OF ok] unfolding step_kept_def by blast
  moreover have "\<exists>i < length args. ts ! i = Returned (int (length (args ! i)))" if fin: "finished (s', g', ts)" "args \<noteq> []"
  proof (cases "cs = []")
    case False
    then show ?thesis using writers_done(2) [OF ok fin(1)] writers_okD(3) [OF ok] by (cases cs) auto
  next
    case True
    then show ?thesis using writers_done(3) [OF ok fin(1), of 0] fin(2) by simp
  qed
  ultimately show ?thesis using n by blast
qed

theorem concurrent_writes_progress_witness:
  "\<exists>is s g ts. write_run (demo_open_os, demo_seg, [Called [1], Called [2, 3]]) is (s, g, ts) \<and>
     count_list is 0 \<le> 13 \<and> count_list is 1 \<le> 13 \<and> (ts ! 0 = Returned 1 \<or> ts ! 1 = Returned 2)"
proof -
  from run_finishes [OF demo_writers] obtain s g ts where
    r: "write_step\<^sup>*\<^sup>* (demo_open_os, demo_seg, map Called [[1], [2, 3]]) (s, g, ts)" "finished (s, g, ts)" by blast
  from write_steps_run [OF r(1)] obtain "is" where n: "write_run (demo_open_os, demo_seg, map Called [[1], [2, 3]]) is (s, g, ts)" ..
  have "\<not> looks_eos []" by (simp add: looks_eos_def)
  from concurrent_writes_progress [OF demo_open(2) this _ _ n] r(2)
  have "count_list is 0 \<le> 13" "count_list is 1 \<le> 13" "ts ! 0 = Returned 1 \<or> ts ! 1 = Returned 2"
    by (auto simp: less_Suc_eq)
  with n show ?thesis by (intro exI [of _ "is"] exI [of _ s] exI [of _ g] exI [of _ ts]) simp
qed

section \<open>Two threads at the end of a segment\<close>

lemma thread_checks:
  assumes rep: "seg_rep s g ps" and ne: "\<not> looks_eos ps" and i: "i < length ts" "ts ! i = Called p"
  shows "write_step\<^sup>*\<^sup>* (s, g, ts) (s, g, ts[i := Writable p])"
proof -
  let ?w = "size_of_u32 (op_data (sg_w g))"
  show ?thesis
  proof (cases "?w < header_size")
    case True
    then have "write_step (s, g, ts) (s, g, ts[i := Writable p])"
      using i by (intro write_step.intros) simp_all
    then show ?thesis by (rule r_into_rtranclp)
  next
    case False
    then have 1: "write_step (s, g, ts) (s, g, ts[i := Marked p ?w])"
      using i by (intro write_step.intros) simp_all
    from marked_eos_rep [OF rep] ne False obtain fl where "ld_u16 s (sg_buffer g) (unat (?w - header_size)) = Some fl"
      "fl \<noteq> HEADER_FLAGS_EOS" by (auto simp: marked_eos_def Let_def bind_eq_Some_conv)
    then have "write_step (s, g, ts[i := Marked p ?w]) (s, g, ts[i := Marked p ?w, i := Writable p])"
      using i by (intro write_step.intros) simp_all
    with 1 show ?thesis by (simp add: converse_rtranclp_into_rtranclp)
  qed
qed

lemma thread_claims_eos:
  assumes i: "i < length ts" "ts ! i = Writable p" and len: "length p + 24 < 2 ^ 64"
    and w: "unat (op_data (sg_w g)) \<le> unat (sg_size g)" "unat (sg_size g) - unat (op_data (sg_w g)) < length p + 24"
  defines "cur \<equiv> sg_w g"
  shows "write_step\<^sup>*\<^sup>* (s, g, ts) (s, g\<lparr>sg_w := \<lparr>op_index = op_index cur, op_data = u32_of_size (size_of_u32 (op_data cur) + header_size)\<rparr>\<rparr>,
      ts[i := Storing (eos_stores_list g cur) ELEOS])"
    (is "write_step\<^sup>*\<^sup>* _ (s, ?g, _)")
proof -
  have "write_step (s, g, ts) (s, g, ts[i := Claiming_eos cur])"
    using i write_guard [OF w(1) len] w(2) by (intro write_step.intros) (simp_all add: Let_def cur_def)
  moreover have "thread_step s g (Claiming_eos cur) = Some (s, ?g, Storing (eos_stores_list g cur) ELEOS)"
    by (simp add: claim_def cur_def eos_stores_list_def Let_def)
  then have "write_step (s, g, ts[i := Claiming_eos cur]) (s, ?g, ts[i := Claiming_eos cur, i := Storing (eos_stores_list g cur) ELEOS])"
    using i by (intro write_step.intros) simp_all
  ultimately show ?thesis by (simp add: converse_rtranclp_into_rtranclp)
qed

text \<open>C30. A segment keeps room for one end mark only. When two threads have both checked that it has
  no end mark yet, both claim space for one; the second header begins at the end of
  the data mapping, and storing it leaves the mapping.\<close>

theorem concurrent_ends_overrun:
  assumes rep: "seg_rep s g ps" and ne: "\<not> looks_eos ps" and full: "length (frames ps) + 12 = unat (sg_size g)"
    and len: "length p + 24 < 2 ^ 64" "length q + 24 < 2 ^ 64"
  shows "\<exists>s' g' ts. write_step\<^sup>*\<^sup>* (s, g, [Called p, Called q]) (s', g', ts) \<and> faulty (s', g', ts)"
proof -
  from rep obtain fd where f: "files s (sg_buffer g) = Some fd" "length (fbytes fd) = unat (sg_size g)"
    and w: "unat (op_data (sg_w g)) = length (frames ps)" by (auto simp: seg_rep_def elim!: seg_layoutE)
  define g1 where "g1 = g\<lparr>sg_w := \<lparr>op_index = op_index (sg_w g), op_data = u32_of_size (size_of_u32 (op_data (sg_w g)) + header_size)\<rparr>\<rparr>"
  define g2 where "g2 = g1\<lparr>sg_w := \<lparr>op_index = op_index (sg_w g1), op_data = u32_of_size (size_of_u32 (op_data (sg_w g1)) + header_size)\<rparr>\<rparr>"
  let ?t1 = "Storing (eos_stores_list g (sg_w g)) ELEOS" and ?t2 = "Storing (eos_stores_list g1 (sg_w g1)) ELEOS"
  have "length (frames ps) + 12 < 2 ^ 32" using full unsigned_less [of "sg_size g", where ?'a = nat] by simp
  then have w1: "unat (op_data (sg_w g1)) = unat (sg_size g)"
    using u32_add_size [of "op_data (sg_w g)" header_size] full w by (simp add: g1_def)
  have a: "write_step\<^sup>*\<^sup>* (s, g, [Called p, Called q]) (s, g, [Writable p, Called q])"
    using thread_checks [OF rep ne, of 0 "[Called p, Called q]" p] by simp
  have b: "write_step\<^sup>*\<^sup>* (s, g, [Writable p, Called q]) (s, g, [Writable p, Writable q])"
    using thread_checks [OF rep ne, of 1 "[Writable p, Called q]" q] by simp
  have c: "write_step\<^sup>*\<^sup>* (s, g, [Writable p, Writable q]) (s, g1, [?t1, Writable q])"
    using thread_claims_eos [of 0 "[Writable p, Writable q]" p g s] len(1) w full by (simp add: g1_def)
  have d: "write_step\<^sup>*\<^sup>* (s, g1, [?t1, Writable q]) (s, g2, [?t1, ?t2])"
    using thread_claims_eos [of 1 "[?t1, Writable q]" q g1 s] len(2) w1 by (simp add: g2_def) (simp add: g1_def)
  have "thread_step s g2 ?t2 = None"
    using f w1 by (simp add: eos_stores_list_def header_init_stores_def Let_def mem_store_def) (simp add: g1_def)
  then have "faulty (s, g2, [?t1, ?t2])" by (simp add: faulty_def)
  then show ?thesis using a b c d by (meson rtranclp_trans)
qed

theorem concurrent_ends_overrun_witness:
  "\<exists>s g s' g' ts. segment_write demo_open_os demo_seg (zeros 1000) = Some (s, g, 1000) \<and>
     write_step\<^sup>*\<^sup>* (s, g, [Called [1], Called [2]]) (s', g', ts) \<and> faulty (s', g', ts)"
proof -
  let ?p = "zeros 1000"
  let ?s = "after_write demo_open_os demo_seg [] ?p" and ?g = "demo_seg\<lparr>sg_w := next_pair demo_seg ?p\<rparr>"
  have ok: "segment_write demo_open_os demo_seg ?p = Some (?s, ?g, 1000)" "seg_ok ?s ''d'' ?g [?p]"
    using segment_write_ok [OF demo_open(2), of ?p] by (simp_all add: looks_eos_def)
  from concurrent_ends_overrun [OF seg_okD [OF ok(2)] looks_eos_zeros, of "[1]" "[2]"] ok(1) show ?thesis by auto
qed

end
