(* ===== verification/Segment_Readers.thy ===== *)
theory Segment_Readers
  imports Segment_Concurrency
begin

text \<open>
  A thread in \<open>segment_read\<close> (\<^verbatim>\<open>src/src/segment.c\<close>) while other threads write to the segment. One step of the
  reader is one load from the shared memory, in the order of the function: the write position in the data,
  the synchronised position when the flags ask for it, the write position in the index, the index entry, the flags of the header,
  its size. Between any two of them the writers may take any number of steps. Readers do not store anything,
  so they do not disturb each other and one of them is enough. The synchronised position does not change
  meanwhile.
\<close>

section \<open>The steps of a reader\<close>

datatype reader =
    Read_called
  | Read_written u64
  | Read_bounded u64
  | Read_inside u64
  | Read_physical u64
  | Read_ready u64
  | Read_returned int frame

fun reader_step :: "os \<Rightarrow> segment \<Rightarrow> u64 \<Rightarrow> frame \<Rightarrow> reader \<Rightarrow> reader option" where
  "reader_step s sgm relative_offset fr Read_called = Some (Read_written (size_of_u32 (op_data (sg_w sgm))))"
| "reader_step s sgm relative_offset fr (Read_written boundary) =
     Some (Read_bounded (if sg_flags sgm AND SGM_RDCMT = SGM_RDCMT then size_of_u32 (op_data (sg_s sgm)) else boundary))"
| "reader_step s sgm relative_offset fr (Read_bounded boundary) =
     (let i_offset = size_of_u32 (op_index (sg_w sgm)) in
      Some (if relative_offset \<ge> i_offset then Read_returned ELNORD fr else Read_inside boundary))"
| "reader_step s sgm relative_offset fr (Read_inside boundary) = do {
     physical_offset \<leftarrow> ld_u64 s (sg_index sgm) (8 * unat relative_offset);
     Some (if relative_offset \<noteq> 0 \<and> physical_offset = 0 then Read_returned ELNORD fr
           else if physical_offset \<ge> boundary then Read_returned ELNORD fr
           else Read_physical physical_offset) }"
| "reader_step s sgm relative_offset fr (Read_physical physical_offset) =
     (let hdr = unat physical_offset; b = sg_buffer sgm in do {
        fl \<leftarrow> ld_u16 s b hdr;
        Some (if fl = HEADER_FLAGS_READY then Read_ready physical_offset
              else if fl = HEADER_FLAGS_EOS then Read_returned ELEOS (fr\<lparr>fr_hdr := Some (b, hdr)\<rparr>)
              else Read_returned ELINVHD fr) })"
| "reader_step s sgm relative_offset fr (Read_ready physical_offset) =
     (let hdr = unat physical_offset; b = sg_buffer sgm;
          fr = \<lparr>fr_hdr = Some (b, hdr), fr_buffer = Some (b, hdr + unat header_size)\<rparr> in do {
        sz \<leftarrow> ld_u32 s b (hdr + 4);
        Some (Read_returned (ssize (size_of_u32 sz - header_size)) fr) })"
| "reader_step s sgm relative_offset fr (Read_returned rc fr') = None"

text \<open>A reader that is not interrupted does what \<open>segment_read\<close> does.\<close>

fun reader_run :: "nat \<Rightarrow> os \<Rightarrow> segment \<Rightarrow> u64 \<Rightarrow> frame \<Rightarrow> reader \<Rightarrow> (int \<times> frame) option" where
  "reader_run n s sgm rel fr (Read_returned rc fr') = Some (rc, fr')"
| "reader_run 0 s sgm rel fr r = None"
| "reader_run (Suc n) s sgm rel fr r = do { r \<leftarrow> reader_step s sgm rel fr r; reader_run n s sgm rel fr r }"

lemma reader_alone: "reader_run 6 s sgm rel fr Read_called = segment_read s sgm rel fr"
proof -
  have "reader_run (Suc (Suc (Suc (Suc (Suc (Suc 0)))))) s sgm rel fr Read_called = segment_read s sgm rel fr"
    by (simp add: segment_read_def Let_def split: Option.bind_split)
  then show ?thesis by (simp add: eval_nat_numeral)
qed

section \<open>Interleaving\<close>

inductive read_step :: "u64 \<Rightarrow> frame \<Rightarrow> writers \<times> reader \<Rightarrow> writers \<times> reader \<Rightarrow> bool" for rel fr where
  by_writer: "write_step w w' \<Longrightarrow> read_step rel fr (w, r) (w', r)"
| by_reader: "reader_step s sgm rel fr r = Some r' \<Longrightarrow> read_step rel fr ((s, sgm, ts), r) ((s, sgm, ts), r')"

fun reading :: "reader \<Rightarrow> bool" where
  "reading (Read_returned rc fr) = False"
| "reading r = True"

section \<open>Reading while others write\<close>

text \<open>A frame that can be read: the thread that writes it has at most its index entry left to
  store, and not even this one unless it is the first frame.\<close>

definition visible :: "bytes list \<Rightarrow> nat list \<Rightarrow> thread list \<Rightarrow> nat \<Rightarrow> bool" where
  "visible ps cs ts j \<longleftrightarrow>
     (\<forall>k < length cs. j = length ps + k \<longrightarrow> length (pend (ts ! (cs ! k))) \<le> (if j = 0 then 1 else 0))"

lemma visible_grows:
  assumes "grows cs g ts cs' g' ts'" "visible ps cs ts j" "j < length ps + length cs"
  shows "visible ps cs' ts' j"
proof -
  from assms(1) obtain ds where ds: "cs' = cs @ ds" by (auto simp: grows_def prefix_def)
  have "length (pend (ts' ! (cs' ! k))) \<le> (if j = 0 then 1 else 0)" if k: "k < length cs'" "j = length ps + k" for k
  proof -
    have kl: "k < length cs" using assms(3) k(2) by simp
    then have "suffix (pend (ts' ! (cs ! k))) (pend (ts ! (cs ! k)))" using assms(1) by (simp add: grows_def)
    then show ?thesis
      using assms(2) kl k(2) by (auto simp: visible_def ds nth_append dest!: suffix_length_le split: if_splits)
  qed
  then show ?thesis by (simp add: visible_def)
qed

lemma last_store:
  assumes "n < 8" "length (drop n (slot_stores g qs j)) \<le> 1"
  shows "drop n (slot_stores g qs j) = [(sg_index g, 8 * j, le_encode 8 (foffset qs j))]"
proof -
  have n: "n = 7" using assms by (simp add: slot_stores_def)
  show ?thesis unfolding n by (simp add: slot_stores_def stores_at_def header_init_stores_def)
qed

text \<open>What is left to store of a visible frame, and what a reader sees of it: the bytes in the data file as
  they will be in the end, and the right offset in the index.\<close>

lemma visible_pend:
  assumes ok: "writers_ok dir ps args cs s g ts" and vis: "visible ps cs ts j" and k: "k < length cs" "j = length ps + k"
  shows "pend (ts ! (cs ! k)) = [] \<or> j = 0 \<and> pend (ts ! (cs ! k)) = [(sg_index g, 8 * j, le_encode 8 (foffset (claimed ps args cs) j))] \<and>
      mem_load s (sg_index g) (8 * j) 8 = Some (zeros 8)"
proof (cases "ts ! (cs ! k)")
  case (Storing xs rc)
  have "cs ! k < length args" using writers_okD(3) [OF ok] k(1) by (auto dest: nth_mem)
  from writers_okD(4) [OF ok this, unfolded Storing] obtain k' n where k': "k' < length cs" "cs ! k' = cs ! k"
    "xs = drop n (slot_stores g (claimed ps args cs) (length ps + k'))" "unstored s g (length ps + k') (length xs)" by (rule storing_okE)
  have kk: "k' = k" using k'(1,2) k(1) writers_okD(2) [OF ok] by (simp add: nth_eq_iff_index_eq)
  have xs: "length xs \<le> (if j = 0 then 1 else 0)" using vis k Storing unfolding visible_def by auto
  show ?thesis
  proof (cases "xs = []")
    case False
    then have "n < 8" "j = 0" "length xs \<le> 1" using xs k'(3) by (auto simp: slot_stores_def split: if_splits)
    then show ?thesis using last_store [of n g "claimed ps args cs" "length ps + k'"] k' kk k(2) Storing by (auto simp: unstored_def)
  qed (simp add: Storing)
qed auto

lemma rest_member:
  assumes "x \<in> set (rest cs ts)"
  obtains k where "k < length cs" "x \<in> set (pend (ts ! (cs ! k)))"
  using assms by (auto simp: in_set_conv_nth [of _ cs])

lemma visible_data:
  assumes ok: "writers_ok dir ps args cs s g ts" and vis: "visible ps cs ts j" and j: "j < length (claimed ps args cs)"
    and s': "run_stores s (rest cs ts) = Some s'" "sg_buffer g \<noteq> sg_index g"
    and r: "foffset (claimed ps args cs) j \<le> off" "off + n \<le> foffset (claimed ps args cs) j + 12 + length (claimed ps args cs ! j)"
  shows "mem_load s (sg_buffer g) off n = mem_load s' (sg_buffer g) off n"
proof (rule load_run_other [OF s'(1), symmetric], rule ballI)
  let ?all = "claimed ps args cs"
  fix x assume "x \<in> set (rest cs ts)"
  then obtain k where k: "k < length cs" "x \<in> set (pend (ts ! (cs ! k)))" by (rule rest_member)
  obtain q o1 bs where q: "x = (q, o1, bs)" by (cases x)
  show "indep x (sg_buffer g, off, zeros n)"
  proof (cases "q = sg_buffer g")
    case True
    have ne: "length ps + k \<noteq> j" using visible_pend [OF ok vis k(1)] k(2) True s'(2) q by auto
    have "foffset ?all (length ps + k) \<le> o1 \<and> o1 + length bs \<le> foffset ?all (length ps + k) + 12 + length (?all ! (length ps + k))"
      using stores_at_range [OF rest_in_slots [OF ok k(2,1), unfolded slot_stores_def q]] True s'(2) by auto
    then show ?thesis
      using slots_apart [of "length ps + k" j ?all] slots_apart [of j "length ps + k" ?all] ne j k(1) r q
      by (cases "length ps + k < j") auto
  qed (simp add: q)
qed

lemma visible_index:
  assumes ok: "writers_ok dir ps args cs s g ts" and vis: "visible ps cs ts j"
    and s': "run_stores s (rest cs ts) = Some s'" "sg_buffer g \<noteq> sg_index g"
      "ld_u64 s' (sg_index g) (8 * j) = Some (word_of_nat (foffset (claimed ps args cs) j))"
  shows "ld_u64 s (sg_index g) (8 * j) = Some (word_of_nat (foffset (claimed ps args cs) j))"
proof (cases "\<exists>x \<in> set (rest cs ts). \<not> indep x (sg_index g, 8 * j, zeros 8)")
  case True
  then obtain x where x: "x \<in> set (rest cs ts)" "\<not> indep x (sg_index g, 8 * j, zeros 8)" by blast
  from x(1) obtain k where k: "k < length cs" "x \<in> set (pend (ts ! (cs ! k)))" by (rule rest_member)
  obtain q o1 bs where q: "x = (q, o1, bs)" by (cases x)
  from x(2) s'(2) have "j = length ps + k"
    using stores_at_range [OF rest_in_slots [OF ok k(2,1), unfolded slot_stores_def q]] by (auto simp: q)
  with visible_pend [OF ok vis k(1)] k(2) have "j = 0" "mem_load s (sg_index g) (8 * j) 8 = Some (zeros 8)" by auto
  then show ?thesis by (simp add: ld_u64_def foffset_def)
next
  case False
  then have "mem_load s' (sg_index g) (8 * j) 8 = mem_load s (sg_index g) (8 * j) 8"
    by (intro load_run_other [OF s'(1)]) auto
  then show ?thesis using s'(3) by (simp add: ld_u64_def)
qed

text \<open>What the loads of a reader give, for a visible frame and for one that is not.\<close>

lemma visible_loads:
  assumes ok: "writers_ok dir ps args cs s g ts" and vis: "visible ps cs ts j" and j: "j < length (claimed ps args cs)"
  defines "all \<equiv> claimed ps args cs"
  shows "ld_u64 s (sg_index g) (8 * j) = Some (word_of_nat (foffset all j))"
    "ld_u16 s (sg_buffer g) (foffset all j) = Some HEADER_FLAGS_READY"
    "ld_u32 s (sg_buffer g) (foffset all j + 4) = Some (word_of_nat (12 + length (all ! j)))"
    "mem_load s (sg_buffer g) (foffset all j + 12) (length (all ! j)) = Some (all ! j)"
    "foffset all j + 12 + length (all ! j) < 2 ^ 32"
    "unat (op_data (sg_w g)) = length (frames all)" "unat (op_index (sg_w g)) = length all"
proof -
  from ok obtain s' where s': "run_stores s (rest cs ts) = Some s'" "seg_ok s' dir g all" "seg_layout s' g all"
    "sg_buffer g \<noteq> sg_index g" unfolding all_def by (rule completion)
  note R = layout_read [OF s'(3) j [folded all_def]] and B = visible_data [OF ok vis j s'(1,4), folded all_def]
  show "ld_u64 s (sg_index g) (8 * j) = Some (word_of_nat (foffset all j))"
    using R(1) unfolding all_def by (intro visible_index [OF ok vis s'(1,4)])
  show "ld_u16 s (sg_buffer g) (foffset all j) = Some HEADER_FLAGS_READY"
    "ld_u32 s (sg_buffer g) (foffset all j + 4) = Some (word_of_nat (12 + length (all ! j)))"
    "mem_load s (sg_buffer g) (foffset all j + 12) (length (all ! j)) = Some (all ! j)"
    using R(2-4) B [of "foffset all j" 2] B [of "foffset all j + 4" 4] B [of "foffset all j + 12" "length (all ! j)"]
    by (simp_all add: ld_u16_def ld_u32_def)
  show "foffset all j + 12 + length (all ! j) < 2 ^ 32" using R(5) by simp
  show "unat (op_data (sg_w g)) = length (frames all)" "unat (op_index (sg_w g)) = length all"
    using seg_okD [OF s'(2)] s'(3) by (auto simp: seg_rep_def elim!: seg_layoutE)
qed

lemma hidden_loads:
  assumes ok: "writers_ok dir ps args cs s g ts" and vis: "\<not> visible ps cs ts j"
  shows "ld_u64 s (sg_index g) (8 * j) = Some 0" "j = 0 \<Longrightarrow> ld_u16 s (sg_buffer g) 0 = Some HEADER_FLAGS_EMPTY"
proof -
  from vis obtain k where k: "k < length cs" "j = length ps + k"
    "(if j = 0 then 1 else 0) < length (pend (ts ! (cs ! k)))" unfolding visible_def by (metis linorder_not_le)
  then obtain xs rc where t: "ts ! (cs ! k) = Storing xs rc" by (cases "ts ! (cs ! k)") auto
  have "cs ! k < length args" using writers_okD(3) [OF ok] k(1) by (auto dest: nth_mem)
  from writers_okD(4) [OF ok this, unfolded t] obtain k' where k': "k' < length cs" "cs ! k' = cs ! k"
    "unstored s g (length ps + k') (length xs)" by (rule storing_okE)
  then have "k' = k" using k(1) writers_okD(2) [OF ok] by (simp add: nth_eq_iff_index_eq)
  then have L: "mem_load s (sg_index g) (8 * j) 8 = Some (zeros 8)" "j = 0 \<Longrightarrow> mem_load s (sg_buffer g) 0 2 = Some (zeros 2)"
    using k' k(2,3) t by (auto simp: unstored_def split: if_splits)
  show "ld_u64 s (sg_index g) (8 * j) = Some 0" using L(1) by (simp add: ld_u64_def)
  show "ld_u16 s (sg_buffer g) 0 = Some HEADER_FLAGS_EMPTY" if "j = 0" using L(2) that by (simp add: ld_u16_def HEADER_FLAGS_EMPTY_def)
qed

lemma claimed_grows:
  assumes "grows cs g ts cs' g' ts'"
  obtains rs where "claimed ps args cs' = claimed ps args cs @ rs" "sg_flags g' = sg_flags g" "sg_s g' = sg_s g"
proof -
  from assms obtain ds where "cs' = cs @ ds" by (auto simp: grows_def prefix_def)
  then have "claimed ps args cs' = claimed ps args cs @ map (\<lambda>i. args ! i) ds" by (simp add: claimed_def)
  moreover from assms have "g' = g\<lparr>sg_w := sg_w g'\<rparr>" by (simp add: grows_def)
  then have "sg_flags g' = sg_flags g" "sg_s g' = sg_s g" by (metis segment.select_convs segment.simps segment.surjective)+
  ultimately show ?thesis by (rule that)
qed

section \<open>The invariant of a reader\<close>

text \<open>A frame that a read delivers.\<close>

definition readable :: "bytes list \<Rightarrow> bytes list \<Rightarrow> nat list \<Rightarrow> segment \<Rightarrow> thread list \<Rightarrow> nat \<Rightarrow> bool" where
  "readable ps args cs g ts j \<longleftrightarrow> j < length (claimed ps args cs) \<and> visible ps cs ts j \<and> committed g (claimed ps args cs) j"

text \<open>What a reader at \<open>rel\<close> has learned so far; \<open>sure\<close> when the frame could be read before the reader started.\<close>

fun reader_ok :: "bool \<Rightarrow> bytes list \<Rightarrow> bytes list \<Rightarrow> nat list \<Rightarrow> segment \<Rightarrow> thread list \<Rightarrow> u64 \<Rightarrow> frame \<Rightarrow> reader \<Rightarrow> bool" where
  "reader_ok sure ps args cs g ts rel fr Read_called \<longleftrightarrow> True"
| "reader_ok sure ps args cs g ts rel fr (Read_written b) \<longleftrightarrow>
     (sure \<and> sg_flags g AND SGM_RDCMT \<noteq> SGM_RDCMT \<longrightarrow> foffset (claimed ps args cs) (unat rel) < unat b)"
| "reader_ok sure ps args cs g ts rel fr (Read_bounded b) \<longleftrightarrow> (sure \<longrightarrow> foffset (claimed ps args cs) (unat rel) < unat b) \<and>
     (sg_flags g AND SGM_RDCMT = SGM_RDCMT \<longrightarrow> b = size_of_u32 (op_data (sg_s g)))"
| "reader_ok sure ps args cs g ts rel fr (Read_inside b) \<longleftrightarrow> unat rel < length (claimed ps args cs) \<and>
     (sure \<longrightarrow> foffset (claimed ps args cs) (unat rel) < unat b) \<and>
     (sg_flags g AND SGM_RDCMT = SGM_RDCMT \<longrightarrow> b = size_of_u32 (op_data (sg_s g)))"
| "reader_ok sure ps args cs g ts rel fr (Read_physical po) \<longleftrightarrow> unat rel < length (claimed ps args cs) \<and>
     committed g (claimed ps args cs) (unat rel) \<and> unat po = foffset (claimed ps args cs) (unat rel) \<and> (rel = 0 \<or> visible ps cs ts (unat rel))"
| "reader_ok sure ps args cs g ts rel fr (Read_ready po) \<longleftrightarrow> readable ps args cs g ts (unat rel) \<and>
     unat po = foffset (claimed ps args cs) (unat rel)"
| "reader_ok sure ps args cs g ts rel fr (Read_returned rc fr') \<longleftrightarrow>
     rc = ELNORD \<and> fr' = fr \<and> \<not> sure \<or> rel = 0 \<and> rc = ELINVHD \<and> fr' = fr \<and> \<not> sure \<or>
     readable ps args cs g ts (unat rel) \<and> rc = int (length (claimed ps args cs ! unat rel)) \<and> fr' = frame_at g (claimed ps args cs) (unat rel)"

lemma foffset_prefix: "j < length xs \<Longrightarrow> foffset (xs @ ys) j = foffset xs j"
  by (simp add: foffset_def)

lemma grows_buffer: "grows cs g ts cs' g' ts' \<Longrightarrow> sg_buffer g' = sg_buffer g"
  unfolding grows_def by (metis segment.select_convs segment.simps segment.surjective)

lemma readable_grows:
  assumes gr: "grows cs g ts cs' g' ts'" and r: "readable ps args cs g ts j"
  shows "readable ps args cs' g' ts' j"
proof -
  from claimed_grows [OF gr, of ps args] obtain rs where c: "claimed ps args cs' = claimed ps args cs @ rs" "sg_flags g' = sg_flags g" "sg_s g' = sg_s g"
    by blast
  have "visible ps cs' ts' j" using r by (intro visible_grows [OF gr]) (simp_all add: readable_def)
  then show ?thesis using r c by (auto simp: readable_def committed_def foffset_prefix)
qed

text \<open>A step of a writer does not take away what the reader knows.\<close>

lemma reader_ok_grows:
  assumes gr: "grows cs g ts cs' g' ts'" and r: "reader_ok sure ps args cs g ts rel fr r"
    and sure: "sure \<longrightarrow> readable ps args cs g ts (unat rel)"
  shows "reader_ok sure ps args cs' g' ts' rel fr r"
proof -
  from claimed_grows [OF gr, of ps args] obtain rs where c: "claimed ps args cs' = claimed ps args cs @ rs" "sg_flags g' = sg_flags g" "sg_s g' = sg_s g"
    by blast
  have b: "sg_buffer g' = sg_buffer g" by (rule grows_buffer [OF gr])
  have v: "visible ps cs ts j \<Longrightarrow> j < length (claimed ps args cs) \<Longrightarrow> visible ps cs' ts' j" for j
    by (rule visible_grows [OF gr]) simp_all
  have l: "sure \<Longrightarrow> unat rel < length (claimed ps args cs)" using sure by (simp add: readable_def)
  show ?thesis using r v l by (cases r) (auto simp: c b foffset_prefix nth_append frame_at_def readable_def committed_def)
qed

text \<open>A reader that has not returned can load what it wants, and knows more then.\<close>

lemma reader_loads_index:
  assumes ok: "writers_ok dir ps args cs s g ts" and j: "unat rel < length (claimed ps args cs)"
  obtains po where "ld_u64 s (sg_index g) (8 * unat rel) = Some po"
    "visible ps cs ts (unat rel) \<longrightarrow> unat po = foffset (claimed ps args cs) (unat rel) \<and> \<not> (rel \<noteq> 0 \<and> po = 0)"
    "\<not> visible ps cs ts (unat rel) \<longrightarrow> po = 0"
proof (cases "visible ps cs ts (unat rel)")
  case True
  note L = visible_loads [OF ok True j]
  have u: "unat (word_of_nat (foffset (claimed ps args cs) (unat rel)) :: u64) = foffset (claimed ps args cs) (unat rel)"
    using L(5) by (simp add: unat_of_nat)
  have "0 < foffset (claimed ps args cs) (unat rel)" if "rel \<noteq> 0"
    using foffset_pos [OF _ j] that by (simp add: unat_gt_0)
  then show ?thesis using that [OF L(1)] u True by (metis less_numeral_extra(3) unsigned_0)
next
  case False
  then show ?thesis using that [OF hidden_loads(1) [OF ok False]] by simp
qed

lemma reader_step_index:
  assumes ok: "writers_ok dir ps args cs s g ts" and r: "reader_ok sure ps args cs g ts rel fr (Read_inside b)"
    and sure: "sure \<longrightarrow> readable ps args cs g ts (unat rel)"
  shows "\<exists>r'. reader_step s g rel fr (Read_inside b) = Some r' \<and> reader_ok sure ps args cs g ts rel fr r'"
proof -
  let ?all = "claimed ps args cs" and ?j = "unat rel"
  from r have j: "?j < length ?all" by simp
  from ok j obtain po where po: "ld_u64 s (sg_index g) (8 * ?j) = Some po"
    "visible ps cs ts ?j \<longrightarrow> unat po = foffset ?all ?j \<and> \<not> (rel \<noteq> 0 \<and> po = 0)" "\<not> visible ps cs ts ?j \<longrightarrow> po = 0"
    by (rule reader_loads_index)
  show ?thesis
  proof (cases "visible ps cs ts ?j")
    case True
    then show ?thesis using r j po(1,2) by (auto simp: word_le_nat_alt committed_def)
  next
    case False
    have "rel = 0 \<Longrightarrow> foffset ?all ?j = 0" by (simp add: foffset_def)
    with False show ?thesis using r j po(1,3) sure by (auto simp: word_le_nat_alt committed_def readable_def)
  qed
qed

lemma reader_step_flags:
  assumes ok: "writers_ok dir ps args cs s g ts" and r: "reader_ok sure ps args cs g ts rel fr (Read_physical po)"
    and sure: "sure \<longrightarrow> readable ps args cs g ts (unat rel)"
  shows "\<exists>r'. reader_step s g rel fr (Read_physical po) = Some r' \<and> reader_ok sure ps args cs g ts rel fr r'"
proof -
  let ?all = "claimed ps args cs" and ?j = "unat rel"
  from r have j: "?j < length ?all" "unat po = foffset ?all ?j" "rel = 0 \<or> visible ps cs ts ?j" "committed g ?all ?j" by simp_all
  show ?thesis
  proof (cases "visible ps cs ts ?j")
    case True
    then show ?thesis using j visible_loads(2) [OF ok True j(1)] by (simp add: Let_def readable_def)
  next
    case False
    then have "rel = 0" "\<not> sure" using j(3) sure by (auto simp: readable_def)
    moreover from this have "unat po = 0" using j(2) by (simp add: foffset_def)
    ultimately show ?thesis using hidden_loads(2) [OF ok False]
      by (simp add: Let_def HEADER_FLAGS_READY_def HEADER_FLAGS_EOS_def HEADER_FLAGS_EMPTY_def)
  qed
qed

lemma reader_step_ok:
  assumes ok: "writers_ok dir ps args cs s g ts" and r: "reader_ok sure ps args cs g ts rel fr r" and run: "reading r"
    and sure: "sure \<longrightarrow> readable ps args cs g ts (unat rel)"
  shows "\<exists>r'. reader_step s g rel fr r = Some r' \<and> reader_ok sure ps args cs g ts rel fr r'"
proof -
  let ?all = "claimed ps args cs" and ?j = "unat rel"
  from ok obtain s' where s': "seg_ok s' dir g ?all" "seg_layout s' g ?all" by (rule completion)
  have w: "unat (op_data (sg_w g)) = length (frames ?all)" "unat (op_index (sg_w g)) = length ?all"
    using seg_okD [OF s'(1)] s'(2) by (auto simp: seg_rep_def elim!: seg_layoutE)
  have S: "sure \<Longrightarrow> ?j < length ?all" "sure \<Longrightarrow> committed g ?all ?j" using sure by (simp_all add: readable_def)
  show ?thesis
  proof (cases r)
    case Read_called
    have "sure \<Longrightarrow> foffset ?all ?j < length (frames ?all)" using foffset_bound [OF S(1)] by simp
    then show ?thesis using Read_called w(1) by simp
  next
    case (Read_written b)
    then show ?thesis using r S(2) by (auto simp: committed_def)
  next
    case (Read_bounded b)
    then show ?thesis using r S(1) w(2) by (auto simp: word_le_nat_alt Let_def)
  next
    case (Read_inside b)
    then show ?thesis using reader_step_index [OF ok _ sure] r by simp
  next
    case (Read_physical po)
    then show ?thesis using reader_step_flags [OF ok _ sure] r by simp
  next
    case (Read_ready po)
    with r have j: "?j < length ?all" "unat po = foffset ?all ?j" and v: "visible ps cs ts ?j" by (simp_all add: readable_def)
    note L = visible_loads [OF ok v j(1)]
    have "ssize (size_of_u32 (word_of_nat (12 + length (?all ! ?j))) - header_size) = int (length (?all ! ?j))"
      using L(5) by (intro frame_size_back) simp
    then show ?thesis using Read_ready r j(2) L(3) by (simp add: Let_def frame_at_def del: of_nat_add)
  next
    case (Read_returned rc fr')
    with run show ?thesis by simp
  qed
qed

lemma reader_steps_ok:
  assumes "(read_step rel fr)\<^sup>*\<^sup>* ((s, g, ts), r) ((s', g', ts'), r')" "writers_ok dir ps args cs s g ts"
    "reader_ok sure ps args cs g ts rel fr r" "sure \<longrightarrow> readable ps args cs g ts (unat rel)"
  shows "\<exists>cs'. writers_ok dir ps args cs' s' g' ts' \<and> grows cs g ts cs' g' ts' \<and> reader_ok sure ps args cs' g' ts' rel fr r'"
  using assms
proof (induction "((s', g', ts'), r')" arbitrary: s' g' ts' r' rule: rtranclp_induct)
  case base
  then show ?case by (intro exI [of _ cs]) simp
next
  case (step st)
  obtain s1 g1 ts1 r1 where st: "st = ((s1, g1, ts1), r1)" by (cases st) auto
  from step(3) [OF st step(4-6)] obtain cs1 where
    1: "writers_ok dir ps args cs1 s1 g1 ts1" "grows cs g ts cs1 g1 ts1" "reader_ok sure ps args cs1 g1 ts1 rel fr r1" by blast
  have sure: "sure \<longrightarrow> readable ps args cs1 g1 ts1 (unat rel)" using readable_grows [OF 1(2)] step(6) by blast
  from step(2) [unfolded st] show ?case
  proof cases
    case by_writer
    from by_writer(2) have "write_step\<^sup>*\<^sup>* (s1, g1, ts1) (s', g', ts')" by (rule r_into_rtranclp)
    from writers_steps [OF this 1(1)] obtain cs' where
      "writers_ok dir ps args cs' s' g' ts'" "grows cs1 g1 ts1 cs' g' ts'" by blast
    then show ?thesis using reader_ok_grows [OF _ 1(3) sure] grows_trans [OF 1(2)] by_writer(1) by blast
  next
    case by_reader
    then have "reading r1" by (cases r1) auto
    from reader_step_ok [OF 1(1,3) this sure] by_reader 1 show ?thesis by auto
  qed
qed

section \<open>Properties\<close>

text \<open>A read that delivers a payload, when it is not interrupted.\<close>

definition delivers :: "os \<Rightarrow> segment \<Rightarrow> u64 \<Rightarrow> frame \<Rightarrow> bytes \<Rightarrow> bool" where
  "delivers s g rel fr p \<longleftrightarrow>
     (\<exists>fr'. segment_read s g rel fr = Some (int (length p), fr') \<and> frame_payload s fr' = Some p)"

lemma readable_payload:
  assumes "writers_ok dir ps args cs s g ts" "readable ps args cs g ts j"
  shows "frame_payload s (frame_at g (claimed ps args cs) j) = Some (claimed ps args cs ! j)"
proof -
  have j: "j < length (claimed ps args cs)" "visible ps cs ts j" using assms(2) by (simp_all add: readable_def)
  note L = visible_loads [OF assms(1) j(2,1)]
  show ?thesis using payload_of_loads(1) [OF L(3,4)] L(5) by (simp add: frame_at_def)
qed

lemma readable_delivers:
  assumes ok: "writers_ok dir ps args cs s g ts" and r: "readable ps args cs g ts (unat rel)"
  shows "delivers s g rel fr (claimed ps args cs ! unat rel)"
proof -
  have j: "unat rel < length (claimed ps args cs)" "visible ps cs ts (unat rel)" "committed g (claimed ps args cs) (unat rel)"
    using r by (simp_all add: readable_def)
  note L = visible_loads [OF ok j(2,1)]
  show ?thesis using read_of_loads [OF L(1-3,5), of fr] foffset_pos [OF _ j(1)] foffset_bound [OF j(1)] L(6,7) j(1,3) readable_payload [OF ok r]
    unfolding delivers_def by (auto simp: committed_def frame_at_def)
qed

lemma delivers_readable:
  assumes ok: "writers_ok dir ps args cs s g ts" and d: "delivers s g rel fr p"
  shows "readable ps args cs g ts (unat rel)"
proof (rule ccontr)
  let ?all = "claimed ps args cs" and ?j = "unat rel"
  assume n: "\<not> readable ps args cs g ts ?j"
  from ok obtain s' where "seg_layout s' g ?all" by (rule completion)
  then have w: "unat (op_index (sg_w g)) = length ?all" by (rule seg_layoutE)
  have "fst (the (segment_read s g rel fr)) < 0"
  proof (cases "?j < length ?all \<and> visible ps cs ts ?j")
    case True
    note L = visible_loads [OF ok conjunct2 [OF True] conjunct1 [OF True]]
    show ?thesis using n True read_of_loads [OF L(1-3,5), of fr] foffset_pos [of ?j ?all] foffset_bound [of ?j ?all] L(6,7)
      by (auto simp: readable_def committed_def ELNORD_def)
  next
    case False
    show ?thesis
    proof (cases "?j < length ?all")
      case True
      then have h: "\<not> visible ps cs ts ?j" using False by simp
      note H = hidden_loads [OF ok h]
      show ?thesis using H w True by (cases "rel = 0")
        (auto simp: segment_read_def Let_def HEADER_FLAGS_READY_def HEADER_FLAGS_EOS_def HEADER_FLAGS_EMPTY_def ELNORD_def ELINVHD_def)
    qed (use w in \<open>auto simp: segment_read_def Let_def word_le_nat_alt ELNORD_def\<close>)
  qed
  then show False using d by (auto simp: delivers_def)
qed

text \<open>A frame at a place is one that was there or one of a writer; once it can be read it stays.\<close>

lemma claimed_source:
  assumes ok: "writers_ok dir ps args cs s g ts" and j: "j < length (claimed ps args cs)"
  shows "if j < length ps then claimed ps args cs ! j = ps ! j else claimed ps args cs ! j \<in> set args"
proof -
  have "args ! (cs ! (j - length ps)) \<in> set args" if "\<not> j < length ps"
  proof -
    have "cs ! (j - length ps) \<in> set cs" using that j by (intro nth_mem) simp
    then show ?thesis using writers_okD(3) [OF ok] by (intro nth_mem) auto
  qed
  then show ?thesis using j by (simp add: claimed_def nth_append)
qed

lemma readable_later:
  assumes ok: "writers_ok dir ps args cs s g ts" and r: "readable ps args cs g ts (unat rel)" and w: "write_step\<^sup>*\<^sup>* (s, g, ts) (s', g', ts')"
  shows "frame_payload s' (frame_at g (claimed ps args cs) (unat rel)) = Some (claimed ps args cs ! unat rel) \<and>
    delivers s' g' rel fr (claimed ps args cs ! unat rel)"
proof -
  let ?all = "claimed ps args cs"
  from writers_steps [OF w ok] obtain cs' where 3: "writers_ok dir ps args cs' s' g' ts'" "grows cs g ts cs' g' ts'" by blast
  have r3: "readable ps args cs' g' ts' (unat rel)" by (rule readable_grows [OF 3(2) r])
  from claimed_grows [OF 3(2), of ps args] obtain rs where "claimed ps args cs' = ?all @ rs" by blast
  moreover have "unat rel < length ?all" using r by (simp add: readable_def)
  moreover have "sg_buffer g' = sg_buffer g" by (rule grows_buffer [OF 3(2)])
  ultimately have "frame_at g' (claimed ps args cs') (unat rel) = frame_at g ?all (unat rel)" "claimed ps args cs' ! unat rel = ?all ! unat rel"
    by (simp_all add: frame_at_def foffset_prefix nth_append)
  then show ?thesis using readable_payload [OF 3(1) r3] readable_delivers [OF 3(1) r3, of fr] by simp
qed

lemma delivers_kept:
  assumes ok: "writers_ok dir ps args cs s g ts" and gr: "grows cs g ts cs' g' ts'" and d: "delivers s g rel fr p"
  shows "claimed ps args cs' ! unat rel = p"
proof -
  have r: "readable ps args cs g ts (unat rel)" by (rule delivers_readable [OF ok d])
  from claimed_grows [OF gr, of ps args] obtain rs where "claimed ps args cs' = claimed ps args cs @ rs" by blast
  moreover have "unat rel < length (claimed ps args cs)" using r by (simp add: readable_def)
  moreover have "claimed ps args cs ! unat rel = p" using readable_delivers [OF ok r, of fr] d by (auto simp: delivers_def)
  ultimately show ?thesis by (simp add: nth_append)
qed

text \<open>C27. Threads write to a segment that has room for the frames and the index entries of all of them and
  whose contents do not look like an end mark; while they do so, another thread calls \<open>segment_read\<close>, and its loads come
  between their steps in any order. It never loads from outside of the mappings. When it returns, it has found no frame (\<open>ELNORD\<close>, or, for the
  first frame of the segment only, \<open>ELINVHD\<close>) and left the frame alone, or it has the complete payload of the frame at this place: the one
  that was there before the writes, or that of one of the writers; it stays there and every later read delivers it. And a
  payload that could already be read when the call began is delivered.\<close>

theorem concurrent_read_safe:
  assumes "seg_ok s dir g ps" "\<not> looks_eos ps" "length (frames ps) + length (frames args) + 12 \<le> unat (sg_size g)"
    and "length ps + length args \<le> index_room s g" "write_step\<^sup>*\<^sup>* (s, g, map Called args) (s1, g1, ts1)"
    and "(read_step rel fr)\<^sup>*\<^sup>* ((s1, g1, ts1), Read_called) ((s2, g2, ts2), r)"
  shows "(reading r \<longrightarrow> (\<exists>r'. reader_step s2 g2 rel fr r = Some r')) \<and>
    (\<forall>rc fr'. r = Read_returned rc fr' \<longrightarrow>
      (rc = ELNORD \<and> fr' = fr \<or> rel = 0 \<and> rc = ELINVHD \<and> fr' = fr \<or>
       (\<exists>p. rc = int (length p) \<and> (if unat rel < length ps then p = ps ! unat rel else p \<in> set args) \<and>
          (\<forall>s3 g3 ts3. write_step\<^sup>*\<^sup>* (s2, g2, ts2) (s3, g3, ts3) \<longrightarrow> frame_payload s3 fr' = Some p \<and> delivers s3 g3 rel fr p))) \<and>
      (\<forall>p. delivers s1 g1 rel fr p \<longrightarrow> rc = int (length p) \<and> frame_payload s2 fr' = Some p))"
proof -
  let ?sure = "\<exists>p. delivers s1 g1 rel fr p"
  from assms(1-5) obtain cs where ok: "writers_ok dir ps args cs s1 g1 ts1" by (rule writers_all)
  have sure: "?sure \<longrightarrow> readable ps args cs g1 ts1 (unat rel)" using delivers_readable [OF ok] by blast
  from reader_steps_ok [OF assms(6) ok _ sure] obtain cs2 where
    2: "writers_ok dir ps args cs2 s2 g2 ts2" "grows cs g1 ts1 cs2 g2 ts2" "reader_ok ?sure ps args cs2 g2 ts2 rel fr r" by auto
  let ?all = "claimed ps args cs2"
  have sure2: "?sure \<longrightarrow> readable ps args cs2 g2 ts2 (unat rel)" using readable_grows [OF 2(2)] sure by blast
  note same = delivers_kept [OF ok 2(2)] and mine = claimed_source [OF 2(1), of "unat rel"] and later = readable_later [OF 2(1)]
  have "\<exists>r'. reader_step s2 g2 rel fr r = Some r'" if "reading r" using reader_step_ok [OF 2(1,3) that sure2] by blast
  moreover have "(rc = ELNORD \<and> fr' = fr \<or> rel = 0 \<and> rc = ELINVHD \<and> fr' = fr \<or>
       (\<exists>p. rc = int (length p) \<and> (if unat rel < length ps then p = ps ! unat rel else p \<in> set args) \<and>
          (\<forall>s3 g3 ts3. write_step\<^sup>*\<^sup>* (s2, g2, ts2) (s3, g3, ts3) \<longrightarrow> frame_payload s3 fr' = Some p \<and> delivers s3 g3 rel fr p))) \<and>
      (\<forall>p. delivers s1 g1 rel fr p \<longrightarrow> rc = int (length p) \<and> frame_payload s2 fr' = Some p)" if r: "r = Read_returned rc fr'" for rc fr'
  proof (cases "readable ps args cs2 g2 ts2 (unat rel) \<and> rc = int (length (?all ! unat rel)) \<and> fr' = frame_at g2 ?all (unat rel)")
    case True
    then have "\<exists>p. rc = int (length p) \<and> (if unat rel < length ps then p = ps ! unat rel else p \<in> set args) \<and>
          (\<forall>s3 g3 ts3. write_step\<^sup>*\<^sup>* (s2, g2, ts2) (s3, g3, ts3) \<longrightarrow> frame_payload s3 fr' = Some p \<and> delivers s3 g3 rel fr p)"
      using later mine by (intro exI [of _ "?all ! unat rel"]) (auto simp: readable_def)
    moreover have "frame_payload s2 fr' = Some (?all ! unat rel)" using readable_payload [OF 2(1)] True by blast
    ultimately show ?thesis using same True by blast
  next
    case False
    then show ?thesis using 2(3) r by auto
  qed
  ultimately show ?thesis by blast
qed

text \<open>A reader needs no help to come to an end.\<close>

fun loads_left :: "reader \<Rightarrow> nat" where
  "loads_left Read_called = 6"
| "loads_left (Read_written b) = 5"
| "loads_left (Read_bounded b) = 4"
| "loads_left (Read_inside b) = 3"
| "loads_left (Read_physical po) = 2"
| "loads_left (Read_ready po) = 1"
| "loads_left (Read_returned rc fr) = 0"

lemma reader_step_left: "reader_step s g rel fr r = Some r' \<Longrightarrow> loads_left r' < loads_left r"
  by (cases r) (auto simp: Let_def bind_eq_Some_conv split: if_splits)

lemma reader_returns:
  assumes ok: "writers_ok dir ps args cs s g ts" and "reader_ok False ps args cs g ts rel fr r"
  shows "\<exists>rc fr'. (read_step rel fr)\<^sup>*\<^sup>* ((s, g, ts), r) ((s, g, ts), Read_returned rc fr')"
  using assms(2)
proof (induction "loads_left r" arbitrary: r rule: less_induct)
  case less
  show ?case
  proof (cases "reading r")
    case True
    from reader_step_ok [OF ok less(2) True] obtain r' where r': "reader_step s g rel fr r = Some r'" "reader_ok False ps args cs g ts rel fr r'"
      by blast
    from less(1) [OF reader_step_left [OF r'(1)] r'(2)] read_step.by_reader [of s g rel fr r r' ts, OF r'(1)] show ?thesis
      by (meson converse_rtranclp_into_rtranclp)
  next
    case False
    then show ?thesis by (cases r) auto
  qed
qed

lemma writers_lift:
  assumes "write_step\<^sup>*\<^sup>* w w'"
  shows "(read_step rel fr)\<^sup>*\<^sup>* (w, r) (w', r)"
  using assms
proof (induction rule: rtranclp_induct)
  case (step w1 w2)
  then show ?case by (meson read_step.by_writer rtranclp.rtrancl_into_rtrancl)
qed simp

text \<open>The reader loads the write position, then two writers do all their work, then it goes on.\<close>

theorem concurrent_read_safe_witness:
  "\<exists>s0 g0 s g ts fr. segment_write demo_open_os demo_seg (zeros 12) = Some (s0, g0, 12) \<and>
     (read_step 0 null_frame)\<^sup>*\<^sup>* ((s0, g0, [Called [1], Called [2, 3]]), Read_called) ((s, g, ts), Read_returned 12 fr) \<and>
     finished (s, g, ts) \<and> frame_payload s fr = Some (zeros 12)"
proof -
  let ?s = "after_write demo_open_os demo_seg [] (zeros 12)" and ?g = "demo_seg\<lparr>sg_w := next_pair demo_seg (zeros 12)\<rparr>"
  let ?ts = "map Called [[1], [2, 3]]" and ?b = "size_of_u32 (op_data (sg_w ?g))"
  have ok: "segment_write demo_open_os demo_seg (zeros 12) = Some (?s, ?g, 12)" "seg_ok ?s ''d'' ?g [zeros 12]"
    using segment_write_ok [OF demo_open(2), of "zeros 12"] by (simp_all add: looks_eos_def)
  have ne: "\<not> looks_eos [zeros 12]" by (simp add: looks_eos_zeros)
  have room: "length (frames [zeros 12]) + length (frames [[1], [2, 3]]) + 12 \<le> unat (sg_size ?g)"
    "length [zeros 12] + length [[1], [2, 3 :: byte]] \<le> index_room ?s ?g"
    using index_room_write [OF seg_okD [OF demo_open(2)], of "zeros 12"] by simp_all
  note start = writers_start [OF ok(2) ne room]
  from run_finishes [OF start] obtain s g ts where w: "write_step\<^sup>*\<^sup>* (?s, ?g, ?ts) (s, g, ts)" "finished (s, g, ts)" by blast
  have "(read_step 0 null_frame) ((?s, ?g, ?ts), Read_called) ((?s, ?g, ?ts), Read_written ?b)" by (rule read_step.by_reader) simp
  then have a: "(read_step 0 null_frame)\<^sup>*\<^sup>* ((?s, ?g, ?ts), Read_called) ((s, g, ts), Read_written ?b)"
    by (rule converse_rtranclp_into_rtranclp) (rule writers_lift [OF w(1)])
  from reader_steps_ok [OF this start, of False] obtain cs where
    "writers_ok ''d'' [zeros 12] [[1], [2, 3]] cs s g ts" "reader_ok False [zeros 12] [[1], [2, 3]] cs g ts 0 null_frame (Read_written ?b)" by auto
  from reader_returns [OF this] obtain rc fr where "(read_step 0 null_frame)\<^sup>*\<^sup>* ((s, g, ts), Read_written ?b) ((s, g, ts), Read_returned rc fr)" by blast
  with a have run: "(read_step 0 null_frame)\<^sup>*\<^sup>* ((?s, ?g, ?ts), Read_called) ((s, g, ts), Read_returned rc fr)" by (rule rtranclp_trans)
  have "readable [zeros 12] [[1], [2, 3]] [] ?g ?ts 0" by (simp add: readable_def visible_def committed_def claimed_def SGM_RDCMT_def)
  from readable_delivers [OF start, of 0 null_frame] this have "delivers ?s ?g 0 null_frame (zeros 12)" by (simp add: claimed_def)
  with concurrent_read_safe [OF ok(2) ne room rtranclp.rtrancl_refl run] have "rc = 12" "frame_payload s fr = Some (zeros 12)" by auto
  then show ?thesis using ok(1) run w(2) by (intro exI [of _ ?s] exI [of _ ?g] exI [of _ s] exI [of _ g] exI [of _ ts] exI [of _ fr]) simp
qed

end
