(* ===== verification/Mbptree.thy ===== *)
theory Mbptree
  imports Prelude Errno
begin

text \<open>
  \<^verbatim>\<open>src/src/mbptree.c\<close>: the B+tree that maps the base offset of every segment to the segment.
  Keys are appended in increasing order only. Nodes live in a heap of their own: an address
  is a natural number, 0 is \<open>NULL\<close>, and the 64 bits of a \<open>mbptree_value\<close> are a natural number
  too, read as an address or as a client's value; the code only copies values and compares
  them with \<open>NULL\<close>. The fields of type \<open>int\<close> that count (sizes, indices, the branching factor) are natural
  numbers: they stay between 0 and the branching factor. The array \<open>data\<close> of a node has
  \<open>branch_factor\<close> elements. Whether the next allocation succeeds is read from the list
  \<open>allocs\<close>; when it is exhausted every allocation succeeds. A failed assertion, the use of a
  pointer that does not point to a node and an index outside of an array are \<^const>\<open>None\<close>.
\<close>

section \<open>Data\<close>

type_synonym address = nat
type_synonym mbptree_value = nat

text \<open>The members of the union \<open>mbptree_value\<close>, the lower half of the bits coming first, and the macro \<open>u64\<close>.\<close>

definition value_u32 :: "mbptree_value \<Rightarrow> u32" where "value_u32 v = word_of_nat v"
definition value_u64 :: "mbptree_value \<Rightarrow> u64" where "value_u64 v = word_of_nat v"
definition value_addr :: "mbptree_value \<Rightarrow> address" where "value_addr v = v"
definition of_u64 :: "u64 \<Rightarrow> mbptree_value" where "of_u64 x = unat x"

record mbptree_data =
  md_key :: u64
  md_value :: mbptree_value

record mbptree_node =
  n_leaf :: int
  n_size :: nat
  n_parent :: address
  n_data :: "mbptree_data list"

record mbptree_lock =
  exclusive_lock :: u32
  shared_lock :: u32

record mbptree =
  branch_factor :: nat
  tree_lock :: mbptree_lock
  root :: address
  last_leaf :: address
  nodes :: "address \<Rightarrow> mbptree_node option"
  next_addr :: address
  allocs :: "bool list"

record mbptree_leaf_iterator =
  it_branch_factor :: nat
  it_idx :: nat
  it_leaf :: address

definition cas_mbptree_lock :: "mbptree_lock \<Rightarrow> u64" where
  "cas_mbptree_lock l = ucast (exclusive_lock l) OR push_bit 32 (ucast (shared_lock l))"

definition data0 :: mbptree_data where
  "data0 = \<lparr>md_key = 0, md_value = 0\<rparr>"

section \<open>Access to the heap\<close>

definition alloc_outcome :: "mbptree \<Rightarrow> bool \<times> mbptree" where
  "alloc_outcome t = (case allocs t of [] \<Rightarrow> (True, t) | b # bs \<Rightarrow> (b, t\<lparr>allocs := bs\<rparr>))"

definition set_node :: "mbptree \<Rightarrow> address \<Rightarrow> mbptree_node \<Rightarrow> mbptree" where
  "set_node t a n = t\<lparr>nodes := (nodes t)(a \<mapsto> n)\<rparr>"

definition get_data :: "mbptree_node \<Rightarrow> nat \<Rightarrow> mbptree_data option" where
  "get_data n i = (if i < length (n_data n) then Some (n_data n ! i) else None)"

definition set_key :: "mbptree \<Rightarrow> address \<Rightarrow> nat \<Rightarrow> u64 \<Rightarrow> mbptree option" where
  "set_key t a i k = do {
     n \<leftarrow> nodes t a;
     d \<leftarrow> get_data n i;
     Some (set_node t a (n\<lparr>n_data := (n_data n)[i := d\<lparr>md_key := k\<rparr>]\<rparr>)) }"

definition set_value :: "mbptree \<Rightarrow> address \<Rightarrow> nat \<Rightarrow> mbptree_value \<Rightarrow> mbptree option" where
  "set_value t a i v = do {
     n \<leftarrow> nodes t a;
     d \<leftarrow> get_data n i;
     Some (set_node t a (n\<lparr>n_data := (n_data n)[i := d\<lparr>md_value := v\<rparr>]\<rparr>)) }"

definition set_size :: "mbptree \<Rightarrow> address \<Rightarrow> nat \<Rightarrow> mbptree option" where
  "set_size t a sz = do { n \<leftarrow> nodes t a; Some (set_node t a (n\<lparr>n_size := sz\<rparr>)) }"

definition set_parent :: "mbptree \<Rightarrow> address \<Rightarrow> address \<Rightarrow> mbptree option" where
  "set_parent t a p = do { n \<leftarrow> nodes t a; Some (set_node t a (n\<lparr>n_parent := p\<rparr>)) }"

definition node_size :: "mbptree \<Rightarrow> address \<Rightarrow> nat option" where
  "node_size t a = map_option n_size (nodes t a)"

definition node_parent :: "mbptree \<Rightarrow> address \<Rightarrow> address option" where
  "node_parent t a = map_option n_parent (nodes t a)"

definition c_assert :: "bool \<Rightarrow> unit option" where
  "c_assert b = (if b then Some () else None)"

section \<open>Nodes\<close>

definition mbptree_node_full :: "mbptree \<Rightarrow> address \<Rightarrow> bool option" where
  "mbptree_node_full t a = do {
     n \<leftarrow> nodes t a;
     c_assert (n_size n < branch_factor t);
     Some (n_size n \<ge> branch_factor t - 1) }"

definition mbptree_create_node :: "mbptree \<Rightarrow> nat \<Rightarrow> address \<Rightarrow> mbptree \<times> address" where
  "mbptree_create_node t bf parent =
     (let (ok, t) = alloc_outcome t in
      if \<not> ok then (t, 0)
      else let a = next_addr t;
               n = \<lparr>n_leaf = 0, n_size = 0, n_parent = parent, n_data = replicate bf data0\<rparr> in
           (set_node (t\<lparr>next_addr := Suc a\<rparr>) a n, a))"

definition mbptree_create_leaf :: "mbptree \<Rightarrow> nat \<Rightarrow> address \<Rightarrow> (mbptree \<times> address) option" where
  "mbptree_create_leaf t bf parent =
     (let (t, a) = mbptree_create_node t bf parent in
      if a = 0 then Some (t, 0)
      else do { n \<leftarrow> nodes t a; Some (set_node t a (n\<lparr>n_leaf := 1\<rparr>), a) })"

definition mbptree_is_leaf :: "mbptree \<Rightarrow> address \<Rightarrow> bool option" where
  "mbptree_is_leaf t a = map_option (\<lambda>n. n_leaf n = 1) (nodes t a)"

definition free_address :: "mbptree \<Rightarrow> address \<Rightarrow> mbptree option" where
  "free_address t a = do { _ \<leftarrow> nodes t a; Some (t\<lparr>nodes := (nodes t)(a := None)\<rparr>) }"

text \<open>
  \<open>mbptree_free_node\<close> with its loop over the children: without an index the function itself,
  with an index the rest of the loop from that child on. Its result in C is always 0.
\<close>

partial_function (option) mbptree_free_from :: "mbptree \<Rightarrow> address \<Rightarrow> nat option \<Rightarrow> mbptree option" where
  "mbptree_free_from t a i = (case i of
     None \<Rightarrow> do {
       leaf \<leftarrow> mbptree_is_leaf t a;
       t \<leftarrow> (if leaf then Some t else mbptree_free_from t a (Some 0));
       free_address t a }
   | Some i \<Rightarrow> do {
       n \<leftarrow> nodes t a;
       if i \<le> n_size n then do {
         d \<leftarrow> get_data n i;
         t \<leftarrow> (if md_value d \<noteq> 0 then mbptree_free_from t (md_value d) None else Some t);
         mbptree_free_from t a (Some (Suc i)) }
       else Some t })"

definition mbptree_free_node :: "mbptree \<Rightarrow> address \<Rightarrow> (mbptree \<times> int) option" where
  "mbptree_free_node t a = do { t \<leftarrow> mbptree_free_from t a None; Some (t, 0) }"

definition mbptree_midpoint :: "mbptree \<Rightarrow> nat" where
  "mbptree_midpoint t = branch_factor t div 2"

definition mbptree_is_root :: "mbptree \<Rightarrow> address \<Rightarrow> bool option" where
  "mbptree_is_root t a = map_option (\<lambda>n. n_parent n = 0) (nodes t a)"

section \<open>Splitting\<close>

text \<open>The two loops of \<open>mbptree_move_half_node\<close>, over the list of their indices: the size of
  the left node, their bound, does not change in them.\<close>

fun move_keys :: "mbptree \<Rightarrow> address \<Rightarrow> address \<Rightarrow> nat list \<Rightarrow> mbptree option" where
  "move_keys t lhs rhs [] = Some t"
| "move_keys t lhs rhs (key_idx # is) = do {
     l \<leftarrow> nodes t lhs;
     d \<leftarrow> get_data l key_idx;
     r \<leftarrow> nodes t rhs;
     t \<leftarrow> set_size t rhs (Suc (n_size r));
     t \<leftarrow> set_key t rhs (n_size r) (md_key d);
     t \<leftarrow> set_key t lhs key_idx 0;
     move_keys t lhs rhs is }"

fun move_values :: "mbptree \<Rightarrow> address \<Rightarrow> address \<Rightarrow> nat \<Rightarrow> nat list \<Rightarrow> mbptree option" where
  "move_values t lhs rhs j [] = Some t"
| "move_values t lhs rhs j (value_idx # is) = do {
     l \<leftarrow> nodes t lhs;
     d \<leftarrow> get_data l value_idx;
     t \<leftarrow> set_value t rhs j (md_value d);
     t \<leftarrow> set_value t lhs value_idx 0;
     t \<leftarrow> set_parent t (md_value d) rhs;
     move_values t lhs rhs (Suc j) is }"

definition mbptree_move_half_node :: "mbptree \<Rightarrow> address \<Rightarrow> address \<Rightarrow> (mbptree \<times> u64) option" where
  "mbptree_move_half_node t lhs rhs = do {
     l \<leftarrow> nodes t lhs;
     r \<leftarrow> nodes t rhs;
     c_assert (n_parent l = n_parent r);
     c_assert (n_leaf l = 0);
     c_assert (n_leaf r = 0);
     let mid = mbptree_midpoint t;
     d \<leftarrow> get_data l mid;
     t \<leftarrow> move_keys t lhs rhs [Suc mid..<n_size l];
     t \<leftarrow> move_values t lhs rhs 0 [Suc mid..<Suc (n_size l)];
     t \<leftarrow> set_size t lhs mid;
     Some (t, md_key d) }"

text \<open>The statements that put a key and the child behind it at the end of a node.\<close>

definition add_child :: "mbptree \<Rightarrow> address \<Rightarrow> u64 \<Rightarrow> address \<Rightarrow> mbptree option" where
  "add_child t a key child = do {
     sz \<leftarrow> node_size t a;
     t \<leftarrow> set_size t a (Suc sz);
     t \<leftarrow> set_key t a sz key;
     set_value t a (Suc sz) child }"

definition mbptree_split_root :: "mbptree \<Rightarrow> address \<Rightarrow> u64 \<Rightarrow> address \<Rightarrow> (mbptree \<times> address) option" where
  "mbptree_split_root t rt key child = do {
     c_assert (root t = rt);
     let (t, new_root) = mbptree_create_node t (branch_factor t) 0;
     if new_root = 0 then Some (t, 0) else do {
       let (t, new_node) = mbptree_create_node t (branch_factor t) new_root;
       if new_node = 0 then Some (t, 0) else do {
         t \<leftarrow> set_parent t rt new_root;
         (t, mid_key) \<leftarrow> mbptree_move_half_node t rt new_node;
         t \<leftarrow> add_child t new_node key child;
         t \<leftarrow> set_parent t child new_node;
         sz \<leftarrow> node_size t new_root;
         t \<leftarrow> set_value t new_root sz rt;
         t \<leftarrow> add_child t new_root mid_key new_node;
         Some (t\<lparr>root := new_root\<rparr>, new_root) } } }"

text \<open>\<open>mbptree_append_node\<close> and \<open>mbptree_split_node\<close> call each other; the first is
  defined with the body of the second in place of the call.\<close>

partial_function (option) mbptree_append_node :: "mbptree \<Rightarrow> u64 \<Rightarrow> address \<Rightarrow> (mbptree \<times> address) option" where
  "mbptree_append_node t key node = do {
     is_root \<leftarrow> mbptree_is_root t node;
     c_assert (\<not> is_root);
     parent \<leftarrow> node_parent t node;
     full \<leftarrow> mbptree_node_full t parent;
     if \<not> full then do { t \<leftarrow> add_child t parent key node; Some (t, root t) } else do {
       parent_is_root \<leftarrow> mbptree_is_root t parent;
       if parent_is_root then mbptree_split_root t parent key node else do {
         full \<leftarrow> mbptree_node_full t parent;
         c_assert full;
         is_root \<leftarrow> mbptree_is_root t parent;
         c_assert (\<not> is_root);
         grand_parent \<leftarrow> node_parent t parent;
         let (t, new_parent) = mbptree_create_node t (branch_factor t) grand_parent;
         if new_parent = 0 then Some (t, 0) else do {
           (t, mid_key) \<leftarrow> mbptree_move_half_node t parent new_parent;
           t \<leftarrow> add_child t new_parent key node;
           t \<leftarrow> set_parent t node new_parent;
           mbptree_append_node t mid_key new_parent } } } }"

definition mbptree_split_node :: "mbptree \<Rightarrow> address \<Rightarrow> u64 \<Rightarrow> address \<Rightarrow> (mbptree \<times> address) option" where
  "mbptree_split_node t parent key child = do {
     full \<leftarrow> mbptree_node_full t parent;
     c_assert full;
     is_root \<leftarrow> mbptree_is_root t parent;
     c_assert (\<not> is_root);
     grand_parent \<leftarrow> node_parent t parent;
     let (t, new_parent) = mbptree_create_node t (branch_factor t) grand_parent;
     if new_parent = 0 then Some (t, 0) else do {
       (t, mid_key) \<leftarrow> mbptree_move_half_node t parent new_parent;
       t \<leftarrow> add_child t new_parent key child;
       t \<leftarrow> set_parent t child new_parent;
       mbptree_append_node t mid_key new_parent } }"

section \<open>Leaves\<close>

definition mbptree_append_leaf :: "mbptree \<Rightarrow> address \<Rightarrow> (mbptree \<times> address) option" where
  "mbptree_append_leaf t new_leaf = do {
     c_assert (last_leaf t \<noteq> new_leaf);
     ll \<leftarrow> nodes t (last_leaf t);
     nl \<leftarrow> nodes t new_leaf;
     c_assert (n_size ll = branch_factor t - 1);
     d \<leftarrow> get_data ll (n_size ll);
     c_assert (md_value d = new_leaf);
     c_assert (n_parent ll = n_parent nl);
     let parent = n_parent ll;
     full \<leftarrow> mbptree_node_full t parent;
     d0 \<leftarrow> get_data nl 0;
     (t, rt) \<leftarrow>
       (if \<not> full then do { t' \<leftarrow> add_child t parent (md_key d0) new_leaf; Some (t', root t) }
        else do {
          parent_is_root \<leftarrow> mbptree_is_root t parent;
          if parent_is_root then mbptree_split_root t parent (md_key d0) new_leaf
          else mbptree_split_node t parent (md_key d0) new_leaf });
     Some (t\<lparr>last_leaf := new_leaf\<rparr>, rt) }"

definition mbptree_new_leaf :: "mbptree \<Rightarrow> address \<Rightarrow> (mbptree \<times> address) option" where
  "mbptree_new_leaf t leaf = do {
     l \<leftarrow> nodes t leaf;
     c_assert (n_leaf l = 1);
     (t, new_leaf) \<leftarrow> mbptree_create_leaf t (branch_factor t) (n_parent l);
     if new_leaf = 0 then Some (t, 0) else do {
       t \<leftarrow> set_value t leaf (n_size l) new_leaf;
       Some (t, new_leaf) } }"

text \<open>The loop of \<open>mbptree_find_leaf\<close> that looks for the first key greater than the one searched.\<close>

fun child_index :: "mbptree_node \<Rightarrow> u64 \<Rightarrow> nat list \<Rightarrow> nat option" where
  "child_index n key [] = Some (n_size n)"
| "child_index n key (i # is) = do {
     d \<leftarrow> get_data n i;
     if key < md_key d then Some i else child_index n key is }"

partial_function (option) mbptree_find_leaf :: "mbptree \<Rightarrow> address \<Rightarrow> u64 \<Rightarrow> address option" where
  "mbptree_find_leaf t a key = do {
     n \<leftarrow> nodes t a;
     if n_leaf n \<noteq> 0 then Some a else do {
       i \<leftarrow> child_index n key [0..<n_size n];
       d \<leftarrow> get_data n i;
       mbptree_find_leaf t (md_value d) key } }"

section \<open>The operations of a client\<close>

definition mbptree_tryappend :: "mbptree \<Rightarrow> u64 \<Rightarrow> mbptree_value \<Rightarrow> (mbptree \<times> int) option" where
  "mbptree_tryappend t key v = do {
     let leaf = last_leaf t;
     l \<leftarrow> nodes t leaf;
     too_low \<leftarrow> (if n_size l > 0
                 then map_option (\<lambda>d. key \<le> md_key d) (get_data l (n_size l - 1)) else Some False);
     if too_low then Some (t, ELIDXNM) else do {
       full \<leftarrow> mbptree_node_full t leaf;
       if \<not> full then do {
         t \<leftarrow> set_size t leaf (Suc (n_size l));
         t \<leftarrow> set_key t leaf (n_size l) key;
         t \<leftarrow> set_value t leaf (n_size l) v;
         Some (t, 0) }
       else do {
         is_root \<leftarrow> mbptree_is_root t leaf;
         let (t, new_root) = (if is_root then mbptree_create_node t (branch_factor t) 0 else (t, 0));
         if is_root \<and> new_root = 0 then Some (t, ELALLC) else do {
           t \<leftarrow> (if is_root then set_parent t leaf new_root else Some t);
           (t, new_leaf) \<leftarrow> mbptree_new_leaf t leaf;
           if new_leaf = 0 then do {
             t \<leftarrow> set_parent t leaf 0;
             (t, _) \<leftarrow> mbptree_free_node t new_root;
             Some (t, ELALLC) }
           else do {
             t \<leftarrow> set_size t new_leaf 1;
             t \<leftarrow> set_key t new_leaf 0 key;
             t \<leftarrow> set_value t new_leaf 0 v;
             if new_root \<noteq> 0 then do {
               sz \<leftarrow> node_size t new_root;
               t \<leftarrow> set_value t new_root sz leaf;
               t \<leftarrow> add_child t new_root key new_leaf;
               Some (t\<lparr>last_leaf := new_leaf, root := new_root\<rparr>, 0) }
             else do {
               (t, new_root) \<leftarrow> mbptree_append_leaf t new_leaf;
               if new_root = 0 then Some (t, ELIDXPC)
               else Some (t\<lparr>root := new_root\<rparr>, 0) } } } } } }"

text \<open>A new tree starts with a heap of its own; \<open>outs\<close> are the outcomes of the allocations.\<close>

definition unlocked :: mbptree_lock where
  "unlocked = \<lparr>exclusive_lock = 0, shared_lock = 0\<rparr>"

definition mbptree_init :: "bool list \<Rightarrow> nat \<Rightarrow> mbptree option option" where
  "mbptree_init outs bf =
     (let t = \<lparr>branch_factor = bf, tree_lock = unlocked, root = 0, last_leaf = 0,
               nodes = Map.empty, next_addr = 1, allocs = outs\<rparr>;
          (ok, t) = alloc_outcome t in
      if \<not> ok then Some None else do {
        (t, node) \<leftarrow> mbptree_create_leaf t bf 0;
        if node = 0 then Some None
        else Some (Some (t\<lparr>root := node, last_leaf := node\<rparr>)) })"

definition mbptree_free :: "mbptree \<Rightarrow> (mbptree \<times> int) option" where
  "mbptree_free t = do { (t, _) \<leftarrow> mbptree_free_node t (root t); Some (t, 0) }"

definition mbptree_append :: "mbptree \<Rightarrow> u64 \<Rightarrow> mbptree_value \<Rightarrow> (mbptree \<times> int) option" where
  "mbptree_append t key v =
     (let old_val = \<lparr>exclusive_lock = 0, shared_lock = 0\<rparr>;
          new_val = \<lparr>exclusive_lock = 1, shared_lock = 0\<rparr> in
      if cas_mbptree_lock (tree_lock t) \<noteq> cas_mbptree_lock old_val then Some (t, ELIDXLK)
      else do {
        (t, rc) \<leftarrow> mbptree_tryappend (t\<lparr>tree_lock := new_val\<rparr>) key v;
        Some (t\<lparr>tree_lock := old_val\<rparr>, rc) })"

definition mbptree_last_value :: "mbptree \<Rightarrow> (int \<times> mbptree_value option) option" where
  "mbptree_last_value t = do {
     l \<leftarrow> nodes t (last_leaf t);
     if n_size l = 0 then Some (- 1, None) else do {
       d \<leftarrow> get_data l (n_size l - 1);
       Some (0, Some (md_value d)) } }"

section \<open>The iterator over the leaves\<close>

text \<open>The loop that looks for the last entry of a leaf with a key of at most the given one.\<close>

fun floor_index :: "mbptree_node \<Rightarrow> u64 \<Rightarrow> nat option \<Rightarrow> nat list \<Rightarrow> nat option option" where
  "floor_index n key idx [] = Some idx"
| "floor_index n key idx (i # is) = do {
     d \<leftarrow> get_data n i;
     if md_key d \<le> key then floor_index n key (Some i) is else Some idx }"

definition mbptree_leaf_floor ::
  "mbptree \<Rightarrow> u64 \<Rightarrow> (mbptree \<times> int \<times> mbptree_leaf_iterator option) option" where
  "mbptree_leaf_floor t key =
     (let (ok, t) = alloc_outcome t in
      if \<not> ok then Some (t, ELALLC, None) else
      (let it = \<lparr>it_branch_factor = branch_factor t, it_idx = 0, it_leaf = 0\<rparr>;
           old_val = tree_lock t;
           expected_val = old_val\<lparr>exclusive_lock := 0\<rparr>;
           new_val = old_val\<lparr>shared_lock := shared_lock old_val + 1\<rparr> in
       if cas_mbptree_lock (tree_lock t) \<noteq> cas_mbptree_lock expected_val then Some (t, ELIDXLK, None)
       else do {
         let t = t\<lparr>tree_lock := new_val\<rparr>;
         leaf \<leftarrow> mbptree_find_leaf t (root t) key;
         let t = t\<lparr>tree_lock := (tree_lock t)\<lparr>shared_lock := shared_lock (tree_lock t) - 1\<rparr>\<rparr>;
         l \<leftarrow> nodes t leaf;
         idx \<leftarrow> floor_index l key None [0..<n_size l];
         Some (t, 0, Some (case idx of Some i \<Rightarrow> it\<lparr>it_idx := i, it_leaf := leaf\<rparr> | None \<Rightarrow> it)) }))"

definition mbptree_leaf_first :: "mbptree \<Rightarrow> (mbptree \<times> int \<times> mbptree_leaf_iterator option) option" where
  "mbptree_leaf_first t = mbptree_leaf_floor t 0"

definition mbptree_leaf_iterator_valid :: "mbptree \<Rightarrow> mbptree_leaf_iterator \<Rightarrow> bool option" where
  "mbptree_leaf_iterator_valid t it =
     (if it_leaf it = 0 then Some False
      else do { l \<leftarrow> nodes t (it_leaf it); Some (it_idx it < n_size l) })"

definition mbptree_leaf_iterator_key :: "mbptree \<Rightarrow> mbptree_leaf_iterator \<Rightarrow> u64 option" where
  "mbptree_leaf_iterator_key t it = do {
     l \<leftarrow> nodes t (it_leaf it);
     d \<leftarrow> get_data l (it_idx it);
     Some (md_key d) }"

definition mbptree_leaf_iterator_value :: "mbptree \<Rightarrow> mbptree_leaf_iterator \<Rightarrow> mbptree_value option" where
  "mbptree_leaf_iterator_value t it = do {
     l \<leftarrow> nodes t (it_leaf it);
     d \<leftarrow> get_data l (it_idx it);
     Some (md_value d) }"

definition mbptree_leaf_iterator_next :: "mbptree \<Rightarrow> mbptree_leaf_iterator \<Rightarrow> mbptree_leaf_iterator option" where
  "mbptree_leaf_iterator_next t it = do {
     l \<leftarrow> nodes t (it_leaf it);
     let next_idx = Suc (it_idx it);
     c_assert (next_idx \<le> n_size l);
     if next_idx = n_size l then do {
       d \<leftarrow> get_data l (n_size l);
       Some (it\<lparr>it_leaf := md_value d, it_idx := 0\<rparr>) }
     else Some (it\<lparr>it_idx := next_idx\<rparr>) }"

section \<open>The breadth-first iterator\<close>

text \<open>The queue has \<open>QUEUE_SIZE * sizeof(struct mbptree_node)\<close> bytes, 16 bytes a node, which
  is 2048 pointers. Pushing the children of the node at the head is shared by the two functions.\<close>

record mbptree_bfs_iterator =
  bfs_head :: nat
  bfs_tail :: nat
  bfs_queue :: "address list"

definition QUEUE_SIZE :: nat where "QUEUE_SIZE = 1024"

definition bfs_capacity :: nat where "bfs_capacity = QUEUE_SIZE * 16 div 8"

definition bfs_push :: "mbptree_bfs_iterator \<Rightarrow> address \<Rightarrow> mbptree_bfs_iterator option" where
  "bfs_push it a =
     (if bfs_tail it < length (bfs_queue it)
      then Some (it\<lparr>bfs_queue := (bfs_queue it)[bfs_tail it := a], bfs_tail := Suc (bfs_tail it)\<rparr>) else None)"

definition bfs_head_node :: "mbptree_bfs_iterator \<Rightarrow> address option" where
  "bfs_head_node it = (if bfs_head it < length (bfs_queue it) then Some (bfs_queue it ! bfs_head it) else None)"

fun bfs_push_children :: "mbptree_bfs_iterator \<Rightarrow> mbptree_node \<Rightarrow> nat list \<Rightarrow> mbptree_bfs_iterator option" where
  "bfs_push_children it n [] = Some it"
| "bfs_push_children it n (i # is) = do {
     d \<leftarrow> get_data n i;
     it \<leftarrow> bfs_push it (md_value d);
     bfs_push_children it n is }"

definition mbptree_bfs_first :: "mbptree \<Rightarrow> (mbptree \<times> mbptree_bfs_iterator option) option" where
  "mbptree_bfs_first t =
     (let (ok, t) = alloc_outcome t in
      if \<not> ok then Some (t, None) else do {
        it \<leftarrow> bfs_push \<lparr>bfs_head = 0, bfs_tail = 0, bfs_queue = replicate bfs_capacity 0\<rparr> (root t);
        a \<leftarrow> bfs_head_node it;
        n \<leftarrow> nodes t a;
        it \<leftarrow> (if n_leaf n = 0 then bfs_push_children it n [0..<Suc (n_size n)] else Some it);
        Some (t, Some it) })"

definition mbptree_bfs_iterator_key :: "mbptree \<Rightarrow> mbptree_bfs_iterator \<Rightarrow> nat \<Rightarrow> (int \<times> u64 option) option" where
  "mbptree_bfs_iterator_key t it idx = do {
     a \<leftarrow> bfs_head_node it;
     n \<leftarrow> nodes t a;
     if idx < n_size n then do { d \<leftarrow> get_data n idx; Some (0, Some (md_key d)) }
     else Some (- 1, None) }"

definition mbptree_bfs_iterator_next :: "mbptree \<Rightarrow> mbptree_bfs_iterator \<Rightarrow> mbptree_bfs_iterator option" where
  "mbptree_bfs_iterator_next t it = do {
     let it = it\<lparr>bfs_head := Suc (bfs_head it)\<rparr>;
     a \<leftarrow> bfs_head_node it;
     if a = 0 then Some it else do {
       n \<leftarrow> nodes t a;
       if n_leaf n = 0 then bfs_push_children it n [0..<Suc (n_size n)] else Some it } }"

definition mbptree_bfs_iterator_valid :: "mbptree_bfs_iterator \<Rightarrow> bool" where
  "mbptree_bfs_iterator_valid it \<longleftrightarrow> bfs_head it < bfs_tail it"

definition mbptree_bfs_iterator_leaf :: "mbptree \<Rightarrow> mbptree_bfs_iterator \<Rightarrow> int option" where
  "mbptree_bfs_iterator_leaf t it = do {
     a \<leftarrow> bfs_head_node it;
     n \<leftarrow> nodes t a;
     Some (n_leaf n) }"

declare mbptree_free_from.simps [code] mbptree_append_node.simps [code] mbptree_find_leaf.simps [code]

end
