(* ===== verification/Mbptree_Inv.thy ===== *)
theory Mbptree_Inv
  imports Mbptree
begin

text \<open>
  The invariant of the B+tree and its preservation by appending. A tree is described level by
  level. A level is the list of its nodes from left to right, each with the lowest key of its
  subtree; the level above groups them, one inner node per group. The keys of an inner node
  are then the lowest keys of its children but the first. Appending a leaf extends every
  level at its right end only.
\<close>

section \<open>Keys and values of a node\<close>

abbreviation keys :: "mbptree_node \<Rightarrow> u64 list" where
  "keys n \<equiv> map md_key (n_data n)"

abbreviation vals :: "mbptree_node \<Rightarrow> mbptree_value list" where
  "vals n \<equiv> map md_value (n_data n)"

named_theorems heap_simps \<open>reading and writing nodes that exist\<close>

lemma nodes_set_node [simp]: "nodes (set_node t a n) = (nodes t)(a \<mapsto> n)"
  by (simp add: set_node_def)

lemma set_node_frame [simp]:
  "branch_factor (set_node t a n) = branch_factor t" "tree_lock (set_node t a n) = tree_lock t"
  "root (set_node t a n) = root t" "last_leaf (set_node t a n) = last_leaf t"
  "next_addr (set_node t a n) = next_addr t" "allocs (set_node t a n) = allocs t"
  by (simp_all add: set_node_def)

lemma set_node_twice [simp]: "set_node (set_node t a n) a n' = set_node t a n'"
  by (simp add: set_node_def)

lemma set_node_commute: "a \<noteq> b \<Longrightarrow> set_node (set_node t a n) b m = set_node (set_node t b m) a n"
  by (simp add: set_node_def fun_upd_twist)

lemma set_node_same: "nodes t a = Some n \<Longrightarrow> set_node t a n = t"
  by (simp add: set_node_def map_upd_triv)

lemma get_data_eq [heap_simps]: "i < length (n_data n) \<Longrightarrow> get_data n i = Some (n_data n ! i)"
  by (simp add: get_data_def)

lemma set_key_eq [heap_simps]:
  "nodes t a = Some n \<Longrightarrow> i < length (n_data n) \<Longrightarrow>
   set_key t a i k = Some (set_node t a (n\<lparr>n_data := (n_data n)[i := (n_data n ! i)\<lparr>md_key := k\<rparr>]\<rparr>))"
  by (simp add: set_key_def get_data_def)

lemma set_value_eq [heap_simps]:
  "nodes t a = Some n \<Longrightarrow> i < length (n_data n) \<Longrightarrow>
   set_value t a i v = Some (set_node t a (n\<lparr>n_data := (n_data n)[i := (n_data n ! i)\<lparr>md_value := v\<rparr>]\<rparr>))"
  by (simp add: set_value_def get_data_def)

lemma set_size_eq [heap_simps]:
  "nodes t a = Some n \<Longrightarrow> set_size t a sz = Some (set_node t a (n\<lparr>n_size := sz\<rparr>))"
  by (simp add: set_size_def)

lemma set_parent_eq [heap_simps]:
  "nodes t a = Some n \<Longrightarrow> set_parent t a p = Some (set_node t a (n\<lparr>n_parent := p\<rparr>))"
  by (simp add: set_parent_def)

lemma node_size_eq [heap_simps]: "nodes t a = Some n \<Longrightarrow> node_size t a = Some (n_size n)"
  by (simp add: node_size_def)

lemma node_parent_eq [heap_simps]: "nodes t a = Some n \<Longrightarrow> node_parent t a = Some (n_parent n)"
  by (simp add: node_parent_def)

lemma c_assert_eq [heap_simps]: "b \<Longrightarrow> c_assert b = Some ()"
  by (simp add: c_assert_def)

lemma is_root_eq [heap_simps]: "nodes t a = Some n \<Longrightarrow> mbptree_is_root t a = Some (n_parent n = 0)"
  by (simp add: mbptree_is_root_def)

lemma node_full_eq [heap_simps]:
  "nodes t a = Some n \<Longrightarrow> n_size n < branch_factor t \<Longrightarrow>
   mbptree_node_full t a = Some (branch_factor t - 1 \<le> n_size n)"
  by (simp add: mbptree_node_full_def c_assert_def)

lemma map_update_same: "f d = f (xs ! i) \<Longrightarrow> map f (xs[i := d]) = map f xs"
  by (cases "i < length xs") (simp_all add: map_update list_update_same_conv list_update_beyond)

lemma keys_upd [simp]:
  "i < length (n_data n) \<Longrightarrow> map md_key ((n_data n)[i := (n_data n ! i)\<lparr>md_key := k\<rparr>]) = (keys n)[i := k]"
  "map md_value ((n_data n)[i := (n_data n ! i)\<lparr>md_key := k\<rparr>]) = vals n"
  "i < length (n_data n) \<Longrightarrow> map md_value ((n_data n)[i := (n_data n ! i)\<lparr>md_value := v\<rparr>]) = (vals n)[i := v]"
  "map md_key ((n_data n)[i := (n_data n ! i)\<lparr>md_value := v\<rparr>]) = keys n"
  by (simp_all add: map_update_same) (simp_all add: map_update)

lemma take_update_snoc: "i < length xs \<Longrightarrow> take (Suc i) (xs[i := x]) = take i xs @ [x]"
  by (simp add: take_Suc_conv_app_nth)

lemma drop_take_Cons: "i < m \<Longrightarrow> m \<le> length xs \<Longrightarrow> drop i (take m xs) = xs ! i # drop (Suc i) (take m xs)"
  using Cons_nth_drop_Suc [of i "take m xs"] by simp

section \<open>Moving half of a node\<close>

lemma move_keys_ok:
  assumes "i \<le> m" "m \<le> length (n_data l)" "nodes t a = Some l" "nodes t n = Some r" "a \<noteq> n"
    "n_size r + (m - i) \<le> length (n_data r)"
  shows "\<exists>l' r'. move_keys t a n [i..<m] = Some (set_node (set_node t a l') n r') \<and>
    n_leaf l' = n_leaf l \<and> n_size l' = n_size l \<and> n_parent l' = n_parent l \<and> vals l' = vals l \<and>
    take i (keys l') = take i (keys l) \<and>
    n_leaf r' = n_leaf r \<and> n_size r' = n_size r + (m - i) \<and> n_parent r' = n_parent r \<and> vals r' = vals r \<and>
    take (n_size r') (keys r') = take (n_size r) (keys r) @ drop i (take m (keys l))"
  using assms
proof (induction "m - i" arbitrary: i l r t)
  case 0
  then show ?case by (intro exI [of _ l] exI [of _ r]) (simp add: set_node_same)
next
  case (Suc j)
  then have im: "i < m" by simp
  define l1 where "l1 = l\<lparr>n_data := (n_data l)[i := (n_data l ! i)\<lparr>md_key := 0\<rparr>]\<rparr>"
  define r1 where "r1 = r\<lparr>n_size := Suc (n_size r),
      n_data := (n_data r)[n_size r := (n_data r ! n_size r)\<lparr>md_key := md_key (n_data l ! i)\<rparr>]\<rparr>"
  define t1 where "t1 = set_node (set_node t a l1) n r1"
  have sz: "n_size r < length (n_data r)" using Suc.prems(6) im by simp
  have L: "n_leaf l1 = n_leaf l" "n_size l1 = n_size l" "n_parent l1 = n_parent l" "vals l1 = vals l"
    "keys l1 = (keys l)[i := 0]" "length (n_data l1) = length (n_data l)"
    using Suc.prems(2) im by (simp_all add: l1_def)
  have R: "n_leaf r1 = n_leaf r" "n_size r1 = Suc (n_size r)" "n_parent r1 = n_parent r" "vals r1 = vals r"
    "keys r1 = (keys r)[n_size r := md_key (n_data l ! i)]" "length (n_data r1) = length (n_data r)"
    using sz by (simp_all add: r1_def)
  have run: "move_keys t a n [i..<m] = move_keys t1 a n [Suc i..<m]"
    using Suc.prems im sz
    by (simp add: upt_conv_Cons heap_simps set_node_commute [of n a] t1_def l1_def r1_def)
  have "\<exists>l' r'. move_keys t1 a n [Suc i..<m] = Some (set_node (set_node t1 a l') n r') \<and>
    n_leaf l' = n_leaf l1 \<and> n_size l' = n_size l1 \<and> n_parent l' = n_parent l1 \<and> vals l' = vals l1 \<and>
    take (Suc i) (keys l') = take (Suc i) (keys l1) \<and>
    n_leaf r' = n_leaf r1 \<and> n_size r' = n_size r1 + (m - Suc i) \<and> n_parent r' = n_parent r1 \<and> vals r' = vals r1 \<and>
    take (n_size r') (keys r') = take (n_size r1) (keys r1) @ drop (Suc i) (take m (keys l1))"
    using Suc.hyps(2) Suc.prems im by (intro Suc.hyps(1)) (simp_all add: t1_def L R)
  then obtain l' r' where IH: "move_keys t1 a n [Suc i..<m] = Some (set_node (set_node t1 a l') n r')"
    "n_leaf l' = n_leaf l1 \<and> n_size l' = n_size l1 \<and> n_parent l' = n_parent l1 \<and> vals l' = vals l1"
    "take (Suc i) (keys l') = take (Suc i) (keys l1)"
    "n_leaf r' = n_leaf r1 \<and> n_size r' = n_size r1 + (m - Suc i) \<and> n_parent r' = n_parent r1 \<and> vals r' = vals r1"
    "take (n_size r') (keys r') = take (n_size r1) (keys r1) @ drop (Suc i) (take m (keys l1))"
    by blast
  have "set_node (set_node t1 a l') n r' = set_node (set_node t a l') n r'"
    using Suc.prems(5) by (simp add: t1_def set_node_commute [of n a])
  moreover have "take i (keys l') = take i (keys l)"
    using arg_cong [OF IH(3), of "take i"] Suc.prems(2) im L by (simp add: min_def)
  moreover have "take (n_size r') (keys r') = take (n_size r) (keys r) @ drop i (take m (keys l))"
    using IH(5) Suc.prems(2) im sz by (simp add: L R take_update_snoc drop_take_Cons, simp add: drop_take)
  ultimately show ?case using im run IH(1,2,4) L R
    by (intro exI [of _ l'] exI [of _ r']) simp
qed

text \<open>Changing the heap only, and adopting a list of children.\<close>

definition heap_only :: "mbptree \<Rightarrow> mbptree \<Rightarrow> bool" where
  "heap_only t t' \<longleftrightarrow> t' = t\<lparr>nodes := nodes t'\<rparr>"

lemma heap_only_refl [simp]: "heap_only t t"
  by (simp add: heap_only_def)

lemma heap_only_set_node [simp]: "heap_only t (set_node t' a n) \<longleftrightarrow> heap_only t t'"
  by (auto simp: heap_only_def set_node_def) (cases t'; cases t; simp)+

lemma heap_only_trans: "heap_only t t' \<Longrightarrow> heap_only t' t'' \<Longrightarrow> heap_only t t''"
  unfolding heap_only_def by (cases t; cases t'; cases t'') simp

lemma heap_onlyD:
  "heap_only t t' \<Longrightarrow> branch_factor t' = branch_factor t" "heap_only t t' \<Longrightarrow> tree_lock t' = tree_lock t"
  "heap_only t t' \<Longrightarrow> root t' = root t" "heap_only t t' \<Longrightarrow> last_leaf t' = last_leaf t"
  "heap_only t t' \<Longrightarrow> next_addr t' = next_addr t" "heap_only t t' \<Longrightarrow> allocs t' = allocs t"
  unfolding heap_only_def by (cases t; cases t'; simp)+

definition adopt :: "address \<Rightarrow> address set \<Rightarrow> mbptree \<Rightarrow> address \<Rightarrow> mbptree_node option" where
  "adopt p X t x = (if x \<in> X then map_option (\<lambda>d. d\<lparr>n_parent := p\<rparr>) (nodes t x) else nodes t x)"

text \<open>What the loop over the values from \<open>i\<close> to \<open>m\<close> leaves: \<open>l'\<close> and \<open>r'\<close> in place of \<open>l\<close> and \<open>r\<close>, and adopted children.\<close>

definition values_moved ::
  "mbptree \<Rightarrow> address \<Rightarrow> address \<Rightarrow> nat \<Rightarrow> nat \<Rightarrow> nat \<Rightarrow> mbptree_node \<Rightarrow> mbptree_node \<Rightarrow> mbptree \<Rightarrow> mbptree_node \<Rightarrow> mbptree_node \<Rightarrow> bool" where
  "values_moved t a n j i m l r t' l' r' \<longleftrightarrow> heap_only t t' \<and> nodes t' a = Some l' \<and> nodes t' n = Some r' \<and>
     n_leaf l' = n_leaf l \<and> n_size l' = n_size l \<and> n_parent l' = n_parent l \<and> keys l' = keys l \<and>
     take i (vals l') = take i (vals l) \<and>
     n_leaf r' = n_leaf r \<and> n_size r' = n_size r \<and> n_parent r' = n_parent r \<and> keys r' = keys r \<and>
     take (j + (m - i)) (vals r') = take j (vals r) @ drop i (take m (vals l)) \<and>
     (\<forall>x. x \<noteq> a \<and> x \<noteq> n \<longrightarrow> nodes t' x = adopt n (set (drop i (take m (vals l)))) t x)"

lemma values_moved_step:
  assumes im: "i < m" "m \<le> length (n_data l)" "j < length (n_data r)"
    and x: "x = vals l ! i" "nodes t x = Some nx" "x \<noteq> a" "x \<noteq> n"
  defines "l1 \<equiv> l\<lparr>n_data := (n_data l)[i := (n_data l ! i)\<lparr>md_value := 0\<rparr>]\<rparr>"
    and "r1 \<equiv> r\<lparr>n_data := (n_data r)[j := (n_data r ! j)\<lparr>md_value := x\<rparr>]\<rparr>"
  assumes rest: "values_moved (set_node (set_node (set_node t n r1) a l1) x (nx\<lparr>n_parent := n\<rparr>)) a n (Suc j) (Suc i) m l1 r1 t' l' r'"
  shows "values_moved t a n j i m l r t' l' r'"
proof -
  define t1 where "t1 = set_node (set_node (set_node t n r1) a l1) x (nx\<lparr>n_parent := n\<rparr>)"
  note M = rest [folded t1_def, unfolded values_moved_def]
  have L: "n_leaf l1 = n_leaf l" "n_size l1 = n_size l" "n_parent l1 = n_parent l" "keys l1 = keys l" "vals l1 = (vals l)[i := 0]"
    using im(1,2) by (simp_all add: l1_def)
  have R: "n_leaf r1 = n_leaf r" "n_size r1 = n_size r" "n_parent r1 = n_parent r" "keys r1 = keys r" "vals r1 = (vals r)[j := x]"
    using im(3) by (simp_all add: r1_def)
  have xs: "drop i (take m (vals l)) = x # drop (Suc i) (take m (vals l))" using im(1,2) by (simp add: drop_take_Cons x(1))
  have dr: "drop (Suc i) (take m (vals l1)) = drop (Suc i) (take m (vals l))" by (simp add: L drop_take)
  have "heap_only t t'" using M heap_only_trans [of t t1 t'] by (simp add: t1_def)
  moreover have "take (Suc i) (vals l') = take (Suc i) (vals l1)" using M by (elim conjE)
  from arg_cong [OF this, of "take i"] have "take i (vals l') = take i (vals l)" using im(2) L by (simp add: min_def)
  moreover have "take (j + (m - i)) (vals r') = take j (vals r) @ drop i (take m (vals l))"
    using M im(1,3) by (simp add: dr xs R take_update_snoc Suc_diff_Suc)
  moreover have "\<forall>y. y \<noteq> a \<and> y \<noteq> n \<longrightarrow> nodes t' y = adopt n (set (drop i (take m (vals l)))) t y"
    using M x(2-4) unfolding xs dr by (auto simp: adopt_def t1_def)
  ultimately show ?thesis using M L R by (simp add: values_moved_def)
qed

lemma move_values_ok:
  assumes "i \<le> m" "m \<le> length (n_data l)" "nodes t a = Some l" "nodes t n = Some r" "a \<noteq> n"
    "j + (m - i) \<le> length (n_data r)"
    "\<And>x. x \<in> set (drop i (take m (vals l))) \<Longrightarrow> nodes t x \<noteq> None \<and> x \<noteq> a \<and> x \<noteq> n"
  shows "\<exists>l' r' t'. move_values t a n j [i..<m] = Some t' \<and> values_moved t a n j i m l r t' l' r'"
  using assms
proof (induction "m - i" arbitrary: i j l r t)
  case 0
  then show ?case by (intro exI [of _ l] exI [of _ r] exI [of _ t]) (simp add: adopt_def values_moved_def)
next
  case (Suc d)
  then have im: "i < m" by simp
  define x where "x = vals l ! i"
  have xs: "drop i (take m (vals l)) = x # drop (Suc i) (take m (vals l))"
    using Suc.prems(2) im by (simp add: drop_take_Cons x_def)
  have x: "nodes t x \<noteq> None" "x \<noteq> a" "x \<noteq> n" using Suc.prems(7) [of x] xs by auto
  then obtain nx where nx: "nodes t x = Some nx" by blast
  define l1 where "l1 = l\<lparr>n_data := (n_data l)[i := (n_data l ! i)\<lparr>md_value := 0\<rparr>]\<rparr>"
  define r1 where "r1 = r\<lparr>n_data := (n_data r)[j := (n_data r ! j)\<lparr>md_value := x\<rparr>]\<rparr>"
  define t1 where "t1 = set_node (set_node (set_node t n r1) a l1) x (nx\<lparr>n_parent := n\<rparr>)"
  have sz: "j < length (n_data r)" using Suc.prems(6) im by simp
  have run: "move_values t a n j [i..<m] = move_values t1 a n (Suc j) [Suc i..<m]"
    using Suc.prems(2-5) im sz x nx by (simp add: upt_conv_Cons heap_simps t1_def l1_def r1_def x_def)
  have len: "length (n_data l1) = length (n_data l)" "length (n_data r1) = length (n_data r)" by (simp_all add: l1_def r1_def)
  have n1: "nodes t1 a = Some l1" "nodes t1 n = Some r1" using Suc.prems(5) x by (simp_all add: t1_def)
  have "vals l1 = (vals l)[i := 0]" using Suc.prems(2) im by (simp add: l1_def)
  then have "drop (Suc i) (take m (vals l1)) = drop (Suc i) (take m (vals l))" by (simp add: drop_take)
  then have ch: "nodes t1 y \<noteq> None \<and> y \<noteq> a \<and> y \<noteq> n" if "y \<in> set (drop (Suc i) (take m (vals l1)))" for y
    using Suc.prems(7) [of y] that xs by (auto simp: t1_def)
  have "\<exists>l' r' t'. move_values t1 a n (Suc j) [Suc i..<m] = Some t' \<and> values_moved t1 a n (Suc j) (Suc i) m l1 r1 t' l' r'"
    by (rule Suc.hyps(1) [OF _ _ _ n1 Suc.prems(5) _ ch]) (use Suc.hyps(2) Suc.prems im len in simp_all)
  then obtain l' r' t' where "move_values t1 a n (Suc j) [Suc i..<m] = Some t'" "values_moved t1 a n (Suc j) (Suc i) m l1 r1 t' l' r'"
    by blast
  with values_moved_step [OF im Suc.prems(2) sz x_def nx x(2,3)] run show ?case unfolding t1_def l1_def r1_def by metis
qed

section \<open>Inner nodes\<close>

type_synonym level = "(address \<times> u64) list"

text \<open>The node \<open>n\<close> has the children \<open>g\<close>, each given with the lowest key of its subtree.\<close>

definition inner_node :: "nat \<Rightarrow> level \<Rightarrow> mbptree_node \<Rightarrow> bool" where
  "inner_node b g n \<longleftrightarrow> n_leaf n = 0 \<and> length g \<le> b \<and> Suc (n_size n) = length g \<and> length (n_data n) = b \<and>
     take (n_size n) (keys n) = map snd (tl g) \<and> take (length g) (vals n) = map fst g"

definition fresh_inner :: "nat \<Rightarrow> address \<Rightarrow> mbptree_node" where
  "fresh_inner b p = \<lparr>n_leaf = 0, n_size = 0, n_parent = p, n_data = replicate b data0\<rparr>"

lemma inner_node_parent [simp]: "inner_node b g (n\<lparr>n_parent := p\<rparr>) = inner_node b g n"
  by (simp add: inner_node_def)

lemma create_node_ok:
  "allocs t = [] \<Longrightarrow> mbptree_create_node t bf p =
     (set_node (t\<lparr>next_addr := Suc (next_addr t)\<rparr>) (next_addr t) (fresh_inner bf p), next_addr t)"
  by (simp add: mbptree_create_node_def alloc_outcome_def fresh_inner_def Let_def)

lemma add_child_ok:
  assumes n: "nodes t a = Some n" and g: "inner_node b g n" and room: "length g < b"
  shows "\<exists>n'. add_child t a k c = Some (set_node t a n') \<and> inner_node b (g @ [(c, k)]) n' \<and> n_parent n' = n_parent n"
proof -
  have sz: "Suc (n_size n) = length g" "length (n_data n) = b" "Suc (n_size n) < length (n_data n)"
    using g room by (auto simp: inner_node_def)
  define n' where "n' = n\<lparr>n_size := Suc (n_size n),
     n_data := ((n_data n)[n_size n := (n_data n ! n_size n)\<lparr>md_key := k\<rparr>])
       [Suc (n_size n) := (n_data n ! Suc (n_size n))\<lparr>md_value := c\<rparr>]\<rparr>"
  have "add_child t a k c = Some (set_node t a n')"
    using n sz by (simp add: add_child_def heap_simps n'_def)
  moreover have "keys n' = (keys n)[n_size n := k]" "vals n' = (vals n)[Suc (n_size n) := c]"
    using sz by (simp_all add: n'_def map_update) (simp_all add: list_update_same_conv list_update_swap)
  then have "inner_node b (g @ [(c, k)]) n'"
    using g sz room by (auto simp: inner_node_def n'_def take_update_snoc tl_append split: list.split)
  ultimately show ?thesis by (intro exI [of _ n']) (simp add: n'_def)
qed

text \<open>A full inner node, and its two halves after \<open>mbptree_move_half_node\<close>.\<close>

lemma inner_node_full:
  assumes "inner_node b g l" "length g = b" "0 < b"
  shows "n_size l = b - 1" "length (n_data l) = b" "n_leaf l = 0" "take (b - 1) (keys l) = map snd (tl g)" "vals l = map fst g"
proof -
  have "Suc (n_size l) = length g" using assms(1) by (simp add: inner_node_def)
  then show sz: "n_size l = b - 1" using assms(2) by linarith
  then show "length (n_data l) = b" "n_leaf l = 0" "take (b - 1) (keys l) = map snd (tl g)"
    using assms(1) unfolding inner_node_def by (simp_all only:)
  then show "vals l = map fst g" using assms(1,2) by (simp add: inner_node_def)
qed

lemma left_half:
  assumes l: "inner_node b g l" "length g = b" "Suc mid < b"
    and l': "n_leaf l' = 0" "length (n_data l') = b" "take (Suc mid) (keys l') = take (Suc mid) (keys l)"
      "take (Suc mid) (vals l') = take (Suc mid) (vals l)"
  shows "inner_node b (take (Suc mid) g) (l'\<lparr>n_size := mid\<rparr>)"
proof -
  have "0 < b" using l(3) by simp
  note L = inner_node_full [OF l(1,2) this]
  have "take mid (keys l') = take mid (take (Suc mid) (keys l))" using arg_cong [OF l'(3), of "take mid"] by simp
  also have "\<dots> = take mid (take (b - 1) (keys l))" using l(3) by (simp add: min_absorb1 min_absorb2)
  also have "\<dots> = map snd (tl (take (Suc mid) g))" unfolding L(4) by (simp add: take_map tl_take)
  finally have "take mid (keys l') = map snd (tl (take (Suc mid) g))" .
  moreover have "take (Suc mid) (vals l') = map fst (take (Suc mid) g)" unfolding l'(4) L(5) by (simp only: take_map)
  ultimately show ?thesis using l(2,3) l'(1,2) by (simp add: inner_node_def)
qed

lemma right_half:
  assumes l: "inner_node b g l" "length g = b" "Suc mid < b"
    and r: "n_leaf r = 0" "length (n_data r) = b" "Suc (n_size r) = b - Suc mid"
      "take (n_size r) (keys r) = drop (Suc mid) (take (b - 1) (keys l))" "take (b - Suc mid) (vals r) = drop (Suc mid) (take b (vals l))"
  shows "inner_node b (drop (Suc mid) g) r"
proof -
  have "0 < b" using l(3) by simp
  note L = inner_node_full [OF l(1,2) this]
  have "take (n_size r) (keys r) = map snd (tl (drop (Suc mid) g))" unfolding r(4) L(4) by (simp add: drop_map tl_drop)
  moreover have "take (b - Suc mid) (vals r) = map fst (drop (Suc mid) g)" unfolding r(5) L(5) using l(2) by (simp add: drop_map)
  ultimately show ?thesis using l(2) r(1-3) by (simp add: inner_node_def)
qed

text \<open>The two loops: \<open>l'\<close> and \<open>r'\<close> are the nodes they leave.\<close>

lemma move_loops_ok:
  assumes a: "nodes t a = Some l" and g: "inner_node b g l" "length g = b" and mid: "Suc mid < b"
    and n: "nodes t n = Some r" "r = fresh_inner b (n_parent l)" "a \<noteq> n"
    and ch: "\<And>x. x \<in> fst ` set (drop (Suc mid) g) \<Longrightarrow> nodes t x \<noteq> None \<and> x \<noteq> a \<and> x \<noteq> n"
  obtains l' r' t1 t' where "move_keys t a n [Suc mid..<b - 1] = Some t1" "move_values t1 a n 0 [Suc mid..<b] = Some t'"
    "heap_only t t'" "nodes t' a = Some l'" "n_parent l' = n_parent l" "inner_node b (take (Suc mid) g) (l'\<lparr>n_size := mid\<rparr>)"
    "nodes t' n = Some r'" "n_parent r' = n_parent l" "inner_node b (drop (Suc mid) g) r'"
    "\<forall>x. x \<noteq> a \<and> x \<noteq> n \<longrightarrow> nodes t' x = adopt n (fst ` set (drop (Suc mid) g)) t x"
proof -
  have b: "0 < b" using mid by simp
  note L = inner_node_full [OF g b]
  have R: "n_size r = 0" "length (n_data r) = b" "n_leaf r = 0" "n_parent r = n_parent l" by (simp_all add: n(2) fresh_inner_def)
  have "Suc mid \<le> b - 1" "b - 1 \<le> length (n_data l)" "n_size r + (b - 1 - Suc mid) \<le> length (n_data r)" using mid L(2) R(1,2) by simp_all
  from move_keys_ok [OF this(1,2) a n(1,3) this(3)] obtain l1 r1 where 1: "move_keys t a n [Suc mid..<b - 1] = Some (set_node (set_node t a l1) n r1)"
    "n_leaf l1 = n_leaf l" "n_size l1 = n_size l" "n_parent l1 = n_parent l" "vals l1 = vals l"
    "take (Suc mid) (keys l1) = take (Suc mid) (keys l)"
    "n_leaf r1 = n_leaf r" "n_size r1 = n_size r + (b - 1 - Suc mid)" "n_parent r1 = n_parent r" "vals r1 = vals r"
    "take (n_size r1) (keys r1) = take (n_size r) (keys r) @ drop (Suc mid) (take (b - 1) (keys l))"
    by blast
  define t1 where "t1 = set_node (set_node t a l1) n r1"
  have len: "length (n_data l1) = b" "length (n_data r1) = b"
    using arg_cong [OF 1(5), of length] arg_cong [OF 1(10), of length] L R g(2) by simp_all
  have dv: "drop (Suc mid) (take b (vals l1)) = map fst (drop (Suc mid) g)" using g(2) by (simp add: 1(5) L(5) drop_map)
  have ch1: "nodes t1 x \<noteq> None \<and> x \<noteq> a \<and> x \<noteq> n" if "x \<in> set (drop (Suc mid) (take b (vals l1)))" for x
    using ch [of x] that unfolding dv by (simp add: t1_def)
  have t1: "nodes t1 a = Some l1" "nodes t1 n = Some r1" using n(3) by (simp_all add: t1_def)
  have "Suc mid \<le> b" "b \<le> length (n_data l1)" "0 + (b - Suc mid) \<le> length (n_data r1)" using mid len by simp_all
  from move_values_ok [OF this(1,2) t1 n(3) this(3) ch1] obtain l' r' t' where
    2: "move_values t1 a n 0 [Suc mid..<b] = Some t'" "heap_only t1 t'" "nodes t' a = Some l'" "nodes t' n = Some r'"
    "n_leaf l' = n_leaf l1" "n_parent l' = n_parent l1" "keys l' = keys l1" "take (Suc mid) (vals l') = take (Suc mid) (vals l1)"
    "n_leaf r' = n_leaf r1" "n_size r' = n_size r1" "n_parent r' = n_parent r1" "keys r' = keys r1"
    "take (b - Suc mid) (vals r') = drop (Suc mid) (take b (vals l1))"
    "\<forall>x. x \<noteq> a \<and> x \<noteq> n \<longrightarrow> nodes t' x = adopt n (set (drop (Suc mid) (take b (vals l1)))) t1 x"
    unfolding values_moved_def by (auto simp del: take_map)
  have len': "length (n_data l') = b" "length (n_data r') = b" using 2(7,12) len by (metis length_map)+
  show ?thesis
  proof (rule that)
    show "heap_only t t'" using 2(2) heap_only_trans [of t t1 t'] by (simp add: t1_def)
    show "inner_node b (take (Suc mid) g) (l'\<lparr>n_size := mid\<rparr>)"
      using left_half [OF g mid, of l'] 1(2,5,6) 2(5,7,8) L(3) len' by simp
    show "inner_node b (drop (Suc mid) g) r'"
      using right_half [OF g mid, of r'] 1(5,7,8,11) 2(9,10,12,13) R(1,3) len' mid by simp
    show "\<forall>x. x \<noteq> a \<and> x \<noteq> n \<longrightarrow> nodes t' x = adopt n (fst ` set (drop (Suc mid) g)) t x"
      using 2(14) by (simp add: dv adopt_def t1_def)
  qed (use 1(1,4,9) 2 R(4) in \<open>simp_all add: t1_def\<close>)
qed

lemma move_half_ok:
  assumes a: "nodes t a = Some l" and g: "inner_node b g l" and b: "branch_factor t = b" "3 \<le> b" "length g = b"
    and n: "nodes t n = Some r" "r = fresh_inner b (n_parent l)" "a \<noteq> n"
    and ch: "\<And>x. x \<in> fst ` set (drop (Suc (b div 2)) g) \<Longrightarrow> nodes t x \<noteq> None \<and> x \<noteq> a \<and> x \<noteq> n"
  shows "\<exists>l' r' t'. mbptree_move_half_node t a n = Some (t', snd (g ! Suc (b div 2))) \<and> heap_only t t' \<and>
    nodes t' a = Some l' \<and> inner_node b (take (Suc (b div 2)) g) l' \<and> n_parent l' = n_parent l \<and>
    nodes t' n = Some r' \<and> inner_node b (drop (Suc (b div 2)) g) r' \<and> n_parent r' = n_parent l \<and>
    (\<forall>x. x \<noteq> a \<and> x \<noteq> n \<longrightarrow> nodes t' x = adopt n (fst ` set (drop (Suc (b div 2)) g)) t x)"
proof -
  define mid where "mid = b div 2"
  have mid: "Suc mid < b" "mid < b - 1" "0 < b" using b(2) by (auto simp: mid_def)
  note L = inner_node_full [OF g b(3) mid(3)]
  obtain l' r' t1 t' where M: "move_keys t a n [Suc mid..<b - 1] = Some t1" "move_values t1 a n 0 [Suc mid..<b] = Some t'"
    "heap_only t t'" "nodes t' a = Some l'" "n_parent l' = n_parent l" "inner_node b (take (Suc mid) g) (l'\<lparr>n_size := mid\<rparr>)"
    "nodes t' n = Some r'" "n_parent r' = n_parent l" "inner_node b (drop (Suc mid) g) r'"
    "\<forall>x. x \<noteq> a \<and> x \<noteq> n \<longrightarrow> nodes t' x = adopt n (fst ` set (drop (Suc mid) g)) t x"
    by (rule move_loops_ok [OF a g b(3) mid(1) n ch [folded mid_def]])
  have "take (b - 1) (keys l) ! mid = map snd (tl g) ! mid" by (simp only: L(4))
  then have "md_key (n_data l ! mid) = snd (g ! Suc mid)" using mid L(2) b(3) by (simp add: nth_tl)
  then have "mbptree_move_half_node t a n = Some (set_node t' a (l'\<lparr>n_size := mid\<rparr>), snd (g ! Suc mid))"
    using a n L M(1,2,4) mid b
    by (simp add: mbptree_move_half_node_def heap_simps mbptree_midpoint_def fresh_inner_def mid_def [symmetric] del: upt_Suc)
  then show ?thesis using M(3,5-10) n(3) unfolding mid_def [symmetric]
    by (intro exI [of _ "l'\<lparr>n_size := mid\<rparr>"] exI [of _ r'] exI [of _ "set_node t' a (l'\<lparr>n_size := mid\<rparr>)"]) simp
qed

end
