(* ===== verification/Mbptree_Levels.thy ===== *)
theory Mbptree_Levels
  imports Mbptree_Inv
begin

text \<open>
  The levels of inner nodes, and the climb of \<open>mbptree_append_node\<close> along the right edge of
  the tree: it returns for every well-formed tree and extends each level at its end.
\<close>

section \<open>Levels\<close>

type_synonym groups = "(address \<times> level) list"

definition heads :: "groups \<Rightarrow> level" where
  "heads G = map (\<lambda>(a, g). (a, snd (hd g))) G"

definition addrs :: "groups list \<Rightarrow> address list" where
  "addrs Gs = concat (map (map fst) Gs)"

definition group_ok :: "mbptree \<Rightarrow> address \<times> level \<Rightarrow> bool" where
  "group_ok t ag = (case ag of (a, g) \<Rightarrow> 2 \<le> length g \<and>
     (case nodes t a of Some n \<Rightarrow> inner_node (branch_factor t) g n | None \<Rightarrow> False) \<and>
     (\<forall>x \<in> set g. node_parent t (fst x) = Some a))"

fun levels_ok :: "mbptree \<Rightarrow> level \<Rightarrow> groups list \<Rightarrow> bool" where
  "levels_ok t L [] \<longleftrightarrow> map fst L = [root t] \<and> node_parent t (root t) = Some 0"
| "levels_ok t L (G # Gs) \<longleftrightarrow> concat (map snd G) = L \<and> (\<forall>ag \<in> set G. group_ok t ag) \<and> levels_ok t (heads G) Gs"

definition heap_ok :: "mbptree \<Rightarrow> bool" where
  "heap_ok t \<longleftrightarrow> 0 < next_addr t \<and> (\<forall>x. nodes t x \<noteq> None \<longrightarrow> 0 < x \<and> x < next_addr t)"

text \<open>A node without its parent pointer.\<close>

definition body :: "mbptree \<Rightarrow> address \<Rightarrow> mbptree_node option" where
  "body t a = map_option (\<lambda>n. n\<lparr>n_parent := 0\<rparr>) (nodes t a)"

lemma addrs_simps [simp]: "addrs [] = []" "addrs (G # Gs) = map fst G @ addrs Gs"
  by (simp_all add: addrs_def)

lemma heads_simps [simp]: "heads [] = []" "heads ((a, g) # G) = (a, snd (hd g)) # heads G"
  "heads (G @ G') = heads G @ heads G'" "map fst (heads G) = map fst G"
  by (simp_all add: heads_def case_prod_beta)

lemma levels_ok_nonempty: "levels_ok t L Gs \<Longrightarrow> L \<noteq> []"
proof (induction Gs arbitrary: L)
  case (Cons G Gs)
  then have "heads G \<noteq> []" by simp
  then obtain a g G' where "G = (a, g) # G'" by (cases G) auto
  with Cons.prems show ?case by (auto simp: group_ok_def)
qed auto

lemma group_okE:
  assumes "group_ok t (a, g)"
  obtains n where "2 \<le> length g" "nodes t a = Some n" "inner_node (branch_factor t) g n"
    "\<And>x. x \<in> set g \<Longrightarrow> node_parent t (fst x) = Some a"
  using assms by (auto simp: group_ok_def split: option.splits)

lemma group_parent: "group_ok t (a, g) \<Longrightarrow> x \<in> set g \<Longrightarrow> node_parent t (fst x) = Some a"
  by (erule group_okE)

lemma body_eq_SomeD:
  "body t' a = body t a \<Longrightarrow> nodes t a = Some n \<Longrightarrow>
   \<exists>n'. nodes t' a = Some n' \<and> n'\<lparr>n_parent := 0\<rparr> = n\<lparr>n_parent := 0\<rparr>"
  by (auto simp: body_def)

lemma body_eq_None: "body t' x = body t x \<Longrightarrow> nodes t' x = None \<longleftrightarrow> nodes t x = None"
  by (metis body_def option.map_disc_iff)

lemma group_ok_frame:
  assumes ok: "group_ok t (a, g)" and b: "branch_factor t' = branch_factor t" and "body t' a = body t a"
    and "\<And>x. x \<in> set g \<Longrightarrow> node_parent t' (fst x) = node_parent t (fst x)"
  shows "group_ok t' (a, g)"
  using ok
proof (rule group_okE)
  fix n assume n: "2 \<le> length g" "nodes t a = Some n" "inner_node (branch_factor t) g n"
    "\<And>x. x \<in> set g \<Longrightarrow> node_parent t (fst x) = Some a"
  from body_eq_SomeD [OF assms(3) n(2)] obtain n' where
    n': "nodes t' a = Some n'" "n'\<lparr>n_parent := 0\<rparr> = n\<lparr>n_parent := 0\<rparr>" by blast
  have "inner_node (branch_factor t') g n'"
    using n(3) n'(2) b by (metis inner_node_parent)
  then show ?thesis using n n' assms(4) by (simp add: group_ok_def)
qed

lemma levels_ok_frame:
  assumes "levels_ok t L Gs" "branch_factor t' = branch_factor t" "root t' = root t"
    and "\<And>a. a \<in> set (addrs Gs) \<Longrightarrow> body t' a = body t a"
    and "\<And>a. a \<in> fst ` set L \<union> set (addrs Gs) \<Longrightarrow> node_parent t' a = node_parent t a"
  shows "levels_ok t' L Gs"
  using assms
proof (induction Gs arbitrary: L)
  case Nil
  then have "root t \<in> fst ` set L" by (metis image_set levels_ok.simps(1) list.set_intros(1))
  with Nil show ?case by simp
next
  case (Cons G Gs)
  have "group_ok t' ag" if ag: "ag \<in> set G" for ag
  proof (cases ag)
    case (Pair a g)
    then have "set g \<subseteq> set L" "a \<in> set (addrs (G # Gs))" using Cons.prems(1) ag by force+
    then have "body t' a = body t a" and "\<And>x. x \<in> set g \<Longrightarrow> node_parent t' (fst x) = node_parent t (fst x)"
      using Cons.prems(4) Cons.prems(5) [OF UnI1 [OF imageI]] by blast+
    then show ?thesis
      using Pair ag Cons.prems(1,2) group_ok_frame [of t a g t'] by auto
  qed
  moreover have "levels_ok t' (heads G) Gs"
  proof (rule Cons.IH)
    fix a assume "a \<in> fst ` set (heads G) \<union> set (addrs Gs)"
    moreover have "fst ` set (heads G) = fst ` set G" by (metis heads_simps(4) image_set)
    ultimately show "node_parent t' a = node_parent t a" using Cons.prems(5) by auto
  qed (use Cons.prems in auto)
  ultimately show ?case using Cons.prems(1) by simp
qed

section \<open>Extending the levels\<close>

definition grown :: "mbptree \<Rightarrow> mbptree \<Rightarrow> address set \<Rightarrow> groups list \<Rightarrow> groups list \<Rightarrow> bool" where
  "grown t t' X Gs Gs' \<longleftrightarrow> branch_factor t' = branch_factor t \<and> tree_lock t' = tree_lock t \<and>
     last_leaf t' = last_leaf t \<and> allocs t' = [] \<and> next_addr t \<le> next_addr t' \<and> heap_ok t' \<and>
     distinct (addrs Gs') \<and> set (addrs Gs') = set (addrs Gs) \<union> {next_addr t..<next_addr t'} \<and>
     (\<forall>x. x \<notin> set (addrs Gs') \<longrightarrow> body t' x = body t x) \<and>
     (\<forall>x. x \<notin> X \<union> set (addrs Gs') \<longrightarrow> nodes t' x = nodes t x)"

lemma concat_snoc_group: "concat (map snd (G @ [(a, g)])) = concat (map snd G) @ g"
  by simp

lemma node_parent_body: "nodes t' x = nodes t x \<Longrightarrow> node_parent t' x = node_parent t x" "nodes t' x = nodes t x \<Longrightarrow> body t' x = body t x"
  by (simp_all add: node_parent_def body_def)

lemma append_node_room:
  assumes lv: "levels_ok t L ((Gi @ [(a, g)]) # Gs)"
    and dist: "distinct (map fst L @ c # addrs ((Gi @ [(a, g)]) # Gs))" and heap: "heap_ok t" and al: "allocs t = []"
    and c: "node_parent t c = Some a" and room: "length g < branch_factor t"
  shows "\<exists>t'. mbptree_append_node t k c = Some (t', root t) \<and> root t' = root t \<and>
    levels_ok t' (L @ [(c, k)]) ((Gi @ [(a, g @ [(c, k)])]) # Gs) \<and>
    grown t t' (fst ` set L \<union> {c}) ((Gi @ [(a, g)]) # Gs) ((Gi @ [(a, g @ [(c, k)])]) # Gs)"
proof -
  from lv have "group_ok t (a, g)" by simp
  then obtain n where n: "2 \<le> length g" "nodes t a = Some n" "inner_node (branch_factor t) g n"
    and p: "\<And>x. x \<in> set g \<Longrightarrow> node_parent t (fst x) = Some a" by (rule group_okE) blast
  obtain n' where n': "add_child t a k c = Some (set_node t a n')" "inner_node (branch_factor t) (g @ [(c, k)]) n'"
    "n_parent n' = n_parent n" using add_child_ok [OF n(2,3) room] by blast
  let ?t = "set_node t a n'"
  have D: "a \<notin> fst ` set Gi" "a \<notin> set (addrs Gs)" using dist by simp_all
  have sz: "n_size n < branch_factor t" "\<not> branch_factor t - 1 \<le> n_size n"
    using n(3) room by (auto simp: inner_node_def)
  have a0: "a \<noteq> 0" using heap n(2) by (auto simp: heap_ok_def)
  obtain nc where nc: "nodes t c = Some nc" "n_parent nc = a" using c by (auto simp: node_parent_def)
  have "mbptree_append_node t k c = Some (?t, root t)"
    using n(2) nc a0 n'(1) sz by (subst mbptree_append_node.simps) (simp add: heap_simps)
  moreover have np: "node_parent ?t x = node_parent t x" for x
    using n n' by (simp add: node_parent_def)
  have bd: "body ?t x = body t x" if "x \<noteq> a" for x using that by (simp add: body_def)
  have "group_ok ?t (a, g @ [(c, k)])"
    using n n' np p c by (auto simp: group_ok_def)
  moreover have "group_ok ?t ag" if "ag \<in> set Gi" for ag
  proof (cases ag)
    case (Pair x gx)
    have "x \<noteq> a" using D(1) imageI [OF that, of fst] Pair by auto
    moreover have "group_ok t (x, gx)" using lv that Pair by simp
    ultimately show ?thesis using Pair np bd group_ok_frame [of t x gx ?t] by simp
  qed
  moreover have "levels_ok ?t (heads (Gi @ [(a, g)])) Gs"
  proof (rule levels_ok_frame [of t])
    show "levels_ok t (heads (Gi @ [(a, g)])) Gs" using lv by simp
    show "body ?t x = body t x" if "x \<in> set (addrs Gs)" for x
      using bd [of x] D(2) that by blast
  qed (simp_all add: np)
  then have "levels_ok ?t (heads (Gi @ [(a, g @ [(c, k)])])) Gs"
    using n(1) by (cases g) auto
  ultimately show ?thesis
    using lv dist heap al n(2) bd by (intro exI [of _ ?t]) (auto simp: grown_def heap_ok_def)
qed

text \<open>Splitting a full node \<open>a\<close> into itself and the fresh node \<open>n\<close>, which also takes the child \<open>c\<close>.\<close>

lemma split_half:
  assumes a: "nodes t a = Some l" and g: "inner_node b g l" and b: "branch_factor t = b" "3 \<le> b" "length g = b"
    and n: "nodes t n = Some (fresh_inner b (n_parent l))" and ne: "a \<noteq> n"
    and ch: "\<And>x. x \<in> fst ` set g \<union> {c} \<Longrightarrow> nodes t x \<noteq> None \<and> x \<noteq> a \<and> x \<noteq> n"
  shows "\<exists>t1 t2 t' l' r'. mbptree_move_half_node t a n = Some (t1, snd (g ! Suc (b div 2))) \<and>
    add_child t1 n k c = Some t2 \<and> set_parent t2 c n = Some t' \<and> heap_only t t' \<and>
    nodes t' a = Some l' \<and> inner_node b (take (Suc (b div 2)) g) l' \<and> n_parent l' = n_parent l \<and>
    nodes t' n = Some r' \<and> inner_node b (drop (Suc (b div 2)) g @ [(c, k)]) r' \<and> n_parent r' = n_parent l \<and>
    (\<forall>x. x \<noteq> a \<and> x \<noteq> n \<longrightarrow> nodes t' x = adopt n (insert c (fst ` set (drop (Suc (b div 2)) g))) t x)"
proof -
  let ?d = "drop (Suc (b div 2)) g"
  have sub: "fst ` set ?d \<subseteq> fst ` set g" by (intro image_mono set_drop_subset)
  have "\<And>x. x \<in> fst ` set ?d \<Longrightarrow> nodes t x \<noteq> None \<and> x \<noteq> a \<and> x \<noteq> n" using ch sub by blast
  from move_half_ok [OF a g b n refl ne this] obtain l' r1 t1 where
    1: "mbptree_move_half_node t a n = Some (t1, snd (g ! Suc (b div 2)))" "heap_only t t1"
    "nodes t1 a = Some l'" "inner_node b (take (Suc (b div 2)) g) l'" "n_parent l' = n_parent l"
    "nodes t1 n = Some r1" "inner_node b ?d r1" "n_parent r1 = n_parent l"
    "\<And>x. x \<noteq> a \<Longrightarrow> x \<noteq> n \<Longrightarrow> nodes t1 x = adopt n (fst ` set ?d) t x" by blast
  have "length ?d < b" using b by simp
  from add_child_ok [OF 1(6,7) this] obtain r' where
    2: "add_child t1 n k c = Some (set_node t1 n r')" "inner_node b (?d @ [(c, k)]) r'" "n_parent r' = n_parent r1"
    by blast
  have c: "c \<noteq> a" "c \<noteq> n" "nodes t c \<noteq> None" using ch [of c] by auto
  then have "nodes t1 c \<noteq> None" using 1(9) [of c] by (simp add: adopt_def)
  then obtain nc where nc: "nodes t1 c = Some nc" by blast
  let ?t = "set_node (set_node t1 n r') c (nc\<lparr>n_parent := n\<rparr>)"
  have "set_parent (set_node t1 n r') c n = Some ?t" using nc c by (simp add: heap_simps)
  moreover have "nodes ?t x = adopt n (insert c (fst ` set ?d)) t x" if "x \<noteq> a" "x \<noteq> n" for x
  proof (cases "x = c")
    case True
    obtain y where "nodes t c = Some y" using c(3) by blast
    then show ?thesis using True 1(9) [OF c(1,2)] nc by (cases "c \<in> fst ` set ?d") (auto simp: adopt_def)
  next
    case False
    then show ?thesis using 1(9) [OF that] that by (simp add: adopt_def)
  qed
  ultimately show ?thesis
    using 1 2 c ne by (intro exI [of _ t1] exI [of _ "set_node t1 n r'"] exI [of _ ?t] exI [of _ l'] exI [of _ r']) simp
qed

text \<open>The state around such a split: the group of \<open>a\<close> becomes two groups.\<close>

lemma adopt_facts:
  "body t' x = body t x" "x \<notin> X \<Longrightarrow> nodes t' x = nodes t x" "x \<in> X \<Longrightarrow> nodes t x \<noteq> None \<Longrightarrow> node_parent t' x = Some n"
  if "nodes t' x = adopt n X t x"
  using that by (auto simp: adopt_def body_def node_parent_def option.map_comp o_def)

text \<open>Below, \<open>m\<close> is the place of the split and \<open>X\<close> the children that move to \<open>n\<close>.\<close>

lemma split_old_group:
  assumes ok: "group_ok t (x, gx)" "(x, gx) \<in> set Gi" and b: "branch_factor t' = branch_factor t"
    and dist: "distinct (map fst (concat (map snd Gi) @ g) @ c # map fst Gi @ [a, n])"
    and R: "\<And>y. y \<noteq> a \<Longrightarrow> y \<noteq> n \<Longrightarrow> nodes t' y = adopt n (insert c (fst ` set (drop m g))) t y"
  shows "group_ok t' (x, gx)"
proof -
  define X where "X = insert c (fst ` set (drop m g))"
  have xa: "x \<noteq> a" "x \<noteq> n" using dist imageI [OF ok(2), of fst] by auto
  define A where "A = map fst (concat (map snd Gi))"
  have "distinct (A @ map fst g @ c # map fst Gi @ [a, n])" using dist by (simp only: A_def map_append append_assoc)
  then have A: "set A \<inter> fst ` set g = {}" "c \<notin> set A" "a \<notin> set A" "n \<notin> set A" by auto
  have "fst ` set gx \<subseteq> set A" using ok(2) by (force simp: A_def)
  moreover have "fst ` set (drop m g) \<subseteq> fst ` set g" by (intro image_mono set_drop_subset)
  ultimately have "y \<notin> X \<and> y \<noteq> a \<and> y \<noteq> n" if "y \<in> fst ` set gx" for y using that A by (auto simp: X_def)
  then have "node_parent t' (fst y) = node_parent t (fst y)" if "y \<in> set gx" for y
    using that adopt_facts(2) [OF R, folded X_def] by (metis imageI node_parent_body(1))
  then show ?thesis using ok(1) b adopt_facts(1) [OF R [OF xa]] group_ok_frame [of t x gx t'] by simp
qed

lemma split_left_group:
  assumes ok: "group_ok t (a, g)" and b: "branch_factor t' = branch_factor t" and m: "2 \<le> m" "m \<le> length g"
    and dist: "distinct (map fst g @ [c, a, n])"
    and n: "nodes t' a = Some l'" "inner_node (branch_factor t) (take m g) l'"
    and R: "\<And>y. y \<noteq> a \<Longrightarrow> y \<noteq> n \<Longrightarrow> nodes t' y = adopt n (insert c (fst ` set (drop m g))) t y"
  shows "group_ok t' (a, take m g)"
proof -
  have "node_parent t' (fst y) = Some a" if y: "y \<in> set (take m g)" for y
  proof -
    have "distinct (map fst g)" using dist by simp
    then have "fst y \<notin> fst ` set (drop m g)"
      using y by (metis disjoint_iff distinct_append append_take_drop_id imageI image_set map_append)
    moreover have "y \<in> set g" using y by (rule in_set_takeD)
    then have "fst y \<in> fst ` set g" "node_parent t (fst y) = Some a" using group_parent [OF ok] by simp_all
    moreover from this(1) have "fst y \<noteq> c" "fst y \<noteq> a" "fst y \<noteq> n" using dist by auto
    ultimately show ?thesis using R [of "fst y"] by (simp add: adopt_def node_parent_def)
  qed
  then show ?thesis using n b m by (simp add: group_ok_def)
qed

lemma split_right_group:
  assumes ok: "group_ok t (a, g)" and b: "branch_factor t' = branch_factor t" and m: "m < length g"
    and dist: "distinct (map fst g @ [c, a, n])" and c: "node_parent t c \<noteq> None"
    and n: "nodes t' n = Some r'" "inner_node (branch_factor t) (drop m g @ [(c, k)]) r'"
    and R: "\<And>y. y \<noteq> a \<Longrightarrow> y \<noteq> n \<Longrightarrow> nodes t' y = adopt n (insert c (fst ` set (drop m g))) t y"
  shows "group_ok t' (n, drop m g @ [(c, k)])"
proof -
  have "node_parent t' y = Some n" if y: "y \<in> insert c (fst ` set (drop m g))" for y
  proof -
    have "y \<noteq> a" "y \<noteq> n" using y dist set_drop_subset [of m g] by auto
    moreover have "node_parent t y \<noteq> None" using y group_parent [OF ok] c set_drop_subset [of m g] by auto
    ultimately show ?thesis using adopt_facts(3) [OF R, of y] y by (auto simp: node_parent_def)
  qed
  then show ?thesis using n b m by (auto simp: group_ok_def)
qed

abbreviation split_at :: "mbptree \<Rightarrow> nat" where
  "split_at t \<equiv> Suc (branch_factor t div 2)"

text \<open>The groups of a level in which the last node is split in two, the right one taking \<open>c\<close>.\<close>

definition split_last :: "mbptree \<Rightarrow> groups \<Rightarrow> address \<Rightarrow> level \<Rightarrow> address \<Rightarrow> address \<times> u64 \<Rightarrow> groups" where
  "split_last t Gi a g n ck = Gi @ [(a, take (split_at t) g), (n, drop (split_at t) g @ [ck])]"

lemma split_last_simps:
  assumes "3 \<le> branch_factor t" "length g = branch_factor t"
  shows "concat (map snd (split_last t Gi a g n ck)) = (concat (map snd Gi) @ g) @ [ck]"
    and "heads (split_last t Gi a g n ck) = heads (Gi @ [(a, g)]) @ [(n, snd (g ! split_at t))]"
    and "map fst (split_last t Gi a g n ck) = map fst Gi @ [a, n]"
proof -
  have m: "split_at t < length g" using assms by simp
  show "concat (map snd (split_last t Gi a g n ck)) = (concat (map snd Gi) @ g) @ [ck]"
    by (simp add: split_last_def)
  have "hd (drop (split_at t) g) = g ! split_at t" "drop (split_at t) g \<noteq> []"
    using m by (simp_all add: hd_drop_conv_nth)
  moreover have "hd (take (split_at t) g) = hd g" by (simp add: hd_take)
  ultimately show "heads (split_last t Gi a g n ck) = heads (Gi @ [(a, g)]) @ [(n, snd (g ! split_at t))]"
    by (simp add: split_last_def hd_append)
  show "map fst (split_last t Gi a g n ck) = map fst Gi @ [a, n]" by (simp add: split_last_def)
qed

text \<open>The same split as it happens in the heap, in a state \<open>t0\<close> that differs from \<open>t\<close> in fresh nodes,
  among them \<open>n\<close>, and perhaps in the parent of \<open>a\<close>.\<close>

lemma group_ok_fresh:
  assumes ok: "group_ok t (x, gx)" and t0: "branch_factor t0 = branch_factor t" "body t0 a = body t a"
      "\<And>x. x \<noteq> a \<Longrightarrow> nodes t x \<noteq> None \<Longrightarrow> nodes t0 x = nodes t x"
    and a: "a \<notin> fst ` set gx"
  shows "group_ok t0 (x, gx)"
proof (rule group_ok_frame [OF ok t0(1)])
  have "nodes t x \<noteq> None" using ok by (auto elim!: group_okE)
  then show "body t0 x = body t x" using t0(2,3) by (cases "x = a") (auto simp: body_def)
next
  fix y assume y: "y \<in> set gx"
  then have "nodes t (fst y) \<noteq> None" using group_parent [OF ok y] by (auto simp: node_parent_def)
  moreover have "fst y \<noteq> a" using y a by auto
  ultimately show "node_parent t0 (fst y) = node_parent t (fst y)" using t0(3) by (simp add: node_parent_def)
qed

lemma split_in_heap:
  assumes lv: "\<And>ag. ag \<in> set (Gi @ [(a, g)]) \<Longrightarrow> group_ok t ag"
    and dist: "distinct (map fst (concat (map snd Gi) @ g) @ c # map fst Gi @ [a, n])"
    and b: "3 \<le> branch_factor t" "length g = branch_factor t"
    and c: "node_parent t c \<noteq> None"
    and t0: "branch_factor t0 = branch_factor t" "nodes t0 a = Some l" "body t0 a = body t a"
      "nodes t0 n = Some (fresh_inner (branch_factor t) (n_parent l))"
      "\<And>x. x \<noteq> a \<Longrightarrow> nodes t x \<noteq> None \<Longrightarrow> nodes t0 x = nodes t x"
  shows "\<exists>t1 t2 t' r'. mbptree_move_half_node t0 a n = Some (t1, snd (g ! split_at t)) \<and>
    add_child t1 n k c = Some t2 \<and> set_parent t2 c n = Some t' \<and> heap_only t0 t' \<and>
    (\<forall>ag \<in> set (split_last t Gi a g n (c, k)). group_ok t' ag) \<and>
    nodes t' n = Some r' \<and> n_parent r' = n_parent l \<and> node_parent t' a = Some (n_parent l) \<and>
    (\<forall>x. x \<noteq> a \<and> x \<noteq> n \<longrightarrow> body t' x = body t0 x) \<and>
    (\<forall>x. x \<notin> fst ` set g \<union> {c, a, n} \<longrightarrow> nodes t' x = nodes t0 x)"
proof -
  have ok0: "group_ok t0 (x, gx)" if x: "(x, gx) \<in> set (Gi @ [(a, g)])" for x gx
  proof (rule group_ok_fresh [OF _ t0(1,3,5)])
    have "fst ` set gx \<subseteq> set (map fst (concat (map snd Gi) @ g))" using x by force
    moreover have "a \<notin> set (map fst (concat (map snd Gi) @ g))" using dist unfolding distinct_append by auto
    ultimately show "a \<notin> fst ` set gx" by blast
  qed (use lv x in auto)
  then have ga: "group_ok t0 (a, g)" by simp
  then have l: "inner_node (branch_factor t) g l" using t0(1,2) by (auto elim!: group_okE)
  have dg: "distinct (map fst g @ [c, a, n])" using dist by auto
  have ch: "nodes t0 x \<noteq> None \<and> x \<noteq> a \<and> x \<noteq> n" if x: "x \<in> fst ` set g \<union> {c}" for x
  proof -
    have xa: "x \<noteq> a" "x \<noteq> n" using x dg by auto
    have "nodes t c \<noteq> None" using c by (auto simp: node_parent_def)
    then have "nodes t0 x \<noteq> None" if "x = c" using that t0(5) xa(1) by simp
    moreover have "node_parent t0 x = Some a" if "x \<in> fst ` set g" using that group_parent [OF ga] by auto
    ultimately show ?thesis using x xa by (auto simp: node_parent_def)
  qed
  have ne: "a \<noteq> n" using dg by simp
  from split_half [where k = k and c = c, OF t0(2) l t0(1) b(1,2) t0(4) ne ch] obtain t1 t2 t' l' r' where
    S: "mbptree_move_half_node t0 a n = Some (t1, snd (g ! split_at t))"
    "add_child t1 n k c = Some t2" "set_parent t2 c n = Some t'" "heap_only t0 t'"
    "nodes t' a = Some l'" "inner_node (branch_factor t) (take (split_at t) g) l'" "n_parent l' = n_parent l"
    "nodes t' n = Some r'" "inner_node (branch_factor t) (drop (split_at t) g @ [(c, k)]) r'" "n_parent r' = n_parent l"
    and R: "\<And>x. x \<noteq> a \<Longrightarrow> x \<noteq> n \<Longrightarrow> nodes t' x = adopt n (insert c (fst ` set (drop (split_at t) g))) t0 x"
    by blast
  have c0: "node_parent t0 c \<noteq> None" using ch [of c] by (auto simp: node_parent_def)
  have bf: "branch_factor t' = branch_factor t0" using S(4) by (rule heap_onlyD)
  have m: "2 \<le> split_at t" "split_at t < length g" "split_at t \<le> length g" using b by auto
  have in0: "inner_node (branch_factor t0) (take (split_at t) g) l'" "inner_node (branch_factor t0) (drop (split_at t) g @ [(c, k)]) r'"
    using S(6,9) t0(1) by simp_all
  note halves = split_left_group [OF ga bf m(1,3) dg S(5) in0(1) R] split_right_group [OF ga bf m(2) dg c0 S(8) in0(2) R]
  have "group_ok t' (x, gx)" if "(x, gx) \<in> set Gi" for x gx
    using split_old_group [OF ok0 that bf dist R] that by simp
  then have "\<forall>ag \<in> set (split_last t Gi a g n (c, k)). group_ok t' ag" using halves t0(1) by (auto simp: split_last_def)
  moreover have "body t' x = body t0 x" if "x \<noteq> a" "x \<noteq> n" for x using adopt_facts(1) [OF R [OF that]] .
  moreover have "nodes t' x = nodes t0 x" if "x \<notin> fst ` set g \<union> {c, a, n}" for x
    using R [of x] that set_drop_subset [of "split_at t" g] by (auto simp: adopt_def)
  moreover have "node_parent t' a = Some (n_parent l)" using S(5,7) by (simp add: node_parent_def)
  ultimately show ?thesis using S by blast
qed

lemma first_child_ok:
  assumes "nodes t r = Some (fresh_inner b p)" "0 < b"
  shows "\<exists>n'. set_value t r 0 x = Some (set_node t r n') \<and> inner_node b [(x, low)] n' \<and> n_parent n' = p"
proof -
  let ?n = "(fresh_inner b p)\<lparr>n_data := (n_data (fresh_inner b p))[0 := (n_data (fresh_inner b p) ! 0)\<lparr>md_value := x\<rparr>]\<rparr>"
  have "set_value t r 0 x = Some (set_node t r ?n)"
    using assms by (simp add: heap_simps fresh_inner_def)
  moreover have "inner_node b [(x, low)] ?n"
    using assms by (cases b) (simp_all add: inner_node_def fresh_inner_def)
  ultimately show ?thesis by (intro exI [of _ ?n]) (simp add: fresh_inner_def)
qed

text \<open>Two children under a new root, in the statements shared by \<open>mbptree_split_root\<close> and \<open>mbptree_tryappend\<close>.\<close>

lemma two_children_ok:
  assumes "nodes t r = Some (fresh_inner b p)" "2 \<le> b"
  shows "\<exists>t1 n'. node_size t r = Some 0 \<and> set_value t r 0 x = Some t1 \<and> add_child t1 r k y = Some (set_node t r n') \<and>
    inner_node b [(x, low), (y, k)] n' \<and> n_parent n' = p"
proof -
  obtain n1 where 1: "set_value t r 0 x = Some (set_node t r n1)" "inner_node b [(x, low)] n1" "n_parent n1 = p"
    using first_child_ok [of t r b p x low] assms by auto
  from add_child_ok [of "set_node t r n1" r n1 b "[(x, low)]" k y] 1 assms obtain n' where
    "add_child (set_node t r n1) r k y = Some (set_node t r n')" "inner_node b [(x, low), (y, k)] n'" "n_parent n' = p"
    by auto
  with 1(1) assms(1) show ?thesis
    by (intro exI [of _ "set_node t r n1"] exI [of _ n']) (simp add: heap_simps fresh_inner_def)
qed

lemma heap_ok_fresh: "heap_ok t \<Longrightarrow> next_addr t \<le> x \<Longrightarrow> nodes t x = None" "heap_ok t \<Longrightarrow> nodes t x \<noteq> None \<Longrightarrow> x \<noteq> 0 \<and> x < next_addr t"
  by (auto simp: heap_ok_def)

lemma heap_ok_grow:
  assumes heap: "heap_ok t" and up: "next_addr t \<le> next_addr t'"
    and new: "\<And>x. x \<in> A \<Longrightarrow> 0 < x \<and> x < next_addr t'" and old: "\<And>x. x \<notin> A \<Longrightarrow> body t' x = body t x"
  shows "heap_ok t'"
proof -
  have "0 < x \<and> x < next_addr t'" if "nodes t' x \<noteq> None" for x
  proof (cases "x \<in> A")
    case False
    then have "nodes t x \<noteq> None" using body_eq_None [OF old [OF False]] that by simp
    then show ?thesis using heap up by (auto simp: heap_ok_def)
  qed (rule new)
  moreover have "0 < next_addr t'" using heap up by (simp add: heap_ok_def)
  ultimately show ?thesis by (simp add: heap_ok_def)
qed

lemma levels_addrs:
  assumes "levels_ok t L Gs" and "x \<in> set (addrs Gs)"
  shows "nodes t x \<noteq> None"
  using assms
proof (induction Gs arbitrary: L)
  case (Cons G Gs)
  then show ?case
  proof (cases "x \<in> set (addrs Gs)")
    case False
    then obtain g where "(x, g) \<in> set G" using Cons.prems(2) by auto
    then show ?thesis using Cons.prems(1) by (auto elim!: group_okE)
  qed auto
qed simp

lemma levels_base:
  assumes "levels_ok t L Gs" "x \<in> fst ` set L"
  shows "nodes t x \<noteq> None"
proof (cases Gs)
  case Nil
  then have "x = root t" "node_parent t (root t) = Some 0"
    using assms by (auto simp: map_eq_Cons_conv)
  then show ?thesis by (auto simp: node_parent_def)
next
  case (Cons G Gs')
  then obtain a g y where "(a, g) \<in> set G" "y \<in> set g" "x = fst y" using assms by auto
  moreover from this have "group_ok t (a, g)" using assms(1) Cons by auto
  ultimately have "node_parent t x = Some a" by (auto elim!: group_okE)
  then show ?thesis by (auto simp: node_parent_def)
qed

text \<open>The tree in which \<open>mbptree_split_root\<close> moves the half of the root \<open>a\<close>: there are a new root and a new
  node, at the next two addresses, and the new root is the parent of \<open>a\<close>.\<close>

definition root_split_start :: "mbptree \<Rightarrow> address \<Rightarrow> mbptree_node \<Rightarrow> mbptree" where
  "root_split_start t a l = (let r = next_addr t; b = branch_factor t in
     set_node (set_node (set_node (t\<lparr>next_addr := Suc (Suc r)\<rparr>) r (fresh_inner b 0)) (Suc r) (fresh_inner b r)) a (l\<lparr>n_parent := r\<rparr>))"

lemma root_split_start_facts:
  assumes "nodes t a = Some l" "heap_ok t"
  defines "t0 \<equiv> root_split_start t a l" and "r \<equiv> next_addr t"
  shows "branch_factor t0 = branch_factor t" "nodes t0 a = Some (l\<lparr>n_parent := r\<rparr>)" "body t0 a = body t a"
    "nodes t0 (Suc r) = Some (fresh_inner (branch_factor t) (n_parent (l\<lparr>n_parent := r\<rparr>)))"
    "\<And>x. x \<noteq> a \<Longrightarrow> nodes t x \<noteq> None \<Longrightarrow> nodes t0 x = nodes t x" "nodes t0 r = Some (fresh_inner (branch_factor t) 0)"
    "\<And>x. x \<notin> {a, Suc r, r} \<Longrightarrow> nodes t0 x = nodes t x"
proof -
  have "x \<noteq> r" "x \<noteq> Suc r" if "nodes t x \<noteq> None" for x using heap_ok_fresh(2) [OF assms(2) that] by (auto simp: r_def)
  moreover from this [of a] have "a \<noteq> r" "a \<noteq> Suc r" using assms(1) by auto
  ultimately show "branch_factor t0 = branch_factor t" "nodes t0 a = Some (l\<lparr>n_parent := r\<rparr>)" "body t0 a = body t a"
    "nodes t0 (Suc r) = Some (fresh_inner (branch_factor t) (n_parent (l\<lparr>n_parent := r\<rparr>)))"
    "\<And>x. x \<noteq> a \<Longrightarrow> nodes t x \<noteq> None \<Longrightarrow> nodes t0 x = nodes t x" "nodes t0 r = Some (fresh_inner (branch_factor t) 0)"
    "\<And>x. x \<notin> {a, Suc r, r} \<Longrightarrow> nodes t0 x = nodes t x"
    using assms(1) by (auto simp: t0_def root_split_start_def Let_def r_def [symmetric] body_def)
qed

lemma split_root_run:
  assumes "root t = a" "nodes t a = Some l" "heap_ok t" "allocs t = []"
  defines "r \<equiv> next_addr t"
  shows "mbptree_split_root t a k c = do {
     (t, mid_key) \<leftarrow> mbptree_move_half_node (root_split_start t a l) a (Suc r);
     t \<leftarrow> add_child t (Suc r) k c;
     t \<leftarrow> set_parent t c (Suc r);
     sz \<leftarrow> node_size t r;
     t \<leftarrow> set_value t r sz a;
     t \<leftarrow> add_child t r mid_key (Suc r);
     Some (t\<lparr>root := r\<rparr>, r) }"
proof -
  define t1 t2 where "t1 = set_node (t\<lparr>next_addr := Suc r\<rparr>) r (fresh_inner (branch_factor t) 0)"
    and "t2 = set_node (set_node (t\<lparr>next_addr := Suc (Suc r)\<rparr>) r (fresh_inner (branch_factor t) 0)) (Suc r) (fresh_inner (branch_factor t) r)"
  have cr: "mbptree_create_node t (branch_factor t) 0 = (t1, r)" "mbptree_create_node t1 (branch_factor t) r = (t2, Suc r)"
    using assms(4) by (simp_all add: create_node_ok r_def t1_def t2_def set_node_def)
  have r0: "r \<noteq> 0" using assms(3) by (simp add: r_def heap_ok_def)
  have "a \<noteq> r" "a \<noteq> Suc r" using heap_ok_fresh(2) [OF assms(3), of a] assms(2) by (auto simp: r_def)
  then have "nodes t2 a = Some l" using assms(2) by (simp add: t2_def)
  from set_parent_eq [OF this, of r] have "set_parent t2 a r = Some (root_split_start t a l)"
    by (simp add: root_split_start_def t2_def r_def Let_def)
  moreover have "branch_factor t1 = branch_factor t" by (simp add: t1_def)
  ultimately show ?thesis using assms(1) r0 cr by (simp add: mbptree_split_root_def c_assert_def)
qed

lemma split_root_state:
  assumes ok: "group_ok t (a, g)" and dist: "distinct (map fst g @ [c, a])" and rt: "root t = a" "node_parent t a = Some 0"
    and heap: "heap_ok t" and al: "allocs t = []" and b: "3 \<le> branch_factor t" and c: "node_parent t c = Some a"
    and full: "length g = branch_factor t"
  defines "r \<equiv> next_addr t"
  obtains t' where "mbptree_split_root t a k c = Some (t', r)" "root t' = r" "branch_factor t' = branch_factor t" "tree_lock t' = tree_lock t"
    "last_leaf t' = last_leaf t" "allocs t' = []" "next_addr t' = Suc (Suc r)" "node_parent t' r = Some 0"
    "\<And>ag. ag \<in> set (split_last t [] a g (Suc r) (c, k)) \<Longrightarrow> group_ok t' ag"
    "group_ok t' (r, [(a, snd (hd g)), (Suc r, snd (g ! split_at t))])"
    "\<And>x. x \<notin> {a, Suc r, r} \<Longrightarrow> body t' x = body t x"
    "\<And>x. x \<notin> fst ` set g \<union> {c} \<union> {a, Suc r, r} \<Longrightarrow> nodes t' x = nodes t x"
proof -
  define n where "n = Suc r"
  obtain l where l: "nodes t a = Some l" "n_parent l = 0" using rt(2) by (auto simp: node_parent_def)
  define t0 where "t0 = root_split_start t a l"
  note T = root_split_start_facts [OF l(1) heap, folded t0_def r_def n_def]
  have "nodes t x \<noteq> None" if "x \<in> fst ` set g \<union> {c, a}" for x
    using that group_parent [OF ok] c l by (auto simp: node_parent_def)
  moreover have "nodes t r = None" "nodes t n = None" using heap_ok_fresh(1) [OF heap] by (simp_all add: r_def n_def)
  ultimately have nn: "r \<notin> fst ` set g \<union> {c, a}" "n \<notin> fst ` set g \<union> {c, a}" by blast+
  have "distinct (map fst (concat (map snd []) @ g) @ c # map fst [] @ [a, n])" using dist nn(2) by auto
  from split_in_heap [where k = k, OF _ this b full _ T(1-5)] ok c obtain t1 t2 t' r' where
    S: "mbptree_move_half_node t0 a n = Some (t1, snd (g ! split_at t))" "add_child t1 n k c = Some t2"
      "set_parent t2 c n = Some t'" "heap_only t0 t'" "\<forall>ag \<in> set (split_last t [] a g n (c, k)). group_ok t' ag"
      "nodes t' n = Some r'" "n_parent r' = r" "node_parent t' a = Some r"
      "\<forall>x. x \<noteq> a \<and> x \<noteq> n \<longrightarrow> body t' x = body t0 x" "\<forall>x. x \<notin> fst ` set g \<union> {c, a, n} \<longrightarrow> nodes t' x = nodes t0 x" by auto
  have r': "nodes t' r = Some (fresh_inner (branch_factor t) 0)" using S(10) nn(1) T(6) by (simp add: n_def)
  from b have "2 \<le> branch_factor t" by simp
  from two_children_ok [OF r' this, of a "snd (g ! split_at t)" n "snd (hd g)"] obtain t3 nr where
    N: "node_size t' r = Some 0" "set_value t' r 0 a = Some t3" "add_child t3 r (snd (g ! split_at t)) n = Some (set_node t' r nr)"
      "inner_node (branch_factor t) [(a, snd (hd g)), (n, snd (g ! split_at t))] nr" "n_parent nr = 0" by blast
  define tf where "tf = (set_node t' r nr)\<lparr>root := r\<rparr>"
  have tf: "branch_factor tf = branch_factor t" "branch_factor t' = branch_factor t" using T(1) heap_onlyD(1) [OF S(4)] by (simp_all add: tf_def)
  have np: "node_parent tf x = node_parent t' x" "body tf x = body t' x" "nodes tf x = nodes t' x" if "x \<noteq> r" for x
    using that by (simp_all add: tf_def node_parent_def body_def)
  show ?thesis
  proof (rule that [of tf, folded n_def])
    show "mbptree_split_root t a k c = Some (tf, r)"
      using split_root_run [OF rt(1) l(1) heap al, of k c, folded r_def t0_def n_def] S(1-3) N(1-3) by (simp add: tf_def)
    show "group_ok tf ag" if ag: "ag \<in> set (split_last t [] a g n (c, k))" for ag
    proof (cases ag)
      case (Pair x gx)
      have "x \<noteq> r" "\<And>y. y \<in> set gx \<Longrightarrow> fst y \<noteq> r"
        using ag Pair nn(1) by (force simp: split_last_def n_def dest!: in_set_takeD in_set_dropD)+
      then show ?thesis using S(5) ag Pair np tf group_ok_frame [of t' x gx tf] by simp
    qed
    show "group_ok tf (r, [(a, snd (hd g)), (n, snd (g ! split_at t))])"
      using N(4) S(6-8) nn tf(1) by (auto simp: group_ok_def tf_def node_parent_def n_def)
    show "body tf x = body t x" if "x \<notin> {a, n, r}" for x using that S(9) T(7) [OF that] np(2) [of x] by (simp add: body_def)
    show "nodes tf x = nodes t x" if "x \<notin> fst ` set g \<union> {c} \<union> {a, n, r}" for x using that S(10) T(7) [of x] np(3) [of x] by simp
  qed (use tf N(5) al heap_onlyD [OF S(4)] in \<open>simp_all add: tf_def node_parent_def t0_def root_split_start_def Let_def r_def n_def\<close>)
qed

lemma split_root_ok:
  assumes lv: "levels_ok t L [[(a, g)]]" and dist: "distinct (map fst L @ [c, a])"
    and heap: "heap_ok t" and al: "allocs t = []" and b: "3 \<le> branch_factor t" and c: "node_parent t c = Some a"
    and full: "length g = branch_factor t"
  shows "\<exists>t' Gs'. mbptree_split_root t a k c = Some (t', root t') \<and> root t' \<noteq> 0 \<and>
    levels_ok t' (L @ [(c, k)]) Gs' \<and> grown t t' (fst ` set L \<union> {c}) [[(a, g)]] Gs'"
proof -
  define r where "r = next_addr t"
  have L: "L = g" and ok: "group_ok t (a, g)" and rt: "root t = a" "node_parent t a = Some 0" using lv by auto
  obtain t' where T: "mbptree_split_root t a k c = Some (t', r)" "root t' = r" "branch_factor t' = branch_factor t" "tree_lock t' = tree_lock t"
    "last_leaf t' = last_leaf t" "allocs t' = []" "next_addr t' = Suc (Suc r)" "node_parent t' r = Some 0"
    "\<And>ag. ag \<in> set (split_last t [] a g (Suc r) (c, k)) \<Longrightarrow> group_ok t' ag"
    "group_ok t' (r, [(a, snd (hd g)), (Suc r, snd (g ! split_at t))])"
    "\<And>x. x \<notin> {a, Suc r, r} \<Longrightarrow> body t' x = body t x"
    "\<And>x. x \<notin> fst ` set g \<union> {c} \<union> {a, Suc r, r} \<Longrightarrow> nodes t' x = nodes t x"
    using split_root_state [OF ok dist [unfolded L] rt heap al b c full, of k, folded r_def] by blast
  have r0: "0 < r" using heap by (simp add: r_def heap_ok_def)
  have a: "0 < a" "a < r" using heap_ok_fresh(2) [OF heap, of a] rt(2) by (auto simp: r_def node_parent_def)
  let ?Gs = "[split_last t [] a g (Suc r) (c, k), [(r, [(a, snd (hd g)), (Suc r, snd (g ! split_at t))])]]"
  have "levels_ok t' (L @ [(c, k)]) ?Gs"
    using T(2,8-10) split_last_simps [OF b full, of "[]" a "Suc r" "(c, k)"] by (simp add: L)
  moreover have "heap_ok t'" by (rule heap_ok_grow [OF heap, where A = "{a, Suc r, r}"]) (use T(7,11) a r0 r_def in auto)
  then have "grown t t' (fst ` set L \<union> {c}) [[(a, g)]] ?Gs"
    using T a by (auto simp: grown_def split_last_def L r_def [symmetric])
  ultimately show ?thesis using T(1,2) r0 by blast
qed

text \<open>A full node that is not the root: the climb goes on one level higher.\<close>

lemma full_node_size: "group_ok t (a, g) \<Longrightarrow> length g = branch_factor t \<Longrightarrow> nodes t a = Some l \<Longrightarrow> n_size l < branch_factor t \<and> branch_factor t - 1 \<le> n_size l"
  by (auto elim!: group_okE simp: inner_node_def)

lemma append_node_full_run:
  assumes heap: "heap_ok t" and al: "allocs t = []" and c: "node_parent t c = Some a"
    and a: "group_ok t (a, g)" "length g = branch_factor t" "nodes t a = Some l" and p: "n_parent l \<noteq> 0"
  defines "n \<equiv> next_addr t"
  shows "mbptree_append_node t k c = do {
    (t', mid_key) \<leftarrow> mbptree_move_half_node (set_node (t\<lparr>next_addr := Suc n\<rparr>) n (fresh_inner (branch_factor t) (n_parent l))) a n;
    t' \<leftarrow> add_child t' n k c;
    t' \<leftarrow> set_parent t' c n;
    mbptree_append_node t' mid_key n }"
proof -
  obtain nc where nc: "nodes t c = Some nc" "n_parent nc = a" using c by (auto simp: node_parent_def)
  have "n \<noteq> 0" using heap by (simp add: n_def heap_ok_def)
  moreover have "mbptree_create_node t (branch_factor t) (n_parent l) =
      (set_node (t\<lparr>next_addr := Suc n\<rparr>) n (fresh_inner (branch_factor t) (n_parent l)), n)"
    using al by (simp add: create_node_ok n_def)
  moreover have "a \<noteq> 0" using heap_ok_fresh(2) [OF heap, of a] a(3) by simp
  ultimately show ?thesis using nc a(3) p full_node_size [OF a]
    by (subst mbptree_append_node.simps) (simp add: heap_simps)
qed

text \<open>The levels above a split do not see it.\<close>

lemma climb_levels:
  assumes lv: "levels_ok t (heads (Gi @ [(a, g)])) Gs" and dist: "distinct (map fst L @ c # addrs ((Gi @ [(a, g)]) # Gs))"
    and fresh: "n \<notin> set (addrs ((Gi @ [(a, g)]) # Gs))" and g: "fst ` set g \<subseteq> fst ` set L"
    and t': "branch_factor t' = branch_factor t" "root t' = root t" "node_parent t' a = node_parent t a"
      "\<And>x. x \<notin> {a, n} \<Longrightarrow> body t' x = body t x" "\<And>x. x \<notin> fst ` set g \<union> {c} \<union> {a, n} \<Longrightarrow> nodes t' x = nodes t x"
  shows "levels_ok t' (heads (Gi @ [(a, g)])) Gs"
proof (rule levels_ok_frame [OF lv t'(1,2)])
  show "body t' x = body t x" if "x \<in> set (addrs Gs)" for x using that dist fresh by (intro t'(4)) auto
  have hd: "fst ` set (heads (Gi @ [(a, g)])) = fst ` set (Gi @ [(a, g)])" by (metis heads_simps(4) image_set)
  show "node_parent t' x = node_parent t x" if "x \<in> fst ` set (heads (Gi @ [(a, g)])) \<union> set (addrs Gs)" for x
  proof (cases "x = a")
    case False
    have x: "x \<in> set (addrs ((Gi @ [(a, g)]) # Gs))" using that hd by auto
    have "set (map fst L) \<inter> set (addrs ((Gi @ [(a, g)]) # Gs)) = {}" "c \<notin> set (addrs ((Gi @ [(a, g)]) # Gs))"
      using dist unfolding distinct_append distinct.simps set_simps by blast+
    with x have "x \<notin> fst ` set L" "x \<noteq> c" by auto
    then have "x \<notin> fst ` set g \<union> {c} \<union> {a, n}" using fresh False g x by blast
    then show ?thesis using t'(5) by (simp add: node_parent_def)
  qed (use t'(3) in simp)
qed

lemma append_node_climb:
  assumes lv: "levels_ok t L ((Gi @ [(a, g)]) # Gs)" and dist: "distinct (map fst L @ c # addrs ((Gi @ [(a, g)]) # Gs))"
    and heap: "heap_ok t" and al: "allocs t = []" and b: "3 \<le> branch_factor t" and c: "node_parent t c = Some a"
    and full: "length g = branch_factor t" and p: "node_parent t a = Some p" "p \<noteq> 0"
  defines "n \<equiv> next_addr t"
  shows "\<exists>t'. mbptree_append_node t k c = mbptree_append_node t' (snd (g ! split_at t)) n \<and>
    heap_ok t' \<and> branch_factor t' = branch_factor t \<and> tree_lock t' = tree_lock t \<and> root t' = root t \<and>
    last_leaf t' = last_leaf t \<and> allocs t' = [] \<and> next_addr t' = Suc n \<and>
    (\<forall>ag \<in> set (split_last t Gi a g n (c, k)). group_ok t' ag) \<and>
    levels_ok t' (heads (Gi @ [(a, g)])) Gs \<and> node_parent t' n = Some p \<and>
    (\<forall>x. x \<notin> {a, n} \<longrightarrow> body t' x = body t x) \<and>
    (\<forall>x. x \<notin> fst ` set L \<union> {c} \<union> {a, n} \<longrightarrow> nodes t' x = nodes t x)"
proof -
  have L: "L = concat (map snd Gi) @ g" using lv by simp
  obtain l where l: "nodes t a = Some l" "n_parent l = p" using p(1) by (auto simp: node_parent_def)
  have cn: "nodes t c \<noteq> None" using c by (auto simp: node_parent_def)
  have n0: "nodes t n = None" "0 < n" using heap_ok_fresh(1) [OF heap] heap by (simp_all add: n_def heap_ok_def)
  have fresh: "n \<notin> fst ` set L \<union> {c} \<union> set (addrs ((Gi @ [(a, g)]) # Gs))"
    using n0(1) levels_base [OF lv] levels_addrs [OF lv] cn by blast
  define t0 where "t0 = set_node (t\<lparr>next_addr := Suc n\<rparr>) n (fresh_inner (branch_factor t) (n_parent l))"
  have an: "a \<noteq> n" using fresh by auto
  have t0x: "nodes t0 x = nodes t x" if "x \<noteq> n" for x using that by (simp add: t0_def)
  have t0: "branch_factor t0 = branch_factor t" "nodes t0 a = Some l" "body t0 a = body t a"
    "nodes t0 n = Some (fresh_inner (branch_factor t) (n_parent l))" "\<And>x. x \<noteq> a \<Longrightarrow> nodes t x \<noteq> None \<Longrightarrow> nodes t0 x = nodes t x"
    using l an n0(1) t0x by (auto simp: t0_def body_def)
  have "distinct (map fst L @ c # map fst Gi @ [a, n])" using dist fresh by auto
  note dist' = this [unfolded L]
  have gok: "group_ok t ag" if "ag \<in> set (Gi @ [(a, g)])" for ag using lv that by auto
  from split_in_heap [where k = k, OF gok dist' b full _ t0] c obtain t1 t2 t' r' where
    S: "mbptree_move_half_node t0 a n = Some (t1, snd (g ! split_at t))" "add_child t1 n k c = Some t2"
      "set_parent t2 c n = Some t'" "heap_only t0 t'" "\<forall>ag \<in> set (split_last t Gi a g n (c, k)). group_ok t' ag"
      "nodes t' n = Some r'" "n_parent r' = p" "node_parent t' a = Some p"
      "\<forall>x. x \<noteq> a \<and> x \<noteq> n \<longrightarrow> body t' x = body t0 x" "\<forall>x. x \<notin> fst ` set g \<union> {c, a, n} \<longrightarrow> nodes t' x = nodes t0 x" using l(2) by auto
  note H = heap_onlyD [OF S(4)]
  have bd: "body t' x = body t x" if "x \<notin> {a, n}" for x using S(9) t0x [of x] that by (simp add: body_def)
  have nd: "nodes t' x = nodes t x" if "x \<notin> fst ` set g \<union> {c} \<union> {a, n}" for x using S(10) t0x [of x] that by simp
  have "mbptree_append_node t k c = mbptree_append_node t' (snd (g ! split_at t)) n"
    using append_node_full_run [OF heap al c gok full l(1), of k, folded n_def t0_def] l(2) p(2) S(1-3) by (simp add: t0_def)
  moreover have "heap_ok t'"
    by (rule heap_ok_grow [OF heap, where A = "{a, n}"]) (use bd H(5) n0(2) heap_ok_fresh(2) [OF heap, of a] l(1) in \<open>auto simp: t0_def n_def\<close>)
  moreover have "levels_ok t' (heads (Gi @ [(a, g)])) Gs"
    by (rule climb_levels [OF _ dist _ _ _ _ _ bd nd]) (use lv fresh S(8) p H in \<open>auto simp: L t0_def\<close>)
  moreover have "node_parent t' n = Some p" using S(6,7) by (simp add: node_parent_def)
  moreover have "nodes t' x = nodes t x" if "x \<notin> fst ` set L \<union> {c} \<union> {a, n}" for x using that by (intro nd) (auto simp: L)
  ultimately show ?thesis using S(5) bd H al by (intro exI [of _ t']) (simp add: t0_def)
qed

lemma levels_root: "levels_ok t L Gs \<Longrightarrow> node_parent t (root t) = Some 0"
  by (induction Gs arbitrary: L) auto

lemma levels_last_parent:
  assumes "levels_ok t L (H # Hs)"
  shows "node_parent t (fst (last L)) = Some (fst (last H))"
proof -
  have "heads H \<noteq> []" using assms levels_ok_nonempty [of t "heads H" Hs] by simp
  then obtain Hi p gp where H: "H = Hi @ [(p, gp)]" by (cases H rule: rev_cases) auto
  then have ok: "group_ok t (p, gp)" using assms by simp
  then have gp: "gp \<noteq> []" and par: "\<And>x. x \<in> set gp \<Longrightarrow> node_parent t (fst x) = Some p" by (auto elim!: group_okE)
  have "last L = last gp" using assms H gp by auto
  then show ?thesis using par [of "last gp"] gp H by simp
qed

text \<open>Composing the split of one level (\<open>t\<close> to \<open>t1\<close>) with the climb above it (\<open>t1\<close> to \<open>t2\<close>).\<close>

lemma climb_sets:
  assumes dist: "distinct (map fst L @ c # addrs ((Gi @ [(a, g)]) # Hs))"
    and fresh: "\<And>x. x \<in> fst ` set L \<union> {c} \<union> set (addrs ((Gi @ [(a, g)]) # Hs)) \<Longrightarrow> x < n"
    and up: "set (addrs Gs') = set (addrs Hs) \<union> {Suc n..<m}"
  shows "x \<in> insert n (fst ` set (Gi @ [(a, g)])) \<Longrightarrow> x \<notin> set (addrs Gs')"
    and "x \<in> fst ` set L \<union> {c} \<Longrightarrow> x \<notin> insert n (fst ` set (Gi @ [(a, g)])) \<union> set (addrs Gs')"
    and "distinct (map fst Gi @ [a, n])"
proof -
  define A where "A = fst ` set (Gi @ [(a, g)])"
  have D: "fst ` set L \<inter> (A \<union> set (addrs Hs)) = {}" "c \<notin> A \<union> set (addrs Hs)" "A \<inter> set (addrs Hs) = {}" "distinct (map fst Gi @ [a])"
    using dist unfolding distinct_append distinct.simps set_simps A_def by auto
  have F: "x < n" if "x \<in> fst ` set L \<union> {c} \<union> A \<union> set (addrs Hs)" for x using fresh [of x] that by (auto simp: A_def)
  then have n: "n \<notin> fst ` set L \<union> {c} \<union> A \<union> set (addrs Hs)" by blast
  show "x \<notin> set (addrs Gs')" if "x \<in> insert n (fst ` set (Gi @ [(a, g)]))"
    using that D(3) n F [of x] unfolding A_def [symmetric] up by auto
  show "x \<notin> insert n (fst ` set (Gi @ [(a, g)])) \<union> set (addrs Gs')" if "x \<in> fst ` set L \<union> {c}"
  proof -
    have "x < n" "x \<notin> A \<union> set (addrs Hs)" using that D(1,2) F [of x] by blast+
    then show ?thesis unfolding A_def [symmetric] up by auto
  qed
  show "distinct (map fst Gi @ [a, n])" using D(4) n by (auto simp: A_def)
qed

lemma climb_groups:
  assumes ok: "group_ok t1 (x, gx)" "(x, gx) \<in> set (split_last t Gi a g n (c, k))"
    and b: "3 \<le> branch_factor t" "length g = branch_factor t" "branch_factor t2 = branch_factor t1"
    and body: "\<And>x. x \<in> insert n (fst ` set (Gi @ [(a, g)])) \<Longrightarrow> body t2 x = body t1 x"
    and child: "\<And>x. x \<in> fst ` set (concat (map snd Gi) @ g) \<union> {c} \<Longrightarrow> nodes t2 x = nodes t1 x"
  shows "group_ok t2 (x, gx)"
proof (rule group_ok_frame [OF ok(1) b(3)])
  note sp = split_last_simps [OF b(1,2), of Gi a n "(c, k)"]
  have "fst ` set (split_last t Gi a g n (c, k)) = insert n (fst ` set (Gi @ [(a, g)]))" using arg_cong [OF sp(3), of set] by auto
  then show "body t2 x = body t1 x" using imageI [OF ok(2), of fst] by (intro body) simp
next
  fix y assume y: "y \<in> set gx"
  then have "y \<in> set (concat (map snd (split_last t Gi a g n (c, k))))" using ok(2) by force
  then have "y \<in> set (concat (map snd Gi) @ g) \<union> {(c, k)}" unfolding split_last_simps(1) [OF b(1,2)] by simp
  then have "fst y \<in> fst ` set (concat (map snd Gi) @ g) \<union> {c}" by force
  then show "node_parent t2 (fst y) = node_parent t1 (fst y)" by (simp add: child node_parent_def del: set_append)
qed

lemma climb_combine:
  assumes dist: "distinct (map fst L @ c # addrs ((Gi @ [(a, g)]) # Hs))" and L: "L = concat (map snd Gi) @ g"
    and b: "3 \<le> branch_factor t" "length g = branch_factor t" and n: "n = next_addr t"
    and fresh: "\<And>x. x \<in> fst ` set L \<union> {c} \<union> set (addrs ((Gi @ [(a, g)]) # Hs)) \<Longrightarrow> x < n"
    and 1: "branch_factor t1 = branch_factor t" "tree_lock t1 = tree_lock t" "last_leaf t1 = last_leaf t"
      "next_addr t1 = Suc n" "\<And>ag. ag \<in> set (split_last t Gi a g n (c, k)) \<Longrightarrow> group_ok t1 ag"
      "\<And>x. x \<notin> {a, n} \<Longrightarrow> body t1 x = body t x"
      "\<And>x. x \<notin> fst ` set L \<union> {c} \<union> {a, n} \<Longrightarrow> nodes t1 x = nodes t x"
    and 2: "levels_ok t2 (heads (Gi @ [(a, g)]) @ [(n, snd (g ! split_at t))]) Gs'"
      "grown t1 t2 (fst ` set (heads (Gi @ [(a, g)])) \<union> {n}) Hs Gs'"
  shows "levels_ok t2 (L @ [(c, k)]) (split_last t Gi a g n (c, k) # Gs')"
    and "grown t t2 (fst ` set L \<union> {c}) ((Gi @ [(a, g)]) # Hs) (split_last t Gi a g n (c, k) # Gs')"
proof -
  note sp = split_last_simps [OF b, of Gi a n "(c, k)"]
  let ?G = "split_last t Gi a g n (c, k)"
  define A where "A = fst ` set (Gi @ [(a, g)])"
  have A: "fst ` set (heads (Gi @ [(a, g)])) = A" by (metis A_def heads_simps(4) image_set)
  have sG: "fst ` set ?G = insert n A" using arg_cong [OF sp(3), of set] by (auto simp: A_def)
  from 2(2) have g2: "branch_factor t2 = branch_factor t1" "tree_lock t2 = tree_lock t1" "last_leaf t2 = last_leaf t1"
    "allocs t2 = []" "Suc n \<le> next_addr t2" "heap_ok t2" "distinct (addrs Gs')"
    "set (addrs Gs') = set (addrs Hs) \<union> {Suc n..<next_addr t2}"
    "\<And>x. x \<notin> set (addrs Gs') \<Longrightarrow> body t2 x = body t1 x"
    "\<And>x. x \<notin> insert n A \<union> set (addrs Gs') \<Longrightarrow> nodes t2 x = nodes t1 x"
    unfolding grown_def 1(4) A by simp_all
  note D = climb_sets [OF dist fresh g2(8), folded A_def]
  have "group_ok t2 (x, gx)" if "(x, gx) \<in> set ?G" for x gx
    by (rule climb_groups [OF 1(5) [OF that] that b g2(1)]) (use D(1,2) g2(9,10) in \<open>simp_all add: A_def L\<close>)
  then show "levels_ok t2 (L @ [(c, k)]) (?G # Gs')" using 2(1) by (auto simp: sp L)
  have "set (map fst ?G) \<inter> set (addrs Gs') = {}" using D(1) sG by auto
  then have d: "distinct (addrs (?G # Gs'))" using D(3) g2(7) unfolding addrs_simps distinct_append sp(3) by blast
  have sA: "set (addrs (?G # Gs')) = insert n A \<union> set (addrs Gs')" using sG by simp
  have sB: "insert n A \<union> set (addrs Gs') = set (addrs ((Gi @ [(a, g)]) # Hs)) \<union> {next_addr t..<next_addr t2}"
    using g2(5,8) by (auto simp: A_def n)
  have bd: "\<forall>x. x \<notin> insert n A \<union> set (addrs Gs') \<longrightarrow> body t2 x = body t x" using g2(9) 1(6) by (simp add: A_def)
  have nd: "\<forall>x. x \<notin> (fst ` set L \<union> {c}) \<union> (insert n A \<union> set (addrs Gs')) \<longrightarrow> nodes t2 x = nodes t x"
    using g2(10) 1(7) by (simp add: A_def)
  show "grown t t2 (fst ` set L \<union> {c}) ((Gi @ [(a, g)]) # Hs) (?G # Gs')"
    unfolding grown_def sA by (intro conjI d sB bd nd) (use g2(1-6) 1(1-3) n in simp_all)
qed

text \<open>The climb ends at the root.\<close>

lemma append_node_at_root:
  assumes lv: "levels_ok t L [G]" and dist: "distinct (map fst L @ c # addrs [G])" and heap: "heap_ok t" and b: "3 \<le> branch_factor t"
    and al: "allocs t = []" and c: "node_parent t c = Some (fst (last G))"
  shows "\<exists>t' Gs'. mbptree_append_node t k c = Some (t', root t') \<and> root t' \<noteq> 0 \<and>
    levels_ok t' (L @ [(c, k)]) Gs' \<and> grown t t' (fst ` set L \<union> {c}) [G] Gs'"
proof -
  have "map fst G = [root t]" using lv by simp
  then obtain g where G: "G = [(root t, g)]" by (cases G) auto
  have gok: "group_ok t (root t, g)" and p: "node_parent t (root t) = Some 0" using lv G by auto
  have c': "node_parent t c = Some (root t)" using c G by simp
  have r0: "root t \<noteq> 0" using heap_ok_fresh(2) [OF heap] p by (auto simp: node_parent_def)
  show ?thesis
  proof (cases "length g < branch_factor t")
    case True
    then show ?thesis using append_node_room [of t L "[]" "root t" g "[]" c k] lv dist heap al c' G r0 by fastforce
  next
    case False
    then have full: "length g = branch_factor t" using gok by (auto elim!: group_okE simp: inner_node_def)
    obtain l where l: "nodes t (root t) = Some l" "n_parent l = 0" using p by (auto simp: node_parent_def)
    obtain nc where nc: "nodes t c = Some nc" "n_parent nc = root t" using c' by (auto simp: node_parent_def)
    have "mbptree_append_node t k c = mbptree_split_root t (root t) k c"
      using nc l r0 full_node_size [OF gok full l(1)] by (subst mbptree_append_node.simps) (simp add: heap_simps)
    moreover have "distinct (map fst L @ [c, root t])" using dist G by simp
    moreover have "levels_ok t L [[(root t, g)]]" using lv by (simp only: G)
    ultimately show ?thesis using split_root_ok [of t L "root t" g c k] heap b al c' full unfolding G by presburger
  qed
qed

lemma levels_above:
  assumes lv: "levels_ok t L (G # H # Hs)" and heap: "heap_ok t"
  shows "node_parent t (fst (last G)) = Some (fst (last H))" "fst (last H) \<noteq> 0" "root t \<noteq> 0"
proof -
  have lH: "levels_ok t (heads G) (H # Hs)" and ne: "heads G \<noteq> []" using lv levels_ok_nonempty [of t "heads G" "H # Hs"] by simp_all
  then have "fst (last (heads G)) = fst (last G)" by (cases G rule: rev_cases) auto
  with levels_last_parent [OF lH] show "node_parent t (fst (last G)) = Some (fst (last H))" by simp
  have "heads H \<noteq> []" using levels_ok_nonempty [of t "heads H" Hs] lH by simp
  then have "fst (last H) \<in> set (addrs (G # H # Hs))" by (cases H rule: rev_cases) simp_all
  then show "fst (last H) \<noteq> 0" using heap_ok_fresh(2) [OF heap] levels_addrs [OF lv] by blast
  show "root t \<noteq> 0" using levels_root [OF lv] heap_ok_fresh(2) [OF heap] by (auto simp: node_parent_def)
qed

theorem append_node_ok:
  assumes "levels_ok t L (G # Gs)" "distinct (map fst L @ c # addrs (G # Gs))" "heap_ok t" "3 \<le> branch_factor t"
    "allocs t = []" "node_parent t c = Some (fst (last G))"
  shows "\<exists>t' Gs'. mbptree_append_node t k c = Some (t', root t') \<and> root t' \<noteq> 0 \<and>
    levels_ok t' (L @ [(c, k)]) Gs' \<and> grown t t' (fst ` set L \<union> {c}) (G # Gs) Gs'"
  using assms
proof (induction Gs arbitrary: t L G c k)
  case Nil
  then show ?case by (rule append_node_at_root)
next
  case (Cons H Hs)
  have "heads G \<noteq> []" using Cons.prems(1) levels_ok_nonempty [of t "heads G" "H # Hs"] by simp
  then obtain Gi a g where G: "G = Gi @ [(a, g)]" by (cases G rule: rev_cases) auto
  have c: "node_parent t c = Some a" using Cons.prems(6) G by simp
  note up = levels_above [OF Cons.prems(1,3)]
  show ?case
  proof (cases "length g < branch_factor t")
    case True
    then show ?thesis
      using append_node_room [OF Cons.prems(1,2) [unfolded G] Cons.prems(3,5) c, of k] up(3) unfolding G by metis
  next
    case False
    have "group_ok t (a, g)" using Cons.prems(1) G by simp
    then have full: "length g = branch_factor t" using False by (auto elim!: group_okE simp: inner_node_def)
    define n where "n = next_addr t"
    have cn: "nodes t c \<noteq> None" using c by (auto simp: node_parent_def)
    have fresh: "x < n" if "x \<in> fst ` set L \<union> {c} \<union> set (addrs ((Gi @ [(a, g)]) # H # Hs))" for x
      using that heap_ok_fresh(2) [OF Cons.prems(3), folded n_def] levels_base [OF Cons.prems(1)] levels_addrs [OF Cons.prems(1)] cn unfolding G by blast
    have p: "node_parent t a = Some (fst (last H))" using up(1) by (simp add: G)
    obtain t1 where 1: "mbptree_append_node t k c = mbptree_append_node t1 (snd (g ! split_at t)) n"
      "heap_ok t1" "branch_factor t1 = branch_factor t" "tree_lock t1 = tree_lock t" "root t1 = root t"
      "last_leaf t1 = last_leaf t" "allocs t1 = []" "next_addr t1 = Suc n"
      "\<And>ag. ag \<in> set (split_last t Gi a g n (c, k)) \<Longrightarrow> group_ok t1 ag"
      "levels_ok t1 (heads G) (H # Hs)" "node_parent t1 n = Some (fst (last H))"
      "\<And>x. x \<notin> {a, n} \<Longrightarrow> body t1 x = body t x" "\<And>x. x \<notin> fst ` set L \<union> {c} \<union> {a, n} \<Longrightarrow> nodes t1 x = nodes t x"
      using append_node_climb [of t L Gi a g "H # Hs" c "fst (last H)" k] Cons.prems c full p up(2) unfolding G n_def by blast
    have d1: "distinct (map fst (heads G) @ n # addrs (H # Hs))" using Cons.prems(2) fresh [of n] by (auto simp: G)
    from Cons.IH [OF 1(10) d1 1(2) _ 1(7,11), of "snd (g ! split_at t)"] Cons.prems(4) 1(3) obtain t2 Gs' where
      2: "mbptree_append_node t1 (snd (g ! split_at t)) n = Some (t2, root t2)" "root t2 \<noteq> 0"
      "levels_ok t2 (heads G @ [(n, snd (g ! split_at t))]) Gs'" "grown t1 t2 (fst ` set (heads G) \<union> {n}) (H # Hs) Gs'" by auto
    have L: "L = concat (map snd Gi) @ g" using Cons.prems(1) G by simp
    note C = climb_combine [where k = k, OF Cons.prems(2) [unfolded G] L Cons.prems(4) full n_def fresh 1(3,4,6,8,9,12,13) 2(3,4) [unfolded G]]
    have "mbptree_append_node t k c = Some (t2, root t2)" using 1(1) 2(1) by simp
    with C 2(2) show ?thesis unfolding G by blast
  qed
qed

end
