(* ===== verification/Index_Interface.thy ===== *)
theory Index_Interface
  imports Prelude Errno
begin

text \<open>
  The contract of the index of a log: an ordered map from keys to values that only grows at
  its upper end. A state represents the list of its entries in the order of their keys; an
  entry is added only above the greatest key, the last value can be asked for, and a lookup
  delivers the entry with the greatest key that is not above the given one. What a client
  that adds many entries and looks them up can rely on is proved here once.
\<close>

type_synonym entry = "u64 \<times> nat"

text \<open>A key may be added when it is greater than the last one.\<close>

definition key_above :: "entry list \<Rightarrow> u64 \<Rightarrow> bool" where
  "key_above es k \<longleftrightarrow> es = [] \<or> fst (last es) < k"

definition floor_entry :: "u64 \<Rightarrow> entry list \<Rightarrow> entry option" where
  "floor_entry k es = (let fs = filter (\<lambda>e. fst e \<le> k) es in if fs = [] then None else Some (last fs))"

fun add_all :: "('t \<Rightarrow> u64 \<Rightarrow> nat \<Rightarrow> ('t \<times> int) option) \<Rightarrow> 't \<Rightarrow> entry list \<Rightarrow> ('t \<times> int list) option" where
  "add_all add t [] = Some (t, [])"
| "add_all add t ((k, v) # es) = do {
     (t, rc) \<leftarrow> add t k v;
     (t, rcs) \<leftarrow> add_all add t es;
     Some (t, rc # rcs) }"

lemma sorted_key_snoc:
  fixes xs :: "u64 list"
  assumes "sorted_wrt (<) xs" "xs = [] \<or> last xs < k"
  shows "sorted_wrt (<) (xs @ [k])"
proof (cases xs rule: rev_cases)
  case (snoc ys y)
  then show ?thesis using assms by (auto simp: sorted_wrt_append dest: less_trans)
qed simp

lemma sorted_entries_snoc:
  "sorted_wrt (<) (map fst es) \<Longrightarrow> key_above es k \<Longrightarrow> sorted_wrt (<) (map fst (es @ [(k, v)]))"
  using sorted_key_snoc [of "map fst es" k] by (cases "es = []") (simp_all add: key_above_def last_map)

lemma key_above_sorted: "sorted_wrt (<) (map fst (es @ (k, v) # fs)) \<Longrightarrow> key_above es k"
  by (cases es rule: rev_cases) (auto simp: key_above_def sorted_wrt_append)

text \<open>In a sorted list the floor of a key between two neighbours is the first of them.\<close>

lemma floor_entry_between:
  assumes s: "sorted_wrt (<) (map fst (es @ (k, v) # fs))" and lo: "k \<le> x"
    and hi: "fs = [] \<or> x < fst (hd fs)"
  shows "floor_entry x (es @ (k, v) # fs) = Some (k, v)"
proof -
  have "x < fst f" if f: "f \<in> set fs" for f
  proof -
    obtain g gs where g: "fs = g # gs" using f by (cases fs) auto
    then have "fst g \<le> fst f" using s f by (auto simp: sorted_wrt_append)
    then show ?thesis using hi g by simp
  qed
  then have "filter (\<lambda>e. fst e \<le> x) fs = []" by (auto simp: filter_empty_conv not_le)
  then show ?thesis using lo by (simp add: floor_entry_def)
qed

lemma floor_entry_none: "sorted_wrt (<) (map fst es) \<Longrightarrow> floor_entry x es = None \<longleftrightarrow> es = [] \<or> x < fst (hd es)"
proof (cases es)
  case (Cons e fs)
  assume "sorted_wrt (<) (map fst es)"
  then have "\<forall>f \<in> set fs. fst e < fst f" using Cons by auto
  then have "x < fst e \<Longrightarrow> \<forall>f \<in> set fs. \<not> fst f \<le> x" by (metis dual_order.strict_trans linorder_not_le)
  then show ?thesis using Cons by (auto simp: floor_entry_def filter_empty_conv Let_def)
qed (simp add: floor_entry_def)

locale ordered_index =
  fixes add :: "'t \<Rightarrow> u64 \<Rightarrow> nat \<Rightarrow> ('t \<times> int) option"
    and last_val :: "'t \<Rightarrow> (int \<times> nat option) option"
    and lookup :: "'t \<Rightarrow> u64 \<Rightarrow> ('t \<times> int \<times> entry option) option"
    and rep :: "'t \<Rightarrow> entry list \<Rightarrow> bool"
  assumes rep_sorted: "rep t es \<Longrightarrow> sorted_wrt (<) (map fst es)"
    and add_above: "rep t es \<Longrightarrow> key_above es k \<Longrightarrow> \<exists>t'. add t k v = Some (t', 0) \<and> rep t' (es @ [(k, v)])"
    and add_low: "rep t es \<Longrightarrow> \<not> key_above es k \<Longrightarrow> add t k v = Some (t, ELIDXNM)"
    and last_val: "rep t es \<Longrightarrow> last_val t = Some (if es = [] then (- 1, None) else (0, Some (snd (last es))))"
    and lookup_floor: "rep t es \<Longrightarrow> lookup t k = Some (t, 0, floor_entry k es)"
begin

lemma add_all_rep:
  "rep t es \<Longrightarrow> sorted_wrt (<) (map fst (es @ fs)) \<Longrightarrow>
   \<exists>t'. add_all add t fs = Some (t', replicate (length fs) 0) \<and> rep t' (es @ fs)"
proof (induction fs arbitrary: t es)
  case (Cons f fs)
  obtain k v where f: "f = (k, v)" by (cases f)
  from add_above [OF Cons.prems(1) key_above_sorted [OF Cons.prems(2) [unfolded f]], of v] obtain t1 where
    t1: "add t k v = Some (t1, 0)" "rep t1 (es @ [(k, v)])" by blast
  from Cons.IH [OF t1(2)] Cons.prems(2) f obtain t' where
    "add_all add t1 fs = Some (t', replicate (length fs) 0)" "rep t' ((es @ [(k, v)]) @ fs)" by auto
  then show ?case using t1(1) f by simp
qed simp

text \<open>Every entry is found by every key from its own up to the next one.\<close>

lemma lookup_between:
  "rep t (es @ (k, v) # fs) \<Longrightarrow> k \<le> x \<Longrightarrow> fs = [] \<or> x < fst (hd fs) \<Longrightarrow> lookup t x = Some (t, 0, Some (k, v))"
  using lookup_floor floor_entry_between rep_sorted by metis

lemma lookup_below: "rep t es \<Longrightarrow> es = [] \<or> x < fst (hd es) \<Longrightarrow> lookup t x = Some (t, 0, None)"
  using lookup_floor floor_entry_none rep_sorted by metis

lemma rep_unique_floor: "rep t es \<Longrightarrow> rep t fs \<Longrightarrow> floor_entry x es = floor_entry x fs"
  using lookup_floor [of t es x] lookup_floor [of t fs x] by simp

end

end
