(* ===== verification/Mbptree_Append.thy ===== *)
theory Mbptree_Append
  imports Mbptree_Levels Index_Interface
begin

text \<open>
  The leaves of the tree and the invariant of the whole tree. The leaves form a chain through
  the value behind their last entry; all but the last are full. The entries of the leaves from
  left to right are the contents of the tree, and appending a greater key extends them.
\<close>

section \<open>Leaves\<close>

type_synonym leaves = "(address \<times> entry list) list"

definition leaf_node :: "nat \<Rightarrow> entry list \<Rightarrow> address \<Rightarrow> mbptree_node \<Rightarrow> bool" where
  "leaf_node b es nxt n \<longleftrightarrow> n_leaf n = 1 \<and> n_size n = length es \<and> length es < b \<and> length (n_data n) = b \<and>
     take (length es) (keys n) = map fst es \<and> take (length es) (vals n) = map snd es \<and>
     vals n ! length es = nxt \<and> (\<forall>i. length es < i \<and> i < b \<longrightarrow> vals n ! i = 0)"

definition leaf_at :: "mbptree \<Rightarrow> address \<Rightarrow> entry list \<Rightarrow> address \<Rightarrow> bool" where
  "leaf_at t a es nxt = (case nodes t a of Some n \<Rightarrow> leaf_node (branch_factor t) es nxt n | None \<Rightarrow> False)"

fun chain :: "mbptree \<Rightarrow> leaves \<Rightarrow> address \<Rightarrow> bool" where
  "chain t [] e = True"
| "chain t ((a, es) # ls) e \<longleftrightarrow> leaf_at t a es (case ls of [] \<Rightarrow> e | (x, _) # _ \<Rightarrow> x) \<and> chain t ls e"

definition leaf_level :: "leaves \<Rightarrow> level" where
  "leaf_level ls = map (\<lambda>(a, es). (a, fst (hd es))) ls"

definition entries :: "leaves \<Rightarrow> entry list" where
  "entries ls = concat (map snd ls)"

definition tree_inv :: "mbptree \<Rightarrow> leaves \<Rightarrow> groups list \<Rightarrow> bool" where
  "tree_inv t ls Gs \<longleftrightarrow> heap_ok t \<and> 3 \<le> branch_factor t \<and> ls \<noteq> [] \<and> last_leaf t = fst (last ls) \<and>
     chain t ls 0 \<and> levels_ok t (leaf_level ls) Gs \<and> distinct (map fst ls @ addrs Gs) \<and>
     (\<forall>x. nodes t x \<noteq> None \<longleftrightarrow> x \<in> set (map fst ls @ addrs Gs)) \<and>
     (\<forall>l \<in> set (butlast ls). length (snd l) = branch_factor t - 1) \<and>
     (\<forall>l \<in> set ls. snd l = [] \<longrightarrow> length ls = 1) \<and>
     sorted_wrt (<) (map fst (entries ls))"

text \<open>The tree \<open>t\<close> holds the entries \<open>es\<close>.\<close>

definition tree_rep :: "mbptree \<Rightarrow> entry list \<Rightarrow> bool" where
  "tree_rep t es \<longleftrightarrow> (\<exists>ls Gs. tree_inv t ls Gs \<and> es = entries ls)"

lemma leaf_level_simps [simp]: "leaf_level [] = []" "leaf_level ((a, es) # ls) = (a, fst (hd es)) # leaf_level ls"
  "leaf_level (ls @ ls') = leaf_level ls @ leaf_level ls'" "map fst (leaf_level ls) = map fst ls"
  by (simp_all add: leaf_level_def case_prod_beta)

lemma entries_simps [simp]: "entries [] = []" "entries ((a, es) # ls) = es @ entries ls"
  "entries (ls @ ls') = entries ls @ entries ls'"
  by (simp_all add: entries_def)

lemma leaf_node_parent [simp]: "leaf_node b es nxt (n\<lparr>n_parent := p\<rparr>) = leaf_node b es nxt n"
  by (simp add: leaf_node_def)

lemma leaf_atE:
  assumes "leaf_at t a es nxt"
  obtains n where "nodes t a = Some n" "leaf_node (branch_factor t) es nxt n"
  using assms by (auto simp: leaf_at_def split: option.splits)

lemma leaf_at_frame:
  assumes "leaf_at t a es nxt" "body t' a = body t a" "branch_factor t' = branch_factor t"
  shows "leaf_at t' a es nxt"
  using assms(1)
proof (rule leaf_atE)
  fix n assume n: "nodes t a = Some n" "leaf_node (branch_factor t) es nxt n"
  from body_eq_SomeD [OF assms(2) n(1)] obtain n' where
    n': "nodes t' a = Some n'" "n'\<lparr>n_parent := 0\<rparr> = n\<lparr>n_parent := 0\<rparr>" by blast
  then have "leaf_node (branch_factor t') es nxt n'" using n(2) assms(3) by (metis leaf_node_parent)
  then show ?thesis using n'(1) by (simp add: leaf_at_def)
qed

lemma chain_snoc: "chain t (ls @ [(a, es)]) e \<longleftrightarrow> chain t ls a \<and> leaf_at t a es e"
  by (induction t ls e rule: chain.induct) (auto split: list.splits)

lemma chain_frame:
  assumes "chain t ls e" "branch_factor t' = branch_factor t"
    and "\<And>a. a \<in> fst ` set ls \<Longrightarrow> body t' a = body t a"
  shows "chain t' ls e"
  using assms by (induction t ls e rule: chain.induct) (auto intro: leaf_at_frame)

lemma leaf_push:
  assumes n: "nodes t a = Some n" "leaf_node b el 0 n" and room: "Suc (length el) < b"
  shows "\<exists>t1 t2 n'. set_size t a (Suc (n_size n)) = Some t1 \<and> set_key t1 a (n_size n) k = Some t2 \<and>
    set_value t2 a (n_size n) v = Some (set_node t a n') \<and>
    leaf_node b (el @ [(k, v)]) 0 n' \<and> n_parent n' = n_parent n"
proof -
  have sz: "n_size n = length el" "length (n_data n) = b" using n(2) by (simp_all add: leaf_node_def)
  define n' where "n' = n\<lparr>n_size := Suc (length el), 
     n_data := (n_data n)[length el := (n_data n ! length el)\<lparr>md_key := k, md_value := v\<rparr>]\<rparr>"
  have "keys n' = (keys n)[length el := k]" "vals n' = (vals n)[length el := v]"
    using room sz by (simp_all add: n'_def map_update)
  then have "leaf_node b (el @ [(k, v)]) 0 n'"
    using n(2) room sz by (auto simp: leaf_node_def n'_def take_update_snoc nth_list_update)
  then show ?thesis using n sz room
    by (simp add: heap_simps) (rule exI [of _ n'], simp add: n'_def)
qed

text \<open>A fresh leaf with its first entry.\<close>

definition fresh_leaf :: "nat \<Rightarrow> address \<Rightarrow> mbptree_node" where
  "fresh_leaf b p = (fresh_inner b p)\<lparr>n_leaf := 1\<rparr>"

lemma fresh_leaf_node: "0 < b \<Longrightarrow> leaf_node b [] 0 (fresh_leaf b p)"
  by (simp add: leaf_node_def fresh_leaf_def fresh_inner_def data0_def)

lemma create_leaf_ok:
  "allocs t = [] \<Longrightarrow> 0 < next_addr t \<Longrightarrow> mbptree_create_leaf t bf p =
     Some (set_node (t\<lparr>next_addr := Suc (next_addr t)\<rparr>) (next_addr t) (fresh_leaf bf p), next_addr t)"
  by (simp add: mbptree_create_leaf_def create_node_ok fresh_leaf_def)

text \<open>Linking a full leaf to its successor.\<close>

lemma leaf_link:
  assumes "nodes t a = Some n" "leaf_node b el 0 n"
  shows "\<exists>n'. set_value t a (n_size n) x = Some (set_node t a n') \<and> leaf_node b el x n' \<and> n_parent n' = n_parent n"
proof -
  have sz: "n_size n = length el" "length (n_data n) = b" "length el < b" using assms(2) by (simp_all add: leaf_node_def)
  define n' where "n' = n\<lparr>n_data := (n_data n)[length el := (n_data n ! length el)\<lparr>md_value := x\<rparr>]\<rparr>"
  have "keys n' = keys n" "vals n' = (vals n)[length el := x]" using sz by (simp_all add: n'_def)
  then have "leaf_node b el x n'" using assms(2) sz by (simp add: leaf_node_def n'_def)
  then show ?thesis using assms(1) sz by (intro exI [of _ n']) (simp add: heap_simps n'_def)
qed

text \<open>The steps of \<open>mbptree_tryappend\<close> that make the new leaf, in a state whose last leaf is full.\<close>

lemma new_leaf_steps:
  assumes a: "nodes t a = Some l" "leaf_node b el 0 l" and b: "branch_factor t = b" "2 \<le> b"
    and al: "allocs t = []" and heap: "heap_ok t"
  defines "n \<equiv> next_addr t"
  shows "\<exists>t1 t2 t3 l' nl. mbptree_new_leaf t a = Some (t1, n) \<and> set_size t1 n 1 = Some t2 \<and>
    set_key t2 n 0 k = Some t3 \<and>
    set_value t3 n 0 v = Some (set_node (set_node (t\<lparr>next_addr := Suc n\<rparr>) a l') n nl) \<and>
    leaf_node b el n l' \<and> n_parent l' = n_parent l \<and> leaf_node b [(k, v)] 0 nl \<and> n_parent nl = n_parent l"
proof -
  have n0: "0 < n" and an: "a \<noteq> n" using heap a(1) by (auto simp: n_def heap_ok_def)
  define t0 where "t0 = t\<lparr>next_addr := Suc n\<rparr>"
  obtain l' where l': "set_value (set_node t0 n (fresh_leaf b (n_parent l))) a (n_size l) n =
      Some (set_node (set_node t0 n (fresh_leaf b (n_parent l))) a l')" "leaf_node b el n l'" "n_parent l' = n_parent l"
    using leaf_link [of "set_node t0 n (fresh_leaf b (n_parent l))" a l b el n] a an by (auto simp: t0_def)
  define t1 where "t1 = set_node (set_node t0 n (fresh_leaf b (n_parent l))) a l'"
  have "mbptree_create_leaf t b (n_parent l) = Some (set_node t0 n (fresh_leaf b (n_parent l)), n)"
    using create_leaf_ok [OF al, of b "n_parent l"] n0 by (simp add: n_def t0_def)
  then have nl: "mbptree_new_leaf t a = Some (t1, n)"
    using a b n0 l'(1) by (simp add: mbptree_new_leaf_def heap_simps t1_def leaf_node_def)
  have nn: "nodes t1 n = Some (fresh_leaf b (n_parent l))" using an by (simp add: t1_def)
  obtain t2 t3 ln where 3: "set_size t1 n 1 = Some t2" "set_key t2 n 0 k = Some t3" "set_value t3 n 0 v = Some (set_node t1 n ln)"
    "leaf_node b [(k, v)] 0 ln" "n_parent ln = n_parent l"
    using leaf_push [OF nn fresh_leaf_node, of k v] b(2) by (auto simp: fresh_leaf_def fresh_inner_def)
  have "set_node t1 n ln = set_node (set_node t0 a l') n ln"
    using an by (simp add: t1_def set_node_commute [of n a])
  with nl 3 l' show ?thesis by (auto simp: t0_def)
qed

section \<open>Appending\<close>

lemma tree_invE:
  assumes "tree_inv t ls Gs"
  obtains li a el where "ls = li @ [(a, el)]" "last_leaf t = a" "leaf_at t a el 0" "chain t li a"
    "heap_ok t" "3 \<le> branch_factor t" "levels_ok t (leaf_level ls) Gs" "distinct (map fst ls @ addrs Gs)"
    "\<And>x. nodes t x \<noteq> None \<longleftrightarrow> x \<in> set (map fst ls @ addrs Gs)"
    "\<And>l. l \<in> set li \<Longrightarrow> length (snd l) = branch_factor t - 1"
    "\<And>l. l \<in> set ls \<Longrightarrow> snd l = [] \<Longrightarrow> length ls = 1"
    "sorted_wrt (<) (map fst (entries ls))"
proof -
  obtain li a el where ls: "ls = li @ [(a, el)]" using assms by (cases ls rule: rev_cases) (auto simp: tree_inv_def)
  show ?thesis
    by (rule that [of li a el]) (use assms ls in \<open>auto simp: tree_inv_def chain_snoc\<close>)
qed

lemma tree_inv_snocD:
  assumes "tree_inv t (li @ [(a, el)]) Gs"
  shows "last_leaf t = a" "leaf_at t a el 0" "chain t li a" "heap_ok t" "3 \<le> branch_factor t"
    "levels_ok t (leaf_level (li @ [(a, el)])) Gs" "distinct (map fst (li @ [(a, el)]) @ addrs Gs)"
    "nodes t x \<noteq> None \<longleftrightarrow> x \<in> set (map fst (li @ [(a, el)]) @ addrs Gs)"
    "l \<in> set li \<Longrightarrow> length (snd l) = branch_factor t - 1" "el = [] \<Longrightarrow> li = []"
    "sorted_wrt (<) (map fst (entries (li @ [(a, el)])))" "l \<in> set li \<Longrightarrow> snd l \<noteq> []"
proof -
  show "chain t li a" "leaf_at t a el 0" using assms by (simp_all add: tree_inv_def chain_snoc)
  show "last_leaf t = a" "heap_ok t" "3 \<le> branch_factor t"
    "levels_ok t (leaf_level (li @ [(a, el)])) Gs" "distinct (map fst (li @ [(a, el)]) @ addrs Gs)"
    "nodes t x \<noteq> None \<longleftrightarrow> x \<in> set (map fst (li @ [(a, el)]) @ addrs Gs)"
    "l \<in> set li \<Longrightarrow> length (snd l) = branch_factor t - 1" "el = [] \<Longrightarrow> li = []"
    "sorted_wrt (<) (map fst (entries (li @ [(a, el)])))"
    using assms unfolding tree_inv_def by simp_all
  show "l \<in> set li \<Longrightarrow> snd l \<noteq> []"
    using assms unfolding tree_inv_def by (cases li) auto
qed

lemma tree_inv_used:
  assumes "tree_inv t (li @ [(a, el)]) Gs" "x \<in> set (map fst (li @ [(a, el)]) @ addrs Gs)"
  shows "x < next_addr t" "x \<noteq> 0"
  using tree_inv_snocD(8) [OF assms(1), of x] assms(2) heap_ok_fresh(2) [OF tree_inv_snocD(4) [OF assms(1)], of x] by auto

lemma last_key_leaf:
  assumes "tree_inv t (li @ [(a, el)]) Gs"
  shows "key_above (entries (li @ [(a, el)])) k \<longleftrightarrow> el = [] \<or> fst (last el) < k"
proof (cases "el = []")
  case True
  then have "li = []" using assms by (auto simp: tree_inv_def)
  then show ?thesis using True by (simp add: key_above_def)
qed (simp add: key_above_def)

lemma leaf_last_data:
  assumes "leaf_node b el x n" "el \<noteq> []"
  shows "get_data n (n_size n - 1) = Some (n_data n ! (length el - 1))" "md_key (n_data n ! (length el - 1)) = fst (last el)"
    "md_value (n_data n ! (length el - 1)) = snd (last el)"
proof -
  have sz: "n_size n = length el" "length (n_data n) = b" "length el < b" "0 < length el" using assms by (auto simp: leaf_node_def)
  then show "get_data n (n_size n - 1) = Some (n_data n ! (length el - 1))" by (simp add: get_data_def)
  have "take (length el) (keys n) ! (length el - 1) = map fst el ! (length el - 1)"
    "take (length el) (vals n) ! (length el - 1) = map snd el ! (length el - 1)"
    using assms(1) by (simp_all add: leaf_node_def)
  then show "md_key (n_data n ! (length el - 1)) = fst (last el)" "md_value (n_data n ! (length el - 1)) = snd (last el)"
    using sz assms(2) by (simp_all add: last_conv_nth)
qed

text \<open>The test for a key that is too low, and the test for a full leaf.\<close>

lemma tryappend_start:
  assumes "last_leaf t = a" "nodes t a = Some l" "leaf_node (branch_factor t) el 0 l"
  shows "(if n_size l > 0 then map_option (\<lambda>d. k \<le> md_key d) (get_data l (n_size l - 1)) else Some False)
      = Some (el \<noteq> [] \<and> k \<le> fst (last el))"
    and "mbptree_node_full t a = Some (length el = branch_factor t - 1)"
proof -
  have "n_size l = length el" "length el < branch_factor t" using assms(3) by (simp_all add: leaf_node_def)
  then show "mbptree_node_full t a = Some (length el = branch_factor t - 1)"
    using assms(2) by (auto simp: heap_simps)
  show "(if n_size l > 0 then map_option (\<lambda>d. k \<le> md_key d) (get_data l (n_size l - 1)) else Some False)
      = Some (el \<noteq> [] \<and> k \<le> fst (last el))"
    using leaf_last_data [OF assms(3)] \<open>n_size l = length el\<close> by (cases "el = []") simp_all
qed

lemma tryappend_low:
  assumes "tree_inv t ls Gs" "\<not> key_above (entries ls) k"
  shows "mbptree_tryappend t k v = Some (t, ELIDXNM)"
  using assms(1)
proof (rule tree_invE)
  fix li a el
  assume A: "ls = li @ [(a, el)]" "last_leaf t = a" "leaf_at t a el 0"
  from A(3) obtain l where l: "nodes t a = Some l" "leaf_node (branch_factor t) el 0 l" by (rule leaf_atE)
  have "el \<noteq> []" "k \<le> fst (last el)" using assms last_key_leaf [of t li a el Gs k] A(1) by auto
  then show ?thesis
    using A(2) l tryappend_start(1) [OF A(2) l, of k] by (simp add: mbptree_tryappend_def)
qed

lemma levels_single: "levels_ok t [x] Gs \<Longrightarrow> Gs = []"
proof (cases Gs)
  case (Cons G Gs')
  assume lv: "levels_ok t [x] Gs"
  then have "heads G \<noteq> []" using levels_ok_nonempty Cons by auto
  then obtain a g G' where G: "G = (a, g) # G'" by (cases G) auto
  then have "2 \<le> length g" using lv Cons by (auto elim!: group_okE)
  moreover have "length (concat (map snd G)) = 1" using lv Cons by simp
  ultimately show ?thesis using G by simp
qed

text \<open>A change to the node of one leaf that keeps its parent leaves the inner levels alone.\<close>

lemma levels_leaf_change:
  assumes "levels_ok t L Gs" "a \<notin> set (addrs Gs)" "nodes t a = Some n" "n_parent n' = n_parent n"
  shows "levels_ok (set_node t a n') L Gs"
proof (rule levels_ok_frame [OF assms(1)])
  show "body (set_node t a n') x = body t x" if "x \<in> set (addrs Gs)" for x
    using that assms(2) by (auto simp: body_def)
  show "node_parent (set_node t a n') x = node_parent t x" for x
    using assms(3,4) by (simp add: node_parent_def)
qed simp_all

lemma tryappend_room:
  assumes inv: "tree_inv t (li @ [(a, el)]) Gs" and above: "key_above (entries (li @ [(a, el)])) k"
    and room: "length el < branch_factor t - 1"
  shows "\<exists>t'. mbptree_tryappend t k v = Some (t', 0) \<and> tree_inv t' (li @ [(a, el @ [(k, v)])]) Gs \<and>
    allocs t' = allocs t \<and> tree_lock t' = tree_lock t \<and> branch_factor t' = branch_factor t"
proof -
  note I = tree_inv_snocD [OF inv]
  from I(2) obtain l where l: "nodes t a = Some l" "leaf_node (branch_factor t) el 0 l" by (rule leaf_atE)
  have room': "Suc (length el) < branch_factor t" using room by linarith
  obtain t1 t2 n' where S: "set_size t a (Suc (n_size l)) = Some t1" "set_key t1 a (n_size l) k = Some t2"
    "set_value t2 a (n_size l) v = Some (set_node t a n')" "leaf_node (branch_factor t) (el @ [(k, v)]) 0 n'"
    "n_parent n' = n_parent l" using leaf_push [OF l room', of k v] by blast
  let ?t = "set_node t a n'"
  have "(el \<noteq> [] \<and> k \<le> fst (last el)) = False" using above last_key_leaf [OF inv, of k] by auto
  note low = tryappend_start(1) [OF I(1) l, of k, unfolded this]
  have run: "mbptree_tryappend t k v = Some (?t, 0)"
    using low tryappend_start(2) [OF I(1) l] room S(1-3) l I(1) by (simp add: mbptree_tryappend_def)
  have ch: "chain ?t li a" using I(7) by (intro chain_frame [OF I(3)]) (auto simp: body_def)
  have lv: "levels_ok ?t (leaf_level (li @ [(a, el @ [(k, v)])])) Gs"
  proof (cases "el = []")
    case True
    then have "Gs = []" using I(6,10) levels_single [of t _ Gs] by simp
    then show ?thesis using levels_leaf_change [OF I(6) _ l(1) S(5)] by auto
  next
    case False
    then show ?thesis using levels_leaf_change [OF I(6) _ l(1) S(5)] I(7) by simp
  qed
  have srt: "sorted_wrt (<) (map fst (entries (li @ [(a, el @ [(k, v)])])))"
    using sorted_entries_snoc [OF I(11) above, of v] by simp
  have "tree_inv ?t (li @ [(a, el @ [(k, v)])]) Gs"
    unfolding tree_inv_def
  proof (intro conjI)
    show "heap_ok ?t" using I(4) l(1) by (simp add: heap_ok_def)
    show "chain ?t (li @ [(a, el @ [(k, v)])]) 0" using ch S(4) by (simp add: chain_snoc leaf_at_def)
    show "\<forall>x. (nodes ?t x \<noteq> None) = (x \<in> set (map fst (li @ [(a, el @ [(k, v)])]) @ addrs Gs))"
      using I(8) l(1) by simp
    show "\<forall>l\<in>set (li @ [(a, el @ [(k, v)])]). snd l = [] \<longrightarrow> length (li @ [(a, el @ [(k, v)])]) = 1"
      using I(12) by auto
  qed (use I lv srt in simp_all)
  with run show ?thesis by (intro exI [of _ ?t]) simp
qed

lemma append_key_ok:
  assumes "tree_inv t (li @ [(a, el)]) Gs" "key_above (entries (li @ [(a, el)])) k"
  shows "\<not> (el \<noteq> [] \<and> k \<le> fst (last el))"
    "sorted_wrt (<) (map fst (entries ((li @ [(a, el)]) @ [(n, [(k, v)])])))"
  using last_key_leaf [OF assms(1), of k] assms(2) sorted_entries_snoc [OF tree_inv_snocD(11) [OF assms(1)] assms(2), of v]
  by auto

text \<open>The shape of the tree when a leaf with one entry has been added to full leaves.\<close>

lemma tree_inv_new_leaf:
  assumes inv: "tree_inv t (li @ [(a, el)]) Gs" and above: "key_above (entries (li @ [(a, el)])) k"
    and full: "length el = branch_factor t - 1"
    and t': "branch_factor t' = branch_factor t" "last_leaf t' = n" "heap_ok t'" "leaf_at t' a el n" "leaf_at t' n [(k, v)] 0"
      "\<And>x. x \<in> fst ` set li \<Longrightarrow> body t' x = body t x"
      "levels_ok t' (leaf_level (li @ [(a, el)]) @ [(n, k)]) Gs'"
      "distinct (map fst (li @ [(a, el)]) @ n # addrs Gs')"
      "\<And>x. nodes t' x \<noteq> None \<longleftrightarrow> x \<in> set (map fst (li @ [(a, el)]) @ n # addrs Gs')"
  shows "tree_inv t' ((li @ [(a, el)]) @ [(n, [(k, v)])]) Gs'"
proof -
  note I = tree_inv_snocD [OF inv]
  have "chain t' li a" using t'(1,6) by (intro chain_frame [OF I(3)]) auto
  then have "chain t' ((li @ [(a, el)]) @ [(n, [(k, v)])]) 0" using t'(4,5) by (simp only: chain_snoc)
  moreover have "el \<noteq> []" using full I(5) by auto
  then have "\<forall>l\<in>set ((li @ [(a, el)]) @ [(n, [(k, v)])]). snd l \<noteq> []" using I(12) by auto
  moreover have "\<forall>l\<in>set (butlast ((li @ [(a, el)]) @ [(n, [(k, v)])])). length (snd l) = branch_factor t' - 1"
    using I(9) full t'(1) by (auto simp: butlast_append)
  ultimately show ?thesis
    using I(5) t' append_key_ok(2) [OF inv above, of n v]
    unfolding tree_inv_def by simp
qed

text \<open>The full leaf is the root: it and the new leaf become the children of a new root.\<close>

lemma tryappend_root_run:
  assumes inv: "tree_inv t [(a, el)] []" and above: "key_above el k"
    and full: "length el = branch_factor t - 1" and al: "allocs t = []"
  defines "r \<equiv> next_addr t" and "b \<equiv> branch_factor t"
  obtains t' l' nl nr where "mbptree_tryappend t k v = Some (t', 0)" "leaf_node b el (Suc r) l'" "n_parent l' = r"
    "leaf_node b [(k, v)] 0 nl" "n_parent nl = r" "inner_node b [(a, fst (hd el)), (Suc r, k)] nr" "n_parent nr = 0"
    "t' = t\<lparr>last_leaf := Suc r, root := r, nodes := (nodes t)(a \<mapsto> l', Suc r \<mapsto> nl, r \<mapsto> nr), next_addr := Suc (Suc r)\<rparr>"
proof -
  define n where "n = Suc r"
  have inv': "tree_inv t ([] @ [(a, el)]) []" using inv by simp
  note I = tree_inv_snocD [OF inv']
  from I(2) obtain l where l: "nodes t a = Some l" "leaf_node b el 0 l" unfolding b_def by (rule leaf_atE)
  have rt: "root t = a" "n_parent l = 0" using I(6) l(1) by (auto simp: node_parent_def)
  have ar: "0 < a" "a < r" "0 < r" using I(4) l(1) by (auto simp: heap_ok_def r_def)
  define t0 where "t0 = set_node (set_node (t\<lparr>next_addr := n\<rparr>) r (fresh_inner b 0)) a (l\<lparr>n_parent := r\<rparr>)"
  have heap0: "heap_ok t0" using I(4) ar by (auto simp: heap_ok_def t0_def n_def r_def)
  have t0: "nodes t0 a = Some (l\<lparr>n_parent := r\<rparr>)" "leaf_node b el 0 (l\<lparr>n_parent := r\<rparr>)" "branch_factor t0 = b"
    "allocs t0 = []" "next_addr t0 = n" using l al by (simp_all add: t0_def b_def)
  have b2: "2 \<le> b" using I(5) by (simp add: b_def)
  from new_leaf_steps [OF t0(1-3) b2 t0(4) heap0, of k v, unfolded t0(5)] obtain t1 t2 t3 l' nl where
    N: "mbptree_new_leaf t0 a = Some (t1, n)" "set_size t1 n 1 = Some t2" "set_key t2 n 0 k = Some t3"
      "set_value t3 n 0 v = Some (set_node (set_node (t0\<lparr>next_addr := Suc n\<rparr>) a l') n nl)"
      "leaf_node b el n l'" "n_parent l' = r" "leaf_node b [(k, v)] 0 nl" "n_parent nl = r" by auto
  define t4 where "t4 = set_node (set_node (t0\<lparr>next_addr := Suc n\<rparr>) a l') n nl"
  have "nodes t4 r = Some (fresh_inner b 0)" using ar by (simp add: t4_def t0_def n_def)
  from two_children_ok [OF this b2, of a k n "fst (hd el)"] obtain t5 nr where
    R: "node_size t4 r = Some 0" "set_value t4 r 0 a = Some t5" "add_child t5 r k n = Some (set_node t4 r nr)"
      "inner_node b [(a, fst (hd el)), (n, k)] nr" "n_parent nr = 0" by blast
  have cr: "mbptree_create_node t b 0 = (set_node (t\<lparr>next_addr := n\<rparr>) r (fresh_inner b 0), r)"
    using al by (simp add: create_node_ok r_def n_def)
  have "set_parent (set_node (t\<lparr>next_addr := n\<rparr>) r (fresh_inner b 0)) a r = Some t0"
    using l(1) ar by (simp add: heap_simps t0_def)
  moreover have "mbptree_node_full t a = Some True" "mbptree_is_root t a = Some True"
    using tryappend_start(2) [OF I(1) l(1)] l rt(2) full by (simp_all add: b_def heap_simps)
  moreover have "(el \<noteq> [] \<and> k \<le> fst (last el)) = False" using append_key_ok(1) [OF inv'] above by auto
  note low = tryappend_start(1) [OF I(1) l [unfolded b_def], of k, unfolded this]
  have n0: "n \<noteq> 0" by (simp add: n_def)
  ultimately have "mbptree_tryappend t k v = Some ((set_node t4 r nr)\<lparr>last_leaf := n, root := r\<rparr>, 0)"
    using low l I(1) cr ar n0 N(1-4) R(1-3) by (simp add: mbptree_tryappend_def b_def t4_def [symmetric])
  moreover have "(set_node t4 r nr)\<lparr>last_leaf := n, root := r\<rparr> =
      t\<lparr>last_leaf := n, root := r, nodes := (nodes t)(a \<mapsto> l', n \<mapsto> nl, r \<mapsto> nr), next_addr := Suc n\<rparr>"
    using ar by (simp add: t4_def t0_def set_node_def n_def fun_upd_twist)
  ultimately show ?thesis using that N(5-8) R(4,5) by (simp add: n_def)
qed

lemma tryappend_root:
  assumes inv: "tree_inv t [(a, el)] []" and above: "key_above el k"
    and full: "length el = branch_factor t - 1" and al: "allocs t = []"
  shows "\<exists>t' Gs'. mbptree_tryappend t k v = Some (t', 0) \<and> tree_inv t' [(a, el), (Suc (next_addr t), [(k, v)])] Gs' \<and>
    allocs t' = [] \<and> tree_lock t' = tree_lock t \<and> branch_factor t' = branch_factor t"
proof -
  define r n where "r = next_addr t" and "n = Suc r"
  have inv': "tree_inv t ([] @ [(a, el)]) []" using inv by simp
  note I = tree_inv_snocD [OF inv']
  obtain tf l' nl nr where R: "mbptree_tryappend t k v = Some (tf, 0)" "leaf_node (branch_factor t) el n l'" "n_parent l' = r"
    "leaf_node (branch_factor t) [(k, v)] 0 nl" "n_parent nl = r" "inner_node (branch_factor t) [(a, fst (hd el)), (n, k)] nr" "n_parent nr = 0"
    and tf: "tf = t\<lparr>last_leaf := n, root := r, nodes := (nodes t)(a \<mapsto> l', n \<mapsto> nl, r \<mapsto> nr), next_addr := Suc n\<rparr>"
    unfolding r_def n_def by (rule tryappend_root_run [OF inv above full al])
  have "a < r" "0 < a" using tree_inv_used [OF inv', of a] by (simp_all add: r_def)
  then have ne: "a \<noteq> n" "a \<noteq> r" "n \<noteq> r" "0 < r" by (simp_all add: n_def)
  let ?Gs = "[[(r, [(a, fst (hd el)), (n, k)])]]"
  have at: "nodes tf a = Some l'" "nodes tf n = Some nl" "nodes tf r = Some nr" using ne by (simp_all add: tf)
  have dom: "nodes tf x \<noteq> None \<longleftrightarrow> x \<in> {a, n, r}" for x using I(8) [of x] by (auto simp: tf)
  have "tree_inv tf (([] @ [(a, el)]) @ [(n, [(k, v)])]) ?Gs"
  proof (rule tree_inv_new_leaf [OF inv' _ full])
    show "heap_ok tf" using dom ne \<open>0 < a\<close> \<open>a < r\<close> by (auto simp: heap_ok_def n_def tf)
    show "leaf_at tf a el n" "leaf_at tf n [(k, v)] 0" using at R(2,4) by (simp_all add: leaf_at_def) (simp_all add: tf)
    have "group_ok tf (r, [(a, fst (hd el)), (n, k)])" using at R(3,5,6) by (simp add: group_ok_def node_parent_def) (simp add: tf)
    moreover have "node_parent tf r = Some 0" "root tf = r" using R(7) at(3) by (simp_all add: node_parent_def tf)
    ultimately show "levels_ok tf (leaf_level ([] @ [(a, el)]) @ [(n, k)]) ?Gs" by simp
    show "distinct (map fst ([] @ [(a, el)]) @ n # addrs ?Gs)" using ne by simp
    show "nodes tf x \<noteq> None \<longleftrightarrow> x \<in> set (map fst ([] @ [(a, el)]) @ n # addrs ?Gs)" for x using dom [of x] by simp
  qed (use above in \<open>simp_all add: tf\<close>)
  then show ?thesis using R(1) al by (intro exI [of _ tf] exI [of _ ?Gs]) (simp add: tf n_def r_def)
qed

text \<open>\<open>mbptree_append_leaf\<close> does what \<open>mbptree_append_node\<close> does, once its assertions hold.\<close>

lemma append_node_eq:
  assumes "nodes t c = Some nc" "n_parent nc \<noteq> 0" "n_parent nc = p" "nodes t p = Some np" "n_size np < branch_factor t"
  shows "mbptree_append_node t k c =
    (if \<not> branch_factor t - 1 \<le> n_size np then do { t' \<leftarrow> add_child t p k c; Some (t', root t') }
     else if n_parent np = 0 then mbptree_split_root t p k c else mbptree_split_node t p k c)"
  using assms
  by (subst mbptree_append_node.simps) (simp add: heap_simps mbptree_split_node_def)

lemma add_child_root: "add_child t a k c = Some t' \<Longrightarrow> root t' = root t"
  by (auto simp: add_child_def set_size_def set_key_def set_value_def bind_eq_Some_conv)

lemma append_leaf_eq:
  assumes t: "last_leaf t = a" "a \<noteq> n" "nodes t a = Some l" "leaf_node (branch_factor t) el n l" "length el = branch_factor t - 1"
    and n: "nodes t n = Some nl" "leaf_node (branch_factor t) [(k, v)] 0 nl" "n_parent nl = n_parent l"
    and p: "n_parent l \<noteq> 0" "nodes t (n_parent l) = Some np" "n_size np < branch_factor t"
  shows "mbptree_append_leaf t n =
    map_option (\<lambda>(t', rt). (t'\<lparr>last_leaf := n\<rparr>, rt)) (mbptree_append_node t k n)"
proof -
  have L: "n_size l = branch_factor t - 1" "get_data l (n_size l) = Some (n_data l ! n_size l)" "md_value (n_data l ! n_size l) = n"
    using t(4,5) by (auto simp: leaf_node_def get_data_def)
  have N: "get_data nl 0 = Some (n_data nl ! 0)" "md_key (n_data nl ! 0) = k"
    using n(2) by (auto simp: leaf_node_def get_data_def take_Suc_conv_app_nth)
  have full: "mbptree_node_full t (n_parent l) = Some (branch_factor t - 1 \<le> n_size np)"
    "mbptree_is_root t (n_parent l) = Some (n_parent np = 0)"
    using p(2,3) by (simp_all add: heap_simps)
  note A = append_node_eq [OF n(1) _ _ p(2,3), of k]
  show ?thesis
  proof (cases "branch_factor t - 1 \<le> n_size np")
    case True
    then show ?thesis using t(1-3) n(1,3) p(1) L N full A
      by (auto simp: mbptree_append_leaf_def c_assert_def map_option_case split: option.splits prod.splits)
  next
    case False
    then show ?thesis using t(1-3) n(1,3) p(1) L N full A
      by (cases "add_child t (n_parent l) k n")
        (simp_all add: mbptree_append_leaf_def c_assert_def add_child_root)
  qed
qed


lemma levels_ok_cong:
  "nodes t' = nodes t \<Longrightarrow> root t' = root t \<Longrightarrow> branch_factor t' = branch_factor t \<Longrightarrow>
   levels_ok t L Gs \<Longrightarrow> levels_ok t' L Gs"
  by (rule levels_ok_frame [of t]) (simp_all add: body_def node_parent_def)

text \<open>The state in which the new leaf exists: \<open>l'\<close> is the last leaf linked to it, \<open>nl\<close> the new leaf.\<close>

definition leaf_added :: "mbptree \<Rightarrow> address \<Rightarrow> mbptree_node \<Rightarrow> mbptree_node \<Rightarrow> mbptree" where
  "leaf_added t a l' nl = set_node (set_node (t\<lparr>next_addr := Suc (next_addr t)\<rparr>) a l') (next_addr t) nl"

lemma leaf_added_distinct:
  assumes "tree_inv t (li @ [(a, el)]) Gs"
  shows "distinct (map fst (leaf_level (li @ [(a, el)])) @ next_addr t # addrs Gs)"
  using tree_inv_snocD(7) [OF assms] tree_inv_used(1) [OF assms, of "next_addr t"] by auto

lemma leaf_added_facts:
  fixes nl :: mbptree_node
  assumes inv: "tree_inv t (li @ [(a, el)]) Gs" and l: "nodes t a = Some l" "n_parent l' = n_parent l"
  defines "t4 \<equiv> leaf_added t a l' nl"
  shows "heap_ok t4" "levels_ok t4 (leaf_level (li @ [(a, el)])) Gs" "\<And>x. x \<in> set (addrs Gs) \<Longrightarrow> nodes t4 x = nodes t x" "\<And>x. x \<in> fst ` set li \<Longrightarrow> body t4 x = body t x"
    "\<And>x. nodes t4 x \<noteq> None \<longleftrightarrow> x \<in> insert (next_addr t) (set (map fst (li @ [(a, el)]) @ addrs Gs))"
    "nodes t4 a = Some l'" "nodes t4 (next_addr t) = Some nl"
proof -
  note I = tree_inv_snocD [OF inv] and used = tree_inv_used [OF inv]
  let ?ls = "li @ [(a, el)]"
  have an: "a \<noteq> next_addr t" "a \<notin> set (addrs Gs)" using used(1) [of a] I(7) by auto
  then show a4: "nodes t4 a = Some l'" "nodes t4 (next_addr t) = Some nl" by (simp_all add: t4_def leaf_added_def)
  have other: "nodes t4 x = nodes t x" if "x \<noteq> a" "x \<noteq> next_addr t" for x using that by (simp add: t4_def leaf_added_def)
  show inner: "nodes t4 x = nodes t x" if "x \<in> set (addrs Gs)" for x using that an(2) used(1) [of x] by (intro other) auto
  show "body t4 x = body t x" if "x \<in> fst ` set li" for x
  proof -
    have "x \<noteq> a" "x \<noteq> next_addr t" using that I(7) used(1) [of x] by auto
    then show ?thesis using other by (simp add: body_def)
  qed
  show "heap_ok t4" using I(4) l(1) by (auto simp: heap_ok_def t4_def leaf_added_def less_Suc_eq)
  show "nodes t4 x \<noteq> None \<longleftrightarrow> x \<in> insert (next_addr t) (set (map fst ?ls @ addrs Gs))" for x
    using I(8) [of x] l(1) by (auto simp: t4_def leaf_added_def)
  show "levels_ok t4 (leaf_level ?ls) Gs"
  proof (rule levels_ok_frame [OF I(6)])
    show "body t4 x = body t x" if "x \<in> set (addrs Gs)" for x using inner [OF that] by (simp add: body_def)
    have "fst ` set (leaf_level ?ls) = set (map fst ?ls)" by (metis leaf_level_simps(4) list.set_map)
    then show "node_parent t4 x = node_parent t x" if "x \<in> fst ` set (leaf_level ?ls) \<union> set (addrs Gs)" for x
      using used(1) [of x] that l other [of x] a4(1) by (cases "x = a") (auto simp: node_parent_def)
  qed (simp_all add: t4_def leaf_added_def)
qed

text \<open>From there to the end of the climb.\<close>

lemma append_leaf_climb:
  assumes inv: "tree_inv t (li @ [(a, el)]) (G # Gs)" and full: "length el = branch_factor t - 1" and al: "allocs t = []"
    and l: "nodes t a = Some l" "leaf_node (branch_factor t) el (next_addr t) l'" "n_parent l' = n_parent l"
      "leaf_node (branch_factor t) [(k, v)] 0 nl" "n_parent nl = n_parent l"
  defines "t4 \<equiv> leaf_added t a l' nl" and "n \<equiv> next_addr t"
  shows "\<exists>t5 Gs'. mbptree_append_leaf t4 n = Some (t5\<lparr>last_leaf := n\<rparr>, root t5) \<and> root t5 \<noteq> 0 \<and>
    levels_ok t5 (leaf_level (li @ [(a, el)]) @ [(n, k)]) Gs' \<and>
    grown t4 t5 (fst ` set (leaf_level (li @ [(a, el)])) \<union> {n}) (G # Gs) Gs'"
proof -
  note I = tree_inv_snocD [OF inv] and used = tree_inv_used [OF inv, folded n_def]
  note F = leaf_added_facts [where nl = nl, OF inv l(1,3), folded t4_def n_def] and D = leaf_added_distinct [OF inv, folded n_def]
  have t4: "branch_factor t4 = branch_factor t" "last_leaf t4 = a" "allocs t4 = []" using al I(1) by (simp_all add: t4_def leaf_added_def)
  have p: "n_parent l = fst (last G)" using levels_last_parent [OF I(6)] l(1) by (simp add: node_parent_def)
  have "heads G \<noteq> []" using I(6) levels_ok_nonempty [of t "heads G" Gs] by simp
  then obtain Gi gp where G: "G = Gi @ [(fst (last G), gp)]" by (cases G rule: rev_cases) auto
  then have "group_ok t (fst (last G), gp)" using I(6) by (metis levels_ok.simps(2) in_set_conv_decomp)
  then obtain np where np: "nodes t (fst (last G)) = Some np" "inner_node (branch_factor t) gp np" by (rule group_okE)
  have pa: "fst (last G) \<in> set (addrs (G # Gs))" by (subst G) simp
  have p4: "nodes t4 (fst (last G)) = Some np" "fst (last G) \<noteq> 0" "n_size np < branch_factor t4"
    using used(2) [of "fst (last G)"] pa np F(3) t4(1) by (auto simp: inner_node_def)
  have par: "node_parent t4 n = Some (fst (last G))" using F(7) l(5) p by (simp add: node_parent_def)
  from append_node_ok [OF F(2) D F(1) _ t4(3) par, of k] I(5) t4(1) obtain t5 Gs' where
    5: "mbptree_append_node t4 k n = Some (t5, root t5)" "root t5 \<noteq> 0" "levels_ok t5 (leaf_level (li @ [(a, el)]) @ [(n, k)]) Gs'"
      "grown t4 t5 (fst ` set (leaf_level (li @ [(a, el)])) \<union> {n}) (G # Gs) Gs'" by auto
  have "a \<noteq> n" using used(1) [of a] by simp
  then have "mbptree_append_leaf t4 n = Some (t5\<lparr>last_leaf := n\<rparr>, root t5)"
    using append_leaf_eq [of t4 a n l' el nl k v np] t4 F(6,7) l p4 p full 5(1) by (simp add: n_def)
  with 5 show ?thesis by blast
qed

lemma append_leaf_inv:
  assumes inv: "tree_inv t (li @ [(a, el)]) (G # Gs)" and above: "key_above (entries (li @ [(a, el)])) k"
    and full: "length el = branch_factor t - 1" and al: "allocs t = []"
    and l: "nodes t a = Some l" "leaf_node (branch_factor t) el (next_addr t) l'" "n_parent l' = n_parent l"
      "leaf_node (branch_factor t) [(k, v)] 0 nl" "n_parent nl = n_parent l"
  defines "t4 \<equiv> leaf_added t a l' nl" and "n \<equiv> next_addr t"
  shows "\<exists>t' Gs'. mbptree_append_leaf t4 n = Some (t', root t') \<and> root t' \<noteq> 0 \<and>
    tree_inv t' ((li @ [(a, el)]) @ [(n, [(k, v)])]) Gs' \<and>
    allocs t' = [] \<and> tree_lock t' = tree_lock t \<and> branch_factor t' = branch_factor t"
proof -
  note I = tree_inv_snocD [OF inv] and used = tree_inv_used [OF inv, folded n_def]
  note F = leaf_added_facts [where nl = nl, OF inv l(1,3), folded t4_def n_def] and D = leaf_added_distinct [OF inv, folded n_def]
  let ?ls = "li @ [(a, el)]"
  from append_leaf_climb [OF inv full al l, folded t4_def n_def] obtain t5 Gs' where
    5: "mbptree_append_leaf t4 n = Some (t5\<lparr>last_leaf := n\<rparr>, root t5)" "root t5 \<noteq> 0" "levels_ok t5 (leaf_level ?ls @ [(n, k)]) Gs'"
      "grown t4 t5 (fst ` set (leaf_level ?ls) \<union> {n}) (G # Gs) Gs'" by blast
  define tf where "tf = t5\<lparr>last_leaf := n\<rparr>"
  have t4: "branch_factor t4 = branch_factor t" "tree_lock t4 = tree_lock t" "next_addr t4 = Suc n" by (simp_all add: t4_def leaf_added_def n_def)
  have g: "branch_factor t5 = branch_factor t" "tree_lock t5 = tree_lock t" "allocs t5 = []" "heap_ok t5"
    "distinct (addrs Gs')" "set (addrs Gs') = set (addrs (G # Gs)) \<union> {Suc n..<next_addr t5}"
    "\<And>x. x \<notin> set (addrs Gs') \<Longrightarrow> body t5 x = body t4 x" using 5(4) unfolding grown_def t4 by simp_all
  have out: "x \<notin> set (addrs Gs')" if "x \<in> insert n (set (map fst ?ls))" for x
  proof -
    have "x = n \<or> x < n" using that used(1) [of x] unfolding insert_iff set_append Un_iff by blast
    moreover have "x \<notin> set (addrs (G # Gs))" using that D by auto
    ultimately show ?thesis using g(6) by auto
  qed
  have bf: "body tf x = body t4 x" if "x \<in> insert n (set (map fst ?ls))" for x
    using g(7) [OF out [OF that]] by (simp add: tf_def body_def)
  have "tree_inv tf (?ls @ [(n, [(k, v)])]) Gs'"
  proof (rule tree_inv_new_leaf [OF inv above full])
    show "heap_ok tf" using g(4) by (simp add: tf_def heap_ok_def)
    have "leaf_at t4 a el n" "leaf_at t4 n [(k, v)] 0" using t4(1) F(6,7) l by (simp_all add: leaf_at_def n_def)
    then show "leaf_at tf a el n" "leaf_at tf n [(k, v)] 0"
      using bf [of a] bf [of n] g(1) t4(1) leaf_at_frame [of t4 a el n tf] leaf_at_frame [of t4 n "[(k, v)]" 0 tf] by (simp_all add: tf_def)
    show "body tf x = body t x" if "x \<in> fst ` set li" for x using bf [of x] F(4) [OF that] that by simp
    show "levels_ok tf (leaf_level ?ls @ [(n, k)]) Gs'" using 5(3) by (rule levels_ok_cong [rotated 3]) (simp_all add: tf_def)
    show "distinct (map fst ?ls @ n # addrs Gs')" using D out g(5) by auto
    show "nodes tf x \<noteq> None \<longleftrightarrow> x \<in> set (map fst ?ls @ n # addrs Gs')" for x
    proof (cases "x \<in> set (addrs Gs')")
      case True
      then show ?thesis using levels_addrs [OF 5(3)] by (simp add: tf_def)
    next
      case False
      then show ?thesis using body_eq_None [OF g(7) [OF False]] F(5) [of x] g(6) by (auto simp: tf_def)
    qed
  qed (use g(1) in \<open>simp_all add: tf_def\<close>)
  with 5(1,2) g show ?thesis by (intro exI [of _ tf] exI [of _ Gs']) (simp add: tf_def)
qed

lemma tryappend_split:
  assumes inv: "tree_inv t (li @ [(a, el)]) (G # Gs)" and above: "key_above (entries (li @ [(a, el)])) k"
    and full: "length el = branch_factor t - 1" and al: "allocs t = []"
  shows "\<exists>t' Gs'. mbptree_tryappend t k v = Some (t', 0) \<and>
    tree_inv t' ((li @ [(a, el)]) @ [(next_addr t, [(k, v)])]) Gs' \<and>
    allocs t' = [] \<and> tree_lock t' = tree_lock t \<and> branch_factor t' = branch_factor t"
proof -
  note I = tree_inv_snocD [OF inv]
  define n where "n = next_addr t"
  from I(2) obtain l where l: "nodes t a = Some l" "leaf_node (branch_factor t) el 0 l" by (rule leaf_atE)
  have "heads G \<noteq> []" using I(6) levels_ok_nonempty [of t "heads G" Gs] by simp
  then have "fst (last G) \<in> set (map fst (li @ [(a, el)]) @ addrs (G # Gs))" by (cases G rule: rev_cases) auto
  then have "nodes t (fst (last G)) \<noteq> None" using I(8) by blast
  moreover have p: "n_parent l = fst (last G)" using levels_last_parent [OF I(6)] l(1) by (simp add: node_parent_def)
  ultimately have p0: "n_parent l \<noteq> 0" "n \<noteq> 0" using heap_ok_fresh(2) [OF I(4)] I(4) by (auto simp: n_def heap_ok_def)
  have b2: "2 \<le> branch_factor t" using I(5) by simp
  from new_leaf_steps [OF l refl b2 al I(4), of k v, folded n_def] obtain t1 t2 t3 l' nl where
    N: "mbptree_new_leaf t a = Some (t1, n)" "set_size t1 n 1 = Some t2" "set_key t2 n 0 k = Some t3"
      "set_value t3 n 0 v = Some (set_node (set_node (t\<lparr>next_addr := Suc n\<rparr>) a l') n nl)"
      "leaf_node (branch_factor t) el n l'" "n_parent l' = n_parent l"
      "leaf_node (branch_factor t) [(k, v)] 0 nl" "n_parent nl = n_parent l" by blast
  from append_leaf_inv [OF inv above full al l(1) N(5-8) [unfolded n_def], folded n_def, unfolded leaf_added_def, folded n_def] obtain t' Gs' where
    A: "mbptree_append_leaf (set_node (set_node (t\<lparr>next_addr := Suc n\<rparr>) a l') n nl) n = Some (t', root t')" "root t' \<noteq> 0"
      "tree_inv t' ((li @ [(a, el)]) @ [(n, [(k, v)])]) Gs'"
      "allocs t' = [] \<and> tree_lock t' = tree_lock t \<and> branch_factor t' = branch_factor t" by blast
  have "(el \<noteq> [] \<and> k \<le> fst (last el)) = False" using append_key_ok(1) [OF inv above] by auto
  note low = tryappend_start(1) [OF I(1) l, of k, unfolded this]
  have "mbptree_node_full t a = Some True" "mbptree_is_root t a = Some False"
    using tryappend_start(2) [OF I(1) l] l(1) p0 full by (simp_all add: heap_simps)
  then have "mbptree_tryappend t k v = Some (t', 0)"
    using low l I(1) p0 N(1-4) A(1,2) by (simp add: mbptree_tryappend_def)
  with A show ?thesis by (auto simp: n_def)
qed

text \<open>All cases together, on the contents of the tree.\<close>

theorem tryappend_rep:
  assumes rep: "tree_rep t es" and al: "allocs t = []"
  shows "if key_above es k
    then \<exists>t'. mbptree_tryappend t k v = Some (t', 0) \<and> tree_rep t' (es @ [(k, v)]) \<and>
      allocs t' = [] \<and> tree_lock t' = tree_lock t \<and> branch_factor t' = branch_factor t
    else mbptree_tryappend t k v = Some (t, ELIDXNM)"
proof -
  from rep obtain ls Gs where inv: "tree_inv t ls Gs" and es: "es = entries ls" by (auto simp: tree_rep_def)
  from inv obtain li a el where ls: "ls = li @ [(a, el)]" by (rule tree_invE)
  note inv' = inv [unfolded ls]
  note I = tree_inv_snocD [OF inv']
  have goal: ?thesis if ex: "key_above es k \<Longrightarrow> \<exists>t' ls' Gs'. mbptree_tryappend t k v = Some (t', 0) \<and> tree_inv t' ls' Gs' \<and>
      entries ls' = es @ [(k, v)] \<and> allocs t' = [] \<and> tree_lock t' = tree_lock t \<and> branch_factor t' = branch_factor t"
    using ex tryappend_low [OF inv] unfolding es tree_rep_def by metis
  show ?thesis
  proof (rule goal)
    assume above: "key_above es k"
    then have above': "key_above (entries (li @ [(a, el)])) k" by (simp only: es ls)
    have "length el < branch_factor t" using I(2) by (auto elim!: leaf_atE simp: leaf_node_def)
    then have "length el < branch_factor t - 1 \<or> length el = branch_factor t - 1" by linarith
    then consider "length el < branch_factor t - 1" | "length el = branch_factor t - 1" "Gs = []"
      | G Gs' where "length el = branch_factor t - 1" "Gs = G # Gs'" by (cases Gs) blast+
    then show "\<exists>t' ls' Gs'. mbptree_tryappend t k v = Some (t', 0) \<and> tree_inv t' ls' Gs' \<and>
      entries ls' = es @ [(k, v)] \<and> allocs t' = [] \<and> tree_lock t' = tree_lock t \<and> branch_factor t' = branch_factor t"
    proof cases
      case 1
      from tryappend_room [OF inv' above' 1, of v] al show ?thesis by (fastforce simp: es ls)
    next
      case 2
      then have "li = []" using I(6) by auto
      then show ?thesis using tryappend_root [of t a el k v] inv' above' 2 al by (fastforce simp: es ls)
    next
      case 3
      from tryappend_split [OF inv' [unfolded 3(2)] above' 3(1) al, of v] show ?thesis by (fastforce simp: es ls)
    qed
  qed
qed

end
