(* ===== verification/Mbptree_Search.thy ===== *)
theory Mbptree_Search
  imports Mbptree_Append
begin

text \<open>
  Searching and iterating. The descent of \<open>mbptree_find_leaf\<close> ends, at the leaf with the
  greatest lowest key not above the one searched (the first leaf when there is none); from the
  entry found there the iterator runs through the rest of the contents in order.
\<close>

section \<open>The descent\<close>

text \<open>The last element of a level whose lowest key is at most \<open>k\<close>, the first element if there is none.\<close>

fun pick :: "u64 \<Rightarrow> level \<Rightarrow> address \<times> u64" where
  "pick k [] = undefined"
| "pick k [x] = x"
| "pick k (x # y # ys) = (if snd y \<le> k then pick k (y # ys) else x)"

lemma pick_append:
  assumes "sorted_wrt (<) (map snd (xs @ ys))" "xs \<noteq> []" "ys \<noteq> []"
  shows "pick k (xs @ ys) = (if snd (hd ys) \<le> k then pick k ys else pick k xs)"
  using assms
proof (induction k xs rule: pick.induct)
  case (2 k x)
  then show ?case by (cases ys) auto
next
  case (3 k x y zs)
  have "snd y < snd (hd ys)" using 3(2,4) by (cases ys) auto
  then have "snd (hd ys) \<le> k \<Longrightarrow> snd y \<le> k" by simp
  then show ?case using 3 by auto
qed simp

lemma sorted_heads:
  assumes "sorted_wrt (<) (map snd (concat (map snd G)))" "\<And>ag. ag \<in> set G \<Longrightarrow> snd ag \<noteq> []"
  shows "sorted_wrt (<) (map snd (heads G))"
  using assms
proof (induction G)
  case (Cons ag G)
  obtain a g where ag: "ag = (a, g)" "g \<noteq> []" using Cons.prems(2) [of ag] by (cases ag) auto
  have "snd (hd g) < snd y" if y: "y \<in> set (heads G)" for y
  proof -
    from y obtain b g' where b: "(b, g') \<in> set G" "snd y = snd (hd g')" by (auto simp: heads_def)
    then have "hd g' \<in> set (concat (map snd G))" using Cons.prems(2) [of "(b, g')"] by (force intro: hd_in_set)
    moreover have "hd g \<in> set g" using ag by simp
    ultimately show ?thesis using Cons.prems(1) ag b(2) unfolding sorted_wrt_map by (auto simp: sorted_wrt_append)
  qed
  moreover have "sorted_wrt (<) (map snd (heads G))"
    using Cons.IH Cons.prems by (auto simp: sorted_wrt_append)
  ultimately show ?case using ag by simp
qed simp

lemma pick_groups:
  assumes "G \<noteq> []" "sorted_wrt (<) (map snd (concat (map snd G)))" "\<And>ag. ag \<in> set G \<Longrightarrow> snd ag \<noteq> []"
  shows "\<exists>g. (fst (pick k (heads G)), g) \<in> set G \<and> pick k (concat (map snd G)) = pick k g"
  using assms
proof (induction G rule: list_nonempty_induct)
  case (single ag)
  then show ?case by (cases ag) auto
next
  case (cons ag G)
  obtain a g where ag: "ag = (a, g)" "g \<noteq> []" using cons.prems(2) [of ag] by (cases ag) auto
  obtain b h G' where G: "G = (b, h) # G'" "h \<noteq> []" using cons.hyps(1) cons.prems(2) by (cases G) fastforce+
  have p: "pick k (concat (map snd (ag # G))) =
      (if snd (hd h) \<le> k then pick k (concat (map snd G)) else pick k g)"
    using pick_append [of g "concat (map snd G)" k] cons.prems(1) ag G by simp
  have s: "sorted_wrt (<) (map snd (concat (map snd G)))" using cons.prems(1) by (simp add: sorted_wrt_append)
  show ?case
  proof (cases "snd (hd h) \<le> k")
    case True
    then show ?thesis using cons.IH [OF s] cons.prems(2) p ag G by auto
  next
    case False
    then show ?thesis using p ag G by auto
  qed
qed

lemma child_index_pick:
  assumes "inner_node b g n" "j \<le> n_size n"
  shows "\<exists>i d. child_index n key [j..<n_size n] = Some i \<and> get_data n i = Some d \<and> md_value d = fst (pick key (drop j g))"
  using assms(2)
proof (induction "n_size n - j" arbitrary: j)
  case 0
  have sz: "Suc (n_size n) = length g" "length g \<le> length (n_data n)" "take (length g) (vals n) = map fst g"
    using assms(1) by (auto simp: inner_node_def)
  then have "vals n ! n_size n = fst (g ! n_size n)" by (metis lessI nth_map nth_take)
  moreover have "drop (n_size n) g = [g ! n_size n]" using sz(1) by (metis Cons_nth_drop_Suc drop_all lessI order_refl)
  ultimately show ?case using 0 sz by (simp add: get_data_def)
next
  case (Suc m)
  have sz: "Suc (n_size n) = length g" "length g \<le> length (n_data n)" "take (length g) (vals n) = map fst g"
    "take (n_size n) (keys n) = map snd (tl g)"
    using assms(1) by (auto simp: inner_node_def)
  have j: "j < n_size n" using Suc by simp
  have v: "vals n ! j = fst (g ! j)" using sz j by (metis less_Suc_eq nth_map nth_take)
  have "keys n ! j = take (n_size n) (keys n) ! j" using j by simp
  also have "\<dots> = map snd (tl g) ! j" by (simp only: sz(4))
  finally have k: "md_key (n_data n ! j) = snd (g ! Suc j)" using sz(1,2) j by (simp add: nth_tl)
  have dr: "drop j g = g ! j # g ! Suc j # drop (Suc (Suc j)) g" "drop (Suc j) g = g ! Suc j # drop (Suc (Suc j)) g"
    using sz(1) j by (simp_all add: Cons_nth_drop_Suc)
  have IH: "\<exists>i d. child_index n key [Suc j..<n_size n] = Some i \<and> get_data n i = Some d \<and> md_value d = fst (pick key (drop (Suc j) g))"
    using Suc j by simp
  show ?case
  proof (cases "key < snd (g ! Suc j)")
    case True
    then show ?thesis using j sz v k by (auto simp: upt_conv_Cons get_data_def dr(1))
  next
    case False
    then have "snd (g ! Suc j) \<le> key" by simp
    then show ?thesis using False j sz(1,2) k IH by (simp add: upt_conv_Cons get_data_eq dr)
  qed
qed

lemma find_leaf_levels:
  assumes "levels_ok t L Gs" "sorted_wrt (<) (map snd L)"
  shows "mbptree_find_leaf t (root t) k = mbptree_find_leaf t (fst (pick k L)) k"
  using assms
proof (induction Gs arbitrary: L)
  case Nil
  then show ?case by (auto simp: map_eq_Cons_conv)
next
  case (Cons G Gs)
  have ne: "snd ag \<noteq> []" if "ag \<in> set G" for ag
    using Cons.prems(1) that by (cases ag) (auto elim!: group_okE)
  have G: "G \<noteq> []" using Cons.prems(1) levels_ok_nonempty [of t "heads G" Gs] by auto
  have L: "L = concat (map snd G)" using Cons.prems(1) by simp
  obtain g where g: "(fst (pick k (heads G)), g) \<in> set G" "pick k L = pick k g"
    using pick_groups [OF G _ ne, of k] Cons.prems(2) L by auto
  then have "group_ok t (fst (pick k (heads G)), g)" using Cons.prems(1) by auto
  then obtain n where n: "nodes t (fst (pick k (heads G))) = Some n" "inner_node (branch_factor t) g n" by (rule group_okE)
  from child_index_pick [OF n(2), of 0 k] obtain i d where
    "child_index n k [0..<n_size n] = Some i" "get_data n i = Some d" "md_value d = fst (pick k g)" by auto
  then have "mbptree_find_leaf t (fst (pick k (heads G))) k = mbptree_find_leaf t (fst (pick k L)) k"
    using n g(2) by (subst mbptree_find_leaf.simps) (simp add: inner_node_def)
  moreover have "mbptree_find_leaf t (root t) k = mbptree_find_leaf t (fst (pick k (heads G))) k"
    using Cons.IH [of "heads G"] sorted_heads [OF _ ne] Cons.prems L by auto
  ultimately show ?case by simp
qed

section \<open>The floor of a key\<close>

lemma leaf_level_sorted:
  assumes "sorted_wrt (<) (map fst (entries ls))" "\<And>l. l \<in> set ls \<Longrightarrow> snd l \<noteq> []"
  shows "sorted_wrt (<) (map snd (leaf_level ls))"
  using assms
proof (induction ls)
  case (Cons l ls)
  obtain a es where l: "l = (a, es)" "es \<noteq> []" using Cons.prems(2) [of l] by (cases l) auto
  have "fst (hd es) < fst (hd es')" if "(b, es') \<in> set ls" for b es'
  proof -
    have "hd es' \<in> set (entries ls)" using that Cons.prems(2) [of "(b, es')"] by (force simp: entries_def intro: hd_in_set)
    moreover have "hd es \<in> set es" using l by simp
    ultimately show ?thesis using Cons.prems(1) l unfolding sorted_wrt_map by (simp add: sorted_wrt_append)
  qed
  then have "\<forall>y \<in> set (leaf_level ls). fst (hd es) < snd y" by (auto simp: leaf_level_def)
  moreover have "sorted_wrt (<) (map snd (leaf_level ls))" using Cons by (auto simp: sorted_wrt_append l)
  ultimately show ?case using l by simp
qed simp

definition not_above :: "u64 \<Rightarrow> entry list \<Rightarrow> nat" where
  "not_above k es = length (takeWhile (\<lambda>e. fst e \<le> k) es)"

lemma takeWhile_append_none: "takeWhile P ys = [] \<Longrightarrow> takeWhile P (xs @ ys) = takeWhile P xs"
  by (induction xs) auto

lemma not_above_append:
  assumes "sorted_wrt (<) (map fst (xs @ ys))"
  shows "not_above k (xs @ ys) = (if ys \<noteq> [] \<and> fst (hd ys) \<le> k then length xs + not_above k ys else not_above k xs)"
proof (cases "ys \<noteq> [] \<and> fst (hd ys) \<le> k")
  case True
  then have "\<forall>x \<in> set xs. fst x \<le> k" using assms unfolding sorted_wrt_map
    by (cases ys) (auto simp: sorted_wrt_append intro: less_imp_le less_le_trans)
  then show ?thesis using True by (simp add: not_above_def takeWhile_append2)
next
  case False
  then have "takeWhile (\<lambda>e. fst e \<le> k) ys = []" by (cases ys) auto
  then have "takeWhile (\<lambda>e. fst e \<le> k) (xs @ ys) = takeWhile (\<lambda>e. fst e \<le> k) xs"
    by (rule takeWhile_append_none)
  then show ?thesis using False by (auto simp: not_above_def)
qed

text \<open>The leaf that \<open>pick\<close> selects holds the last entry that is not above the key.\<close>

lemma pick_leaf:
  assumes "ls \<noteq> []" "sorted_wrt (<) (map fst (entries ls))" "\<And>l. l \<in> set ls \<Longrightarrow> snd l \<noteq> []"
  shows "\<exists>ls1 es ls2. ls = ls1 @ (fst (pick k (leaf_level ls)), es) # ls2 \<and>
    not_above k (entries ls) = (if not_above k es = 0 then 0 else length (entries ls1) + not_above k es)"
  using assms
proof (induction ls rule: list_nonempty_induct)
  case (single l)
  obtain a es where "l = (a, es)" by (cases l)
  then show ?case by (intro exI [of _ "[]"] exI [of _ es]) simp
next
  case (cons l ls)
  obtain a es where l: "l = (a, es)" "es \<noteq> []" using cons.prems(2) [of l] by (cases l) auto
  obtain b h ls' where ls: "ls = (b, h) # ls'" "h \<noteq> []" using cons.hyps(1) cons.prems(2) by (cases ls) fastforce+
  have na: "not_above k (entries (l # ls)) =
      (if fst (hd h) \<le> k then length es + not_above k (entries ls) else not_above k es)"
    using not_above_append [of es "entries ls" k] cons.prems(1) l ls by simp
  show ?case
  proof (cases "fst (hd h) \<le> k")
    case True
    have "sorted_wrt (<) (map fst (entries ls))" using cons.prems(1) l by (simp add: sorted_wrt_append)
    with cons.IH cons.prems(2) obtain ls1 es' ls2 where
      IH: "ls = ls1 @ (fst (pick k (leaf_level ls)), es') # ls2"
      "not_above k (entries ls) = (if not_above k es' = 0 then 0 else length (entries ls1) + not_above k es')" by fastforce
    have "0 < not_above k (entries ls)" using True ls by (cases h) (auto simp: not_above_def)
    then have "not_above k (entries (l # ls)) = (if not_above k es' = 0 then 0 else length (entries (l # ls1)) + not_above k es')"
      using IH(2) na True l by (auto split: if_splits)
    moreover have "pick k (leaf_level (l # ls)) = pick k (leaf_level ls)" using True l ls by simp
    moreover have "l # ls = (l # ls1) @ (fst (pick k (leaf_level ls)), es') # ls2"
      using arg_cong [OF IH(1), of "(#) l"] by simp
    ultimately show ?thesis by metis
  next
    case False
    then show ?thesis using na l ls by (intro exI [of _ "[]"] exI [of _ es] exI [of _ ls]) auto
  qed
qed

lemma floor_index_ok:
  assumes n: "leaf_node b es x n" and srt: "sorted_wrt (<) (map fst es)" and j: "j \<le> length es"
  shows "floor_index n k idx [j..<length es] =
    Some (if not_above k (drop j es) = 0 then idx else Some (j + not_above k (drop j es) - 1))"
  using j
proof (induction "length es - j" arbitrary: j idx)
  case 0
  then show ?case by (simp add: not_above_def)
next
  case (Suc m)
  then have jl: "j < length es" by simp
  have sz: "length es < b" "length (n_data n) = b" "take (length es) (keys n) = map fst es"
    using n by (auto simp: leaf_node_def)
  have "keys n ! j = take (length es) (keys n) ! j" using jl by simp
  also have "\<dots> = map fst es ! j" by (simp only: sz(3))
  finally have key: "md_key (n_data n ! j) = fst (es ! j)" using jl sz by simp
  have dr: "drop j es = es ! j # drop (Suc j) es" using jl by (simp add: Cons_nth_drop_Suc)
  show ?case
  proof (cases "fst (es ! j) \<le> k")
    case True
    then show ?thesis
      using Suc.hyps(1) [of "Suc j" "Some j"] Suc.hyps(2) jl sz key
      by (simp add: upt_conv_Cons get_data_eq dr not_above_def)
  next
    case False
    then show ?thesis using jl sz key by (simp add: upt_conv_Cons get_data_eq dr not_above_def)
  qed
qed

section \<open>Locks\<close>

lemma cas_lock_eq [simp]: "cas_mbptree_lock l = cas_mbptree_lock l' \<longleftrightarrow> l = l'"
  by (cases l; cases l') (simp add: cas_mbptree_lock_def pack_inject)

section \<open>Iterators\<close>

text \<open>An iterator stands at position \<open>p\<close> of the contents; behind the last leaf it is invalid.\<close>

definition iter_at :: "leaves \<Rightarrow> mbptree_leaf_iterator \<Rightarrow> nat \<Rightarrow> bool" where
  "iter_at ls it p \<longleftrightarrow> (it_leaf it = 0 \<and> p = length (entries ls)) \<or>
     (\<exists>ls1 es ls2. ls = ls1 @ (it_leaf it, es) # ls2 \<and> it_idx it < length es \<and>
        p = length (entries ls1) + it_idx it)"

definition iter_null :: "mbptree \<Rightarrow> mbptree_leaf_iterator" where
  "iter_null t = \<lparr>it_branch_factor = branch_factor t, it_idx = 0, it_leaf = 0\<rparr>"

lemma tree_inv_leaf:
  assumes "tree_inv t (ls1 @ (a, es) # ls2) Gs"
  shows "\<exists>n. nodes t a = Some n \<and> leaf_node (branch_factor t) es (case ls2 of [] \<Rightarrow> 0 | (x, _) # _ \<Rightarrow> x) n" "a \<noteq> 0"
    "sorted_wrt (<) (map fst es)"
proof -
  have ch: "chain t (ls1 @ (a, es) # ls2) 0" and hp: "heap_ok t" using assms by (simp_all add: tree_inv_def)
  from ch show n: "\<exists>n. nodes t a = Some n \<and> leaf_node (branch_factor t) es (case ls2 of [] \<Rightarrow> 0 | (x, _) # _ \<Rightarrow> x) n"
    by (induction ls1) (auto elim!: leaf_atE)
  show "a \<noteq> 0" using n heap_ok_fresh(2) [OF hp, of a] by auto
  show "sorted_wrt (<) (map fst es)" using assms by (simp add: tree_inv_def sorted_wrt_append)
qed

lemma leaf_floor_unlocked:
  assumes "exclusive_lock (tree_lock t) = 0" "allocs t = []"
  shows "mbptree_leaf_floor t k = do {
     leaf \<leftarrow> mbptree_find_leaf (t\<lparr>tree_lock := (tree_lock t)\<lparr>shared_lock := shared_lock (tree_lock t) + 1\<rparr>\<rparr>) (root t) k;
     l \<leftarrow> nodes t leaf;
     idx \<leftarrow> floor_index l k None [0..<n_size l];
     Some (t, 0, Some (case idx of Some i \<Rightarrow> (iter_null t)\<lparr>it_idx := i, it_leaf := leaf\<rparr> | None \<Rightarrow> iter_null t)) }"
proof -
  have "(tree_lock t)\<lparr>exclusive_lock := 0\<rparr> = tree_lock t" using assms(1) by (cases "tree_lock t") simp
  moreover have "t\<lparr>tree_lock := (tree_lock t)\<lparr>shared_lock := shared_lock (tree_lock t) + 1 - 1\<rparr>\<rparr> = t"
    by (cases t) simp
  ultimately show ?thesis using assms(2) unfolding iter_null_def
    by (simp add: mbptree_leaf_floor_def alloc_outcome_def Let_def)
qed

lemma tree_inv_lock [simp]: "tree_inv (t\<lparr>tree_lock := l\<rparr>) ls Gs = tree_inv t ls Gs"
proof -
  have lv: "levels_ok (t\<lparr>tree_lock := l\<rparr>) L Gs = levels_ok t L Gs" for L Gs
    by (rule iffI; erule levels_ok_cong [rotated 3]) simp_all
  have ch: "chain (t\<lparr>tree_lock := l\<rparr>) ls e = chain t ls e" for ls e
    by (induction t ls e rule: chain.induct) (simp_all add: leaf_at_def split: option.split)
  show ?thesis unfolding tree_inv_def lv ch by (simp add: heap_ok_def)
qed

lemma find_leaf_ok:
  assumes inv: "tree_inv t ls Gs"
  obtains ls1 a es ls2 n where "ls = ls1 @ (a, es) # ls2" "mbptree_find_leaf t (root t) k = Some a"
    "not_above k (entries ls) = (if not_above k es = 0 then 0 else length (entries ls1) + not_above k es)"
    "nodes t a = Some n" "leaf_node (branch_factor t) es (case ls2 of [] \<Rightarrow> 0 | (x, _) # _ \<Rightarrow> x) n"
    "floor_index n k None [0..<n_size n] = Some (if not_above k es = 0 then None else Some (not_above k es - 1))"
proof -
  have lv: "levels_ok t (leaf_level ls) Gs" using inv by (simp add: tree_inv_def)
  have I: "ls \<noteq> []" "sorted_wrt (<) (map fst (entries ls))"
    "\<forall>l \<in> set ls. snd l = [] \<longrightarrow> length ls = 1" using inv by (simp_all add: tree_inv_def)
  have "\<exists>ls1 es ls2. ls = ls1 @ (fst (pick k (leaf_level ls)), es) # ls2 \<and>
    not_above k (entries ls) = (if not_above k es = 0 then 0 else length (entries ls1) + not_above k es) \<and>
    mbptree_find_leaf t (root t) k = mbptree_find_leaf t (fst (pick k (leaf_level ls))) k"
  proof (cases "\<exists>l \<in> set ls. snd l = []")
    case True
    then obtain a where a: "ls = [(a, [])]" using I(3) by (cases ls) force+
    then have "Gs = []" using lv levels_single [of t "(a, fst (hd []))" Gs] by simp
    then show ?thesis using lv a by (intro exI [of _ "[]"]) (auto simp: not_above_def)
  next
    case False
    then have "\<And>l. l \<in> set ls \<Longrightarrow> snd l \<noteq> []" by blast
    then show ?thesis using pick_leaf [OF I(1,2)] find_leaf_levels [OF lv leaf_level_sorted [OF I(2)], of k] by blast
  qed
  then obtain ls1 es ls2 a where ls: "ls = ls1 @ (a, es) # ls2"
    and na: "not_above k (entries ls) = (if not_above k es = 0 then 0 else length (entries ls1) + not_above k es)"
    and fl: "mbptree_find_leaf t (root t) k = mbptree_find_leaf t a k" by blast
  note T = tree_inv_leaf [OF inv [unfolded ls]]
  from T(1) obtain n where n: "nodes t a = Some n" "leaf_node (branch_factor t) es (case ls2 of [] \<Rightarrow> 0 | (x, _) # _ \<Rightarrow> x) n" by blast
  have "mbptree_find_leaf t a k = Some a" using n by (subst mbptree_find_leaf.simps) (simp add: leaf_node_def)
  moreover have "n_size n = length es" using n(2) by (simp add: leaf_node_def)
  ultimately show ?thesis using that [OF ls _ na n] fl floor_index_ok [OF n(2) T(3), of 0 k None] by simp
qed

theorem leaf_floor_inv:
  assumes inv: "tree_inv t ls Gs" and lk: "exclusive_lock (tree_lock t) = 0" "allocs t = []"
  shows "\<exists>it. mbptree_leaf_floor t k = Some (t, 0, Some it) \<and>
    (if not_above k (entries ls) = 0 then it = iter_null t else iter_at ls it (not_above k (entries ls) - 1))"
proof -
  have "tree_inv (t\<lparr>tree_lock := (tree_lock t)\<lparr>shared_lock := shared_lock (tree_lock t) + 1\<rparr>\<rparr>) ls Gs" (is "tree_inv ?t ls Gs")
    using inv by simp
  then obtain ls1 a es ls2 n where F: "ls = ls1 @ (a, es) # ls2" "mbptree_find_leaf ?t (root ?t) k = Some a"
    "not_above k (entries ls) = (if not_above k es = 0 then 0 else length (entries ls1) + not_above k es)"
    "nodes ?t a = Some n" "floor_index n k None [0..<n_size n] = Some (if not_above k es = 0 then None else Some (not_above k es - 1))"
    by (rule find_leaf_ok [where k = k])
  have run: "mbptree_leaf_floor t k = Some (t, 0, Some (if not_above k es = 0 then iter_null t
      else (iter_null t)\<lparr>it_idx := not_above k es - 1, it_leaf := a\<rparr>))"
    using leaf_floor_unlocked [OF lk, of k] F(2,4,5) by simp
  have "not_above k es \<le> length es" by (simp add: not_above_def length_takeWhile_le)
  then have "not_above k es \<noteq> 0 \<Longrightarrow> iter_at ls ((iter_null t)\<lparr>it_idx := not_above k es - 1, it_leaf := a\<rparr>)
      (length (entries ls1) + not_above k es - 1)"
    unfolding iter_at_def F(1) by (intro disjI2 exI [of _ ls1] exI [of _ es] exI [of _ ls2]) auto
  then show ?thesis using run F(3) by auto
qed

lemma iter_valid_null: "it_leaf it = 0 \<Longrightarrow> mbptree_leaf_iterator_valid t it = Some False"
  by (simp add: mbptree_leaf_iterator_valid_def)

lemma iter_at_inside:
  assumes inv: "tree_inv t ls Gs" and p: "iter_at ls it p" "p < length (entries ls)"
  obtains ls1 es ls2 n where "ls = ls1 @ (it_leaf it, es) # ls2" "it_idx it < length es"
    "p = length (entries ls1) + it_idx it" "nodes t (it_leaf it) = Some n" "it_leaf it \<noteq> 0"
    "leaf_node (branch_factor t) es (case ls2 of [] \<Rightarrow> 0 | (x, _) # _ \<Rightarrow> x) n"
    "entries ls ! p = es ! it_idx it"
proof -
  obtain ls1 es ls2 where ls: "ls = ls1 @ (it_leaf it, es) # ls2" "it_idx it < length es" "p = length (entries ls1) + it_idx it"
    using p by (auto simp: iter_at_def)
  note T = tree_inv_leaf [OF inv [unfolded ls(1)]]
  have "entries (ls1 @ (it_leaf it, es) # ls2) ! p = es ! it_idx it" using ls(2,3) by (simp add: nth_append)
  with T ls that show ?thesis by metis
qed

lemma iter_valid:
  assumes inv: "tree_inv t ls Gs" and p: "iter_at ls it p"
  shows "mbptree_leaf_iterator_valid t it = Some (p < length (entries ls))"
proof (cases "p < length (entries ls)")
  case True
  from inv p True show ?thesis
  proof (rule iter_at_inside)
    fix ls1 es ls2 n
    assume "it_idx it < length es" "nodes t (it_leaf it) = Some n" "it_leaf it \<noteq> 0"
      "leaf_node (branch_factor t) es (case ls2 of [] \<Rightarrow> 0 | (x, _) # _ \<Rightarrow> x) n"
    then show ?thesis using True by (simp add: mbptree_leaf_iterator_valid_def leaf_node_def)
  qed
next
  case False
  then have "it_leaf it = 0" using p by (auto simp: iter_at_def)
  then show ?thesis using False by (simp add: iter_valid_null)
qed

lemma iter_key_value:
  assumes "tree_inv t ls Gs" "iter_at ls it p" "p < length (entries ls)"
  shows "mbptree_leaf_iterator_key t it = Some (fst (entries ls ! p))"
    "mbptree_leaf_iterator_value t it = Some (snd (entries ls ! p))"
proof -
  from assms obtain ls1 es ls2 n where A0: "ls = ls1 @ (it_leaf it, es) # ls2" "it_idx it < length es"
    "p = length (entries ls1) + it_idx it" "nodes t (it_leaf it) = Some n" "it_leaf it \<noteq> 0"
    "leaf_node (branch_factor t) es (case ls2 of [] \<Rightarrow> 0 | (x, _) # _ \<Rightarrow> x) n"
    "entries ls ! p = es ! it_idx it" by (rule iter_at_inside)
  note A = A0(2,4,6,7)
  have sz: "length es < length (n_data n)" "take (length es) (keys n) = map fst es" "take (length es) (vals n) = map snd es"
    using A(3) by (auto simp: leaf_node_def)
  have "keys n ! it_idx it = take (length es) (keys n) ! it_idx it" "vals n ! it_idx it = take (length es) (vals n) ! it_idx it"
    using A(1) by simp_all
  then have "md_key (n_data n ! it_idx it) = fst (es ! it_idx it)" "md_value (n_data n ! it_idx it) = snd (es ! it_idx it)"
    unfolding sz(2,3) using A(1) sz(1) by simp_all
  then show "mbptree_leaf_iterator_key t it = Some (fst (entries ls ! p))"
    "mbptree_leaf_iterator_value t it = Some (snd (entries ls ! p))"
    using A sz(1) by (simp_all add: mbptree_leaf_iterator_key_def mbptree_leaf_iterator_value_def get_data_eq)
qed

lemma iter_next:
  assumes inv: "tree_inv t ls Gs" and p: "iter_at ls it p" "p < length (entries ls)"
  shows "\<exists>it'. mbptree_leaf_iterator_next t it = Some it' \<and> iter_at ls it' (Suc p)"
proof -
  from inv p obtain ls1 es ls2 n where A0: "ls = ls1 @ (it_leaf it, es) # ls2" "it_idx it < length es"
    "p = length (entries ls1) + it_idx it" "nodes t (it_leaf it) = Some n" "it_leaf it \<noteq> 0"
    "leaf_node (branch_factor t) es (case ls2 of [] \<Rightarrow> 0 | (x, _) # _ \<Rightarrow> x) n"
    "entries ls ! p = es ! it_idx it" by (rule iter_at_inside)
  note A = A0(1-4,6)
  have sz: "n_size n = length es" "length es < length (n_data n)" "md_value (n_data n ! length es) = (case ls2 of [] \<Rightarrow> 0 | (x, _) # _ \<Rightarrow> x)"
    using A(5) by (auto simp: leaf_node_def)
  show ?thesis
  proof (cases "Suc (it_idx it) = length es")
    case False
    then have "iter_at ls (it\<lparr>it_idx := Suc (it_idx it)\<rparr>) (Suc p)"
      using A(1-3) unfolding iter_at_def by (intro disjI2 exI [of _ ls1] exI [of _ es] exI [of _ ls2]) simp
    then show ?thesis using False A(2,4) sz by (simp add: mbptree_leaf_iterator_next_def c_assert_def)
  next
    case True
    let ?it = "it\<lparr>it_leaf := (case ls2 of [] \<Rightarrow> 0 | (x, _) # _ \<Rightarrow> x), it_idx := 0\<rparr>"
    have "iter_at ls ?it (Suc p)"
    proof (cases ls2)
      case Nil
      then show ?thesis using A(1,3) True by (simp add: iter_at_def)
    next
      case (Cons l2 ls3)
      obtain x es2 where l2: "l2 = (x, es2)" by (cases l2)
      have "es2 \<noteq> []" using inv A(1) Cons l2 by (auto simp: tree_inv_def)
      then show ?thesis using A(1,3) True Cons l2 unfolding iter_at_def
        by (intro disjI2 exI [of _ "ls1 @ [(it_leaf it, es)]"] exI [of _ es2] exI [of _ ls3]) simp
    qed
    then show ?thesis using True A(4) sz by (simp add: mbptree_leaf_iterator_next_def c_assert_def get_data_eq)
  qed
qed

text \<open>A client that walks with the iterator until it is no longer valid.\<close>

partial_function (option) iter_collect :: "mbptree \<Rightarrow> mbptree_leaf_iterator \<Rightarrow> entry list option" where
  "iter_collect t it = do {
     v \<leftarrow> mbptree_leaf_iterator_valid t it;
     if \<not> v then Some [] else do {
       k \<leftarrow> mbptree_leaf_iterator_key t it;
       x \<leftarrow> mbptree_leaf_iterator_value t it;
       it \<leftarrow> mbptree_leaf_iterator_next t it;
       rest \<leftarrow> iter_collect t it;
       Some ((k, x) # rest) } }"

declare iter_collect.simps [code]

lemma iter_collect_at:
  assumes "tree_inv t ls Gs" "iter_at ls it p" "p \<le> length (entries ls)"
  shows "iter_collect t it = Some (drop p (entries ls))"
  using assms(2,3)
proof (induction "length (entries ls) - p" arbitrary: it p)
  case 0
  then show ?case using iter_valid [OF assms(1) 0(2)] by (subst iter_collect.simps) simp
next
  case (Suc m)
  then have p: "p < length (entries ls)" by simp
  from iter_next [OF assms(1) Suc.prems(1) p] obtain it' where
    it': "mbptree_leaf_iterator_next t it = Some it'" "iter_at ls it' (Suc p)" by blast
  have "iter_collect t it' = Some (drop (Suc p) (entries ls))" using Suc it'(2) p by simp
  then show ?case
    using iter_valid [OF assms(1) Suc.prems(1)] iter_key_value [OF assms(1) Suc.prems(1) p] it'(1) p
    by (subst iter_collect.simps) (simp add: Cons_nth_drop_Suc)
qed

end
