(* ===== verification/Mbptree_Theorems.thy ===== *)
theory Mbptree_Theorems
  imports Mbptree_Search
begin

text \<open>
  The properties of the tree (\<^verbatim>\<open>src/src/mbptree.c\<close>), stated over the operations of its
  clients: the tree is an ordered index that grows at its upper end. The witnesses run on
  trees with branching factor 3, the smallest one the code works with.
\<close>

section \<open>The tree as an ordered index\<close>

definition index_rep :: "mbptree \<Rightarrow> entry list \<Rightarrow> bool" where
  "index_rep t es \<longleftrightarrow> tree_rep t es \<and> tree_lock t = unlocked \<and> allocs t = []"

text \<open>A client that looks up a key: the floor iterator, and the entry it stands at when it is valid.\<close>

definition tree_lookup :: "mbptree \<Rightarrow> u64 \<Rightarrow> (mbptree \<times> int \<times> entry option) option" where
  "tree_lookup t k = do {
     (t, rc, it) \<leftarrow> mbptree_leaf_floor t k;
     case it of None \<Rightarrow> Some (t, rc, None) | Some it \<Rightarrow> do {
       v \<leftarrow> mbptree_leaf_iterator_valid t it;
       if \<not> v then Some (t, rc, None) else do {
         key \<leftarrow> mbptree_leaf_iterator_key t it;
         x \<leftarrow> mbptree_leaf_iterator_value t it;
         Some (t, rc, Some (key, x)) } } }"

lemma tree_rep_lock [simp]: "tree_rep (t\<lparr>tree_lock := l\<rparr>) es = tree_rep t es"
  by (simp add: tree_rep_def)

lemma tree_rep_sorted: "tree_rep t es \<Longrightarrow> sorted_wrt (<) (map fst es)"
  by (auto simp: tree_rep_def tree_inv_def)

lemma append_rep:
  assumes "index_rep t es"
  shows "if key_above es k
    then \<exists>t'. mbptree_append t k v = Some (t', 0) \<and> index_rep t' (es @ [(k, v)]) \<and> branch_factor t' = branch_factor t
    else mbptree_append t k v = Some (t, ELIDXNM)"
proof -
  have t: "tree_rep t es" "tree_lock t = unlocked" "allocs t = []" using assms by (simp_all add: index_rep_def)
  have same: "t\<lparr>tree_lock := unlocked\<rparr> = t" using t(2) by (cases t) simp
  have R: "tree_rep (t\<lparr>tree_lock := l\<rparr>) es" for l using t(1) by simp
  have A: "allocs (t\<lparr>tree_lock := l\<rparr>) = []" for l using t(3) by simp
  let ?l = "\<lparr>exclusive_lock = 1, shared_lock = 0\<rparr>"
  show ?thesis using tryappend_rep [OF R A, of k ?l v] t(2) same
    by (fastforce simp: mbptree_append_def index_rep_def unlocked_def)
qed

lemma last_value_rep:
  assumes "tree_rep t es"
  shows "mbptree_last_value t = Some (if es = [] then (- 1, None) else (0, Some (snd (last es))))"
proof -
  from assms obtain ls Gs where inv: "tree_inv t ls Gs" and es: "es = entries ls" by (auto simp: tree_rep_def)
  from inv obtain li a el where A: "ls = li @ [(a, el)]" "last_leaf t = a" "leaf_at t a el 0" by (rule tree_invE)
  from A(3) obtain l where l: "nodes t a = Some l" "leaf_node (branch_factor t) el 0 l" by (rule leaf_atE)
  have "el = [] \<Longrightarrow> es = []" using tree_inv_snocD(10) [OF inv [unfolded A(1)]] by (simp add: es A(1))
  moreover have "el \<noteq> [] \<Longrightarrow> last es = last el" by (simp add: es A(1))
  moreover have "n_size l = length el" using l(2) by (simp add: leaf_node_def)
  ultimately show ?thesis using leaf_last_data [OF l(2)] l(1) A(2)
    by (cases "el = []") (auto simp: mbptree_last_value_def es A(1))
qed

lemma takeWhile_filter_sorted: "sorted_wrt (<) (map fst es) \<Longrightarrow> takeWhile (\<lambda>e. fst e \<le> (k :: u64)) es = filter (\<lambda>e. fst e \<le> k) es"
proof (induction es)
  case (Cons e es)
  then have "\<not> fst e \<le> k \<Longrightarrow> filter (\<lambda>e. fst e \<le> k) es = []" by (auto simp: filter_empty_conv)
  then show ?case using Cons by simp
qed simp

lemma floor_entry_nth:
  assumes "sorted_wrt (<) (map fst es)"
  shows "floor_entry k es = (if not_above k es = 0 then None else Some (es ! (not_above k es - 1)))"
    "not_above k es \<le> length es"
proof -
  let ?w = "takeWhile (\<lambda>e. fst e \<le> k) es"
  show "not_above k es \<le> length es" by (simp add: not_above_def length_takeWhile_le)
  have "last ?w = es ! (length ?w - 1)" if "?w \<noteq> []"
    using that takeWhile_nth [of "length ?w - 1" "\<lambda>e. fst e \<le> k" es] by (simp add: last_conv_nth)
  then show "floor_entry k es = (if not_above k es = 0 then None else Some (es ! (not_above k es - 1)))"
    unfolding floor_entry_def not_above_def takeWhile_filter_sorted [OF assms, symmetric] by (auto simp: Let_def)
qed

lemma sorted_drop_filter:
  assumes "sorted_wrt (<) (map fst es)" "i < length es"
  shows "drop i es = filter (\<lambda>x. fst (es ! i) \<le> (fst x :: u64)) es"
proof -
  have split: "es = take i es @ es ! i # drop (Suc i) es" using assms(2) by (simp add: id_take_nth_drop)
  then have s: "sorted_wrt (<) (map fst (take i es @ es ! i # drop (Suc i) es))" using assms(1) by simp
  have "filter (\<lambda>x. fst (es ! i) \<le> fst x) (take i es) = []"
    using s by (fastforce simp: filter_empty_conv sorted_wrt_append)
  moreover have "filter (\<lambda>x. fst (es ! i) \<le> fst x) (drop (Suc i) es) = drop (Suc i) es"
    using s by (fastforce simp: filter_id_conv sorted_wrt_append)
  moreover have "filter P es = filter P (take i es) @ (if P (es ! i) then [es ! i] else []) @ filter P (drop (Suc i) es)" for P
    by (subst split) simp
  ultimately show ?thesis using assms(2) by (simp add: Cons_nth_drop_Suc)
qed

lemma lookup_rep:
  assumes "tree_rep t es" "exclusive_lock (tree_lock t) = 0" "allocs t = []"
  shows "tree_lookup t k = Some (t, 0, floor_entry k es)"
proof -
  from assms(1) obtain ls Gs where inv: "tree_inv t ls Gs" and es: "es = entries ls" by (auto simp: tree_rep_def)
  note F = floor_entry_nth [OF tree_rep_sorted [OF assms(1)], of k]
  from leaf_floor_inv [OF inv assms(2,3), of k, folded es] obtain it where
    fl: "mbptree_leaf_floor t k = Some (t, 0, Some it)"
    and it: "if not_above k es = 0 then it = iter_null t else iter_at ls it (not_above k es - 1)" by blast
  show ?thesis
  proof (cases "not_above k es = 0")
    case True
    then have "mbptree_leaf_iterator_valid t it = Some False" using it by (intro iter_valid_null) (simp add: iter_null_def)
    then show ?thesis using True F fl by (simp add: tree_lookup_def)
  next
    case False
    then have at: "iter_at ls it (not_above k es - 1)" and lt: "not_above k es - 1 < length (entries ls)"
      using it F(2) by (simp_all add: es)
    show ?thesis using iter_valid [OF inv at] iter_key_value [OF inv at lt] lt fl F(1) False
      by (simp add: tree_lookup_def es)
  qed
qed

text \<open>The steps of a client that looks up a key.\<close>

lemma lookup_steps:
  assumes "tree_rep t es" "exclusive_lock (tree_lock t) = 0" "allocs t = []"
  obtains it where "mbptree_leaf_floor t k = Some (t, 0, Some it)"
    "case floor_entry k es of None \<Rightarrow> mbptree_leaf_iterator_valid t it = Some False
     | Some (x, v) \<Rightarrow> mbptree_leaf_iterator_valid t it = Some True \<and>
         mbptree_leaf_iterator_key t it = Some x \<and> mbptree_leaf_iterator_value t it = Some v"
proof -
  from assms(1) obtain ls Gs where inv: "tree_inv t ls Gs" by (auto simp: tree_rep_def)
  from leaf_floor_inv [OF inv assms(2,3)] obtain it where
    fl: "mbptree_leaf_floor t k = Some (t, 0, Some it)" by blast
  show ?thesis using lookup_rep [OF assms, of k] fl
    by (intro that [OF fl]) (auto simp: tree_lookup_def bind_eq_Some_conv split: if_splits option.splits prod.splits)
qed

interpretation ix: ordered_index mbptree_append mbptree_last_value tree_lookup index_rep
proof unfold_locales
  fix t es k v
  assume r: "index_rep t es"
  show "sorted_wrt (<) (map fst es)" using r tree_rep_sorted [of t es] by (simp add: index_rep_def)
  show "key_above es k \<Longrightarrow> \<exists>t'. mbptree_append t k v = Some (t', 0) \<and> index_rep t' (es @ [(k, v)])"
    "\<not> key_above es k \<Longrightarrow> mbptree_append t k v = Some (t, ELIDXNM)"
    using append_rep [OF r, of k v] by auto
  show "mbptree_last_value t = Some (if es = [] then (- 1, None) else (0, Some (snd (last es))))"
    using r last_value_rep by (simp add: index_rep_def)
  show "tree_lookup t k = Some (t, 0, floor_entry k es)"
    using r lookup_rep by (simp add: index_rep_def unlocked_def)
qed

section \<open>A new tree\<close>

lemma init_rep:
  assumes "3 \<le> bf"
  shows "\<exists>t. mbptree_init [] bf = Some (Some t) \<and> index_rep t [] \<and> branch_factor t = bf"
proof -
  define n where "n = fresh_leaf bf 0"
  define t where "t = \<lparr>branch_factor = bf, tree_lock = unlocked, root = 1, last_leaf = 1,
    nodes = [1 \<mapsto> n], next_addr = 2, allocs = []\<rparr>"
  have run: "mbptree_init [] bf = Some (Some t)"
    by (simp add: mbptree_init_def alloc_outcome_def mbptree_create_leaf_def mbptree_create_node_def
      set_node_def t_def n_def fresh_leaf_def fresh_inner_def numeral_2_eq_2)
  have n: "leaf_node bf [] 0 n" "n_parent n = 0"
    using fresh_leaf_node [of bf 0] assms by (simp_all add: n_def) (simp add: fresh_leaf_def fresh_inner_def)
  have "tree_inv t [(1, [])] []"
    using n assms by (auto simp: tree_inv_def t_def heap_ok_def leaf_at_def node_parent_def)
  then have "tree_rep t []" unfolding tree_rep_def by (intro exI [of _ "[(1, [])]"]) auto
  then show ?thesis using run by (auto simp: index_rep_def t_def)
qed


lemma index_rep_keeps: "index_rep t es \<Longrightarrow> mbptree_append t k v = Some (t', rc) \<Longrightarrow> \<exists>es'. index_rep t' es'"
  using append_rep [of t es k v] by (auto split: if_splits)

section \<open>Properties\<close>

text \<open>C12. Appending to an unlocked tree that holds the entries \<open>es\<close>: a key above the greatest one
  is added as the last entry, whatever splits of leaves, inner nodes and the root this takes,
  and any other key is refused with \<open>ELIDXNM\<close> without a change. The lock is free again.\<close>

theorem mbptree_append_extends:
  assumes "tree_rep t es" "tree_lock t = unlocked" "allocs t = []"
  shows "if es = [] \<or> fst (last es) < k
    then \<exists>t'. mbptree_append t k v = Some (t', 0) \<and> tree_rep t' (es @ [(k, v)]) \<and>
      tree_lock t' = unlocked \<and> allocs t' = [] \<and> branch_factor t' = branch_factor t
    else mbptree_append t k v = Some (t, ELIDXNM)"
  using append_rep [of t es k v] assms by (auto simp: index_rep_def key_above_def split: if_splits)

definition demo_tree :: "entry list \<Rightarrow> mbptree option" where
  "demo_tree es = do {
     r \<leftarrow> mbptree_init [] 3;
     t \<leftarrow> r;
     (t, _) \<leftarrow> add_all mbptree_append t es;
     Some t }"

lemma demo_tree_rep:
  assumes "sorted_wrt (<) (map fst es)"
  obtains t where "demo_tree es = Some t" "index_rep t es"
proof -
  obtain t0 where "mbptree_init [] 3 = Some (Some t0)" "index_rep t0 []" using init_rep [of 3] by auto
  with ix.add_all_rep [of t0 "[]" es] assms that show ?thesis by (auto simp: demo_tree_def)
qed

theorem mbptree_append_extends_witness:
  "\<exists>t t'. demo_tree [(1, 10), (2, 20), (3, 30), (4, 40), (5, 50), (6, 60), (7, 70)] = Some t \<and>
     mbptree_append t 9 90 = Some (t', 0) \<and>
     tree_rep t' [(1, 10), (2, 20), (3, 30), (4, 40), (5, 50), (6, 60), (7, 70), (9, 90)]"
proof -
  obtain t where t: "demo_tree [(1, 10), (2, 20), (3, 30), (4, 40), (5, 50), (6, 60), (7, 70)] = Some t"
    "index_rep t [(1, 10), (2, 20), (3, 30), (4, 40), (5, 50), (6, 60), (7, 70)]"
    using demo_tree_rep [of "[(1, 10), (2, 20), (3, 30), (4, 40), (5, 50), (6, 60), (7, 70)]"] by auto
  then have "tree_rep t [(1, 10), (2, 20), (3, 30), (4, 40), (5, 50), (6, 60), (7, 70)]"
    "tree_lock t = unlocked" "allocs t = []" by (simp_all add: index_rep_def)
  from mbptree_append_extends [OF this, of 9 90] t(1) show ?thesis by auto
qed

text \<open>C13. \<open>mbptree_leaf_floor\<close> on a tree without a writer returns an iterator at the entry with
  the greatest key that is not above the given one, and an invalid iterator when there is
  none; the tree is unchanged.\<close>

theorem mbptree_floor_greatest:
  assumes "tree_rep t es" "exclusive_lock (tree_lock t) = 0" "allocs t = []"
  shows "\<exists>it. mbptree_leaf_floor t k = Some (t, 0, Some it) \<and>
    (if filter (\<lambda>e. fst e \<le> k) es = [] then mbptree_leaf_iterator_valid t it = Some False
     else mbptree_leaf_iterator_valid t it = Some True \<and>
       mbptree_leaf_iterator_key t it = Some (fst (last (filter (\<lambda>e. fst e \<le> k) es))) \<and>
       mbptree_leaf_iterator_value t it = Some (snd (last (filter (\<lambda>e. fst e \<le> k) es))))"
proof -
  from lookup_steps [OF assms, of k] obtain it where fl: "mbptree_leaf_floor t k = Some (t, 0, Some it)"
    and it: "case floor_entry k es of None \<Rightarrow> mbptree_leaf_iterator_valid t it = Some False
     | Some (x, v) \<Rightarrow> mbptree_leaf_iterator_valid t it = Some True \<and>
         mbptree_leaf_iterator_key t it = Some x \<and> mbptree_leaf_iterator_value t it = Some v" .
  show ?thesis using fl it
    by (intro exI [of _ it]) (auto simp: floor_entry_def Let_def split: if_splits prod.splits)
qed

theorem mbptree_floor_greatest_witness:
  "\<exists>t it. demo_tree [(1, 10), (3, 30), (5, 50), (7, 70)] = Some t \<and>
     mbptree_leaf_floor t 6 = Some (t, 0, Some it) \<and> mbptree_leaf_iterator_value t it = Some 50"
proof -
  obtain t where t: "demo_tree [(1, 10), (3, 30), (5, 50), (7, 70)] = Some t"
    "index_rep t [(1, 10), (3, 30), (5, 50), (7, 70)]" using demo_tree_rep [of "[(1, 10), (3, 30), (5, 50), (7, 70)]"] by auto
  then have "tree_rep t [(1, 10), (3, 30), (5, 50), (7, 70)]"
    "exclusive_lock (tree_lock t) = 0" "allocs t = []" by (simp_all add: index_rep_def unlocked_def)
  from mbptree_floor_greatest [OF this, of 6] t(1) show ?thesis by auto
qed

text \<open>C15. From the iterator that \<open>mbptree_leaf_floor\<close> returns for a key, the loop over
  \<open>valid\<close>, \<open>key\<close>, \<open>value\<close> and \<open>next\<close> ends, after running through all entries from the floor
  entry to the greatest key, in order; from an invalid iterator it yields nothing.\<close>

theorem mbptree_iterator_enumerates:
  assumes "tree_rep t es" "exclusive_lock (tree_lock t) = 0" "allocs t = []"
  shows "\<exists>it. mbptree_leaf_floor t k = Some (t, 0, Some it) \<and>
    iter_collect t it = Some (case floor_entry k es of None \<Rightarrow> [] | Some e \<Rightarrow> filter (\<lambda>x. fst e \<le> fst x) es)"
proof -
  from assms(1) obtain ls Gs where inv: "tree_inv t ls Gs" and es: "es = entries ls" by (auto simp: tree_rep_def)
  note srt = tree_rep_sorted [OF assms(1)]
  note F = floor_entry_nth [OF srt, of k]
  from leaf_floor_inv [OF inv assms(2,3), of k, folded es] obtain it where
    fl: "mbptree_leaf_floor t k = Some (t, 0, Some it)"
    and it: "if not_above k es = 0 then it = iter_null t else iter_at ls it (not_above k es - 1)" by blast
  have "iter_collect t it = Some (case floor_entry k es of None \<Rightarrow> [] | Some e \<Rightarrow> filter (\<lambda>x. fst e \<le> fst x) es)"
  proof (cases "not_above k es = 0")
    case True
    then have "mbptree_leaf_iterator_valid t it = Some False" using it by (intro iter_valid_null) (simp add: iter_null_def)
    then show ?thesis using True F by (subst iter_collect.simps) simp
  next
    case False
    then have "iter_collect t it = Some (drop (not_above k es - 1) es)"
      using iter_collect_at [OF inv] it F(2) es by simp
    then show ?thesis using False F sorted_drop_filter [OF srt, of "not_above k es - 1"] by simp
  qed
  with fl show ?thesis by blast
qed

theorem mbptree_iterator_enumerates_witness:
  "\<exists>t it. demo_tree [(1, 10), (3, 30), (5, 50), (7, 70)] = Some t \<and>
     mbptree_leaf_floor t 4 = Some (t, 0, Some it) \<and> iter_collect t it = Some [(3, 30), (5, 50), (7, 70)]"
proof -
  obtain t where t: "demo_tree [(1, 10), (3, 30), (5, 50), (7, 70)] = Some t"
    "index_rep t [(1, 10), (3, 30), (5, 50), (7, 70)]" using demo_tree_rep [of "[(1, 10), (3, 30), (5, 50), (7, 70)]"] by auto
  then have "tree_rep t [(1, 10), (3, 30), (5, 50), (7, 70)]"
    "exclusive_lock (tree_lock t) = 0" "allocs t = []" by (simp_all add: index_rep_def unlocked_def)
  from mbptree_iterator_enumerates [OF this, of 4] t(1) show ?thesis by (auto simp: floor_entry_def word_le_nat_alt)
qed

text \<open>C16. A tree made by \<open>mbptree_init\<close> with a branching factor of at least 3 takes any
  sequence of entries with increasing keys. The last value is then that of the last entry, and
  a lookup with any key from that of an entry up to the next one finds this entry.\<close>

theorem mbptree_build_and_search:
  assumes "3 \<le> bf" "sorted_wrt (<) (map fst (es @ (k, v) # fs))" "k \<le> x" "fs = [] \<or> x < fst (hd fs)"
  shows "\<exists>t0 t. mbptree_init [] bf = Some (Some t0) \<and>
    add_all mbptree_append t0 (es @ (k, v) # fs) = Some (t, replicate (length es + 1 + length fs) 0) \<and>
    mbptree_last_value t = Some (0, Some (snd (last ((k, v) # fs)))) \<and>
    tree_lookup t x = Some (t, 0, Some (k, v))"
proof -
  from init_rep [OF assms(1)] obtain t0 where t0: "mbptree_init [] bf = Some (Some t0)" "index_rep t0 []" by blast
  from ix.add_all_rep [OF t0(2), of "es @ (k, v) # fs"] assms(2) obtain t where
    t: "add_all mbptree_append t0 (es @ (k, v) # fs) = Some (t, replicate (length es + 1 + length fs) 0)"
      "index_rep t (es @ (k, v) # fs)" by auto
  show ?thesis using t0(1) t(1) ix.last_val [OF t(2)] ix.lookup_between [OF t(2) assms(3,4)]
    by (intro exI [of _ t0] exI [of _ t]) (simp del: append.simps)
qed

theorem mbptree_build_and_search_witness:
  "\<exists>t0 t. mbptree_init [] 7 = Some (Some t0) \<and>
     add_all mbptree_append t0 [(0, 8), (10, 9), (25, 11)] = Some (t, [0, 0, 0]) \<and>
     tree_lookup t 24 = Some (t, 0, Some (10, 9))"
  using mbptree_build_and_search [of 7 "[(0, 8)]" 10 9 "[(25, 11)]" 24] by (auto simp del: add_all.simps)

text \<open>C17. A tree on which any lock is held refuses an append with \<open>ELIDXLK\<close>, and a tree that is
  being appended to refuses \<open>mbptree_leaf_floor\<close> with \<open>ELIDXLK\<close>; the tree is unchanged.\<close>

theorem mbptree_locks:
  "(tree_lock t \<noteq> unlocked \<longrightarrow> mbptree_append t k v = Some (t, ELIDXLK)) \<and>
   (exclusive_lock (tree_lock t) \<noteq> 0 \<and> allocs t = [] \<longrightarrow> mbptree_leaf_floor t k = Some (t, ELIDXLK, None))"
proof (intro conjI impI)
  assume "tree_lock t \<noteq> unlocked"
  then show "mbptree_append t k v = Some (t, ELIDXLK)" by (simp add: mbptree_append_def unlocked_def)
next
  assume a: "exclusive_lock (tree_lock t) \<noteq> 0 \<and> allocs t = []"
  then have "tree_lock t \<noteq> (tree_lock t)\<lparr>exclusive_lock := 0\<rparr>" by (cases "tree_lock t") simp
  then show "mbptree_leaf_floor t k = Some (t, ELIDXLK, None)"
    using a by (simp add: mbptree_leaf_floor_def alloc_outcome_def Let_def)
qed

theorem mbptree_locks_witness:
  "\<exists>t. demo_tree [(1, 10)] = Some t \<and>
     mbptree_append (t\<lparr>tree_lock := \<lparr>exclusive_lock = 0, shared_lock = 2\<rparr>\<rparr>) 5 50 =
       Some (t\<lparr>tree_lock := \<lparr>exclusive_lock = 0, shared_lock = 2\<rparr>\<rparr>, ELIDXLK) \<and>
     mbptree_leaf_floor (t\<lparr>tree_lock := \<lparr>exclusive_lock = 1, shared_lock = 0\<rparr>\<rparr>) 1 =
       Some (t\<lparr>tree_lock := \<lparr>exclusive_lock = 1, shared_lock = 0\<rparr>\<rparr>, ELIDXLK, None)"
proof -
  obtain t where t: "demo_tree [(1, 10)] = Some t" "index_rep t [(1, 10)]" using demo_tree_rep [of "[(1, 10)]"] by auto
  then have "allocs t = []" by (simp add: index_rep_def)
  then show ?thesis using t(1)
      mbptree_locks [of "t\<lparr>tree_lock := \<lparr>exclusive_lock = 0, shared_lock = 2\<rparr>\<rparr>" 5 50]
      mbptree_locks [of "t\<lparr>tree_lock := \<lparr>exclusive_lock = 1, shared_lock = 0\<rparr>\<rparr>" 1]
    by (simp add: unlocked_def)
qed

text \<open>The trees that clients can make, as long as no allocation fails.\<close>

inductive mbptree_reachable :: "nat \<Rightarrow> mbptree \<Rightarrow> bool" for bf :: nat where
  init: "mbptree_init [] bf = Some (Some t) \<Longrightarrow> mbptree_reachable bf t"
| append: "mbptree_reachable bf t \<Longrightarrow> mbptree_append t k v = Some (t', rc) \<Longrightarrow> mbptree_reachable bf t'"
| floor: "mbptree_reachable bf t \<Longrightarrow> mbptree_leaf_floor t k = Some (t', rc, it) \<Longrightarrow> mbptree_reachable bf t'"

lemma reachable_rep: "mbptree_reachable bf t \<Longrightarrow> 3 \<le> bf \<Longrightarrow> (\<exists>es. index_rep t es) \<and> branch_factor t = bf"
proof (induction rule: mbptree_reachable.induct)
  case (init t)
  then show ?case using init_rep [of bf] by auto
next
  case (append t k v t' rc)
  then obtain es where "index_rep t es" by blast
  from append_rep [OF this, of k v] append show ?case by (auto split: if_splits)
next
  case (floor t k t' rc it)
  then obtain es where es: "index_rep t es" by blast
  with ix.lookup_floor [OF es, of k] floor.hyps(2) have "t' = t"
    by (auto simp: tree_lookup_def bind_eq_Some_conv split: option.splits if_splits)
  then show ?case using es floor by blast
qed

text \<open>Every node of a tree has an array of \<open>branch_factor\<close> elements and uses fewer of them.\<close>

lemma levels_group:
  "levels_ok t L Gs \<Longrightarrow> a \<in> set (addrs Gs) \<Longrightarrow> \<exists>g. group_ok t (a, g)"
  by (induction t L Gs rule: levels_ok.induct) auto

lemma tree_node_size:
  assumes inv: "tree_inv t ls Gs" and n: "nodes t a = Some n"
  shows "n_size n < branch_factor t \<and> length (n_data n) = branch_factor t"
proof (cases "a \<in> fst ` set ls")
  case True
  then obtain es ls1 ls2 where "ls = ls1 @ (a, es) # ls2" by (auto dest: split_list)
  with inv n show ?thesis using tree_inv_leaf(1) [of t ls1 a es ls2 Gs] by (auto simp: leaf_node_def)
next
  case False
  then have "a \<in> set (addrs Gs)" "levels_ok t (leaf_level ls) Gs" using inv n by (auto simp: tree_inv_def)
  with n levels_group obtain g where "inner_node (branch_factor t) g n" by (metis group_okE option.inject)
  then show ?thesis by (auto simp: inner_node_def)
qed

text \<open>A client's value of 64 bits comes back as it was.\<close>

lemma value_u64_of [simp]: "value_u64 (of_u64 x) = x" "value_u32 (of_u64 x) = ucast x" "of_u64 x < 2 ^ 64"
  using unsigned_less [of x, where ?'a = nat] by (simp_all add: value_u64_def value_u32_def of_u64_def)

lemma append_last_u64:
  assumes "index_rep t es" "key_above es k"
  shows "\<exists>t' v. mbptree_append t k (of_u64 x) = Some (t', 0) \<and> mbptree_last_value t' = Some (0, Some v) \<and> value_u64 v = x"
  using ix.add_above [OF assms, of "of_u64 x"] ix.last_val by fastforce

text \<open>C14. Whatever a client appends to a tree with a branching factor of at least 3 and searches in it, while
  no allocation fails, the tree keeps its invariant: the nodes form
  levels whose groups agree with the keys and the parent pointers, the leaves are chained and
  full but for the last, no node is lost or shared, every node uses fewer elements of its array than there are, and
  the keys of the entries increase from
  the first leaf to the last. So the next \<open>mbptree_append\<close>, \<open>mbptree_leaf_floor\<close> or \<open>mbptree_last_value\<close> does not
  fail an assertion, follow a bad pointer or leave an array.\<close>

theorem mbptree_reachable_inv:
  assumes "mbptree_reachable bf t" "3 \<le> bf"
  shows "\<exists>ls Gs. tree_inv t ls Gs \<and> sorted_wrt (<) (map fst (entries ls)) \<and>
    (\<forall>a n. nodes t a = Some n \<longrightarrow> n_size n < bf \<and> length (n_data n) = bf) \<and>
    mbptree_append t k v \<noteq> None \<and> mbptree_leaf_floor t k \<noteq> None \<and> mbptree_last_value t \<noteq> None"
proof -
  from reachable_rep [OF assms] obtain es where es: "index_rep t es" and bf: "branch_factor t = bf" by blast
  then obtain ls Gs where inv: "tree_inv t ls Gs" by (auto simp: index_rep_def tree_rep_def)
  have "mbptree_append t k v \<noteq> None" using append_rep [OF es, of k v] by (auto split: if_splits)
  moreover have "mbptree_leaf_floor t k \<noteq> None"
    using ix.lookup_floor [OF es, of k] by (auto simp: tree_lookup_def bind_eq_Some_conv)
  moreover have "\<forall>a n. nodes t a = Some n \<longrightarrow> n_size n < bf \<and> length (n_data n) = bf"
    using tree_node_size [OF inv] bf by blast
  moreover have "sorted_wrt (<) (map fst (entries ls))" using inv by (simp add: tree_inv_def)
  ultimately show ?thesis using inv ix.last_val [OF es] by auto
qed

theorem mbptree_reachable_inv_witness:
  "\<exists>t t' ls Gs. demo_tree [] = Some t \<and> mbptree_append t 1 10 = Some (t', 0) \<and> tree_inv t' ls Gs"
proof -
  obtain t where t: "demo_tree [] = Some t" "index_rep t []" using demo_tree_rep [of "[]"] by auto
  then have i: "mbptree_init [] 3 = Some (Some t)" by (auto simp: demo_tree_def bind_eq_Some_conv)
  from append_rep [OF t(2), of 1 10] obtain t' where a: "mbptree_append t 1 10 = Some (t', 0)" by (auto simp: key_above_def)
  have "mbptree_reachable 3 t'" using a i mbptree_reachable.intros by blast
  from mbptree_reachable_inv [OF this, of 0 0] a t(1) show ?thesis by auto
qed

end
