(* ===== verification/Mbptree_Failures.thy ===== *)
theory Mbptree_Failures
  imports Mbptree_Theorems
begin

text \<open>
  Appending to the tree (\<^verbatim>\<open>src/src/mbptree.c\<close>) when memory cannot be allocated. The leaves
  but the last are full, so the number of entries tells whether an append
  needs a new leaf.
\<close>

section \<open>Trees that differ in their allocator only\<close>

lemma tree_rep_alloc:
  assumes "tree_rep t es" "next_addr t \<le> m"
  shows "tree_rep (t\<lparr>next_addr := m, allocs := bs\<rparr>) es"
proof -
  let ?t = "t\<lparr>next_addr := m, allocs := bs\<rparr>"
  have lv: "levels_ok t L Gs \<Longrightarrow> levels_ok ?t L Gs" for L Gs
    by (erule levels_ok_cong [rotated 3]) simp_all
  have ch: "chain ?t ls e = chain t ls e" for ls e
    by (induction t ls e rule: chain.induct) (simp_all add: leaf_at_def split: option.split)
  from assms(1) obtain ls Gs where inv: "tree_inv t ls Gs" and es: "es = entries ls" by (auto simp: tree_rep_def)
  have "heap_ok t" using inv by (simp add: tree_inv_def)
  then have "heap_ok ?t" using assms(2) unfolding heap_ok_def by (simp, meson order_less_le_trans)
  then have "tree_inv ?t ls Gs" using inv lv [of "leaf_level ls" Gs] unfolding tree_inv_def ch by simp
  then show ?thesis using es by (auto simp: tree_rep_def)
qed

lemma length_entries:
  assumes "tree_inv t (li @ [(a, el)]) Gs"
  shows "length (entries (li @ [(a, el)])) = (branch_factor t - 1) * length li + length el"
proof -
  have "map length (map snd li) = replicate (length li) (branch_factor t - 1)"
    using tree_inv_snocD(9) [OF assms] by (intro nth_equalityI) auto
  then show ?thesis by (simp add: entries_def length_concat sum_list_replicate mult.commute)
qed

text \<open>When the last leaf is full.\<close>

lemma full_leaf:
  assumes inv: "tree_inv t (li @ [(a, el)]) Gs"
  shows "length el = branch_factor t - 1 \<longleftrightarrow>
      entries (li @ [(a, el)]) \<noteq> [] \<and> (branch_factor t - 1) dvd length (entries (li @ [(a, el)]))"
    and "length el = branch_factor t - 1 \<Longrightarrow> li = [] \<longleftrightarrow> length (entries (li @ [(a, el)])) = branch_factor t - 1"
proof -
  note I = tree_inv_snocD [OF inv]
  have b: "2 \<le> branch_factor t - 1" using I(5) by simp
  have le: "length el \<le> branch_factor t - 1" using I(2) by (auto elim!: leaf_atE simp: leaf_node_def)
  have len: "length (entries (li @ [(a, el)])) = (branch_factor t - 1) * length li + length el" by (rule length_entries [OF inv])
  show "length el = branch_factor t - 1 \<longleftrightarrow>
      entries (li @ [(a, el)]) \<noteq> [] \<and> (branch_factor t - 1) dvd length (entries (li @ [(a, el)]))"
  proof
    assume A: "length el = branch_factor t - 1"
    then have "length (entries (li @ [(a, el)])) = (branch_factor t - 1) * Suc (length li)" unfolding len by simp
    moreover have "entries (li @ [(a, el)]) \<noteq> []" using A b by auto
    ultimately show "entries (li @ [(a, el)]) \<noteq> [] \<and> (branch_factor t - 1) dvd length (entries (li @ [(a, el)]))" by simp
  next
    assume A: "entries (li @ [(a, el)]) \<noteq> [] \<and> (branch_factor t - 1) dvd length (entries (li @ [(a, el)]))"
    then have "(branch_factor t - 1) dvd length el" unfolding len by (simp add: dvd_add_right_iff)
    moreover have "el \<noteq> []" using A I(10) by auto
    ultimately show "length el = branch_factor t - 1" using le by (simp add: dvd_imp_le le_antisym)
  qed
  show "li = [] \<longleftrightarrow> length (entries (li @ [(a, el)])) = branch_factor t - 1" if "length el = branch_factor t - 1"
  proof -
    define f where "f = branch_factor t - 1"
    have "2 \<le> f" "length el = f" using that b by (simp_all add: f_def)
    then show ?thesis unfolding len f_def [symmetric] by simp
  qed
qed

section \<open>No memory\<close>

lemma create_node_fails: "allocs t = False # bs \<Longrightarrow> mbptree_create_node t bf p = (t\<lparr>allocs := bs\<rparr>, 0)"
  by (simp add: mbptree_create_node_def alloc_outcome_def)

lemma new_leaf_fails:
  assumes "nodes t a = Some l" "n_leaf l = 1" "allocs t = False # bs"
  shows "mbptree_new_leaf t a = Some (t\<lparr>allocs := bs\<rparr>, 0)"
  using assms by (simp add: mbptree_new_leaf_def mbptree_create_leaf_def create_node_fails heap_simps)

lemma free_fresh_inner:
  assumes "nodes t r = Some (fresh_inner b 0)" "0 < b"
  shows "mbptree_free_node t r = Some (t\<lparr>nodes := (nodes t)(r := None)\<rparr>, 0)"
proof -
  have "mbptree_free_from t r (Some 0) = Some t"
    using assms by (subst mbptree_free_from.simps, subst (2) mbptree_free_from.simps)
      (simp add: fresh_inner_def get_data_def data0_def)
  then have "mbptree_free_from t r None = Some (t\<lparr>nodes := (nodes t)(r := None)\<rparr>)"
    using assms by (subst mbptree_free_from.simps) (simp add: mbptree_is_leaf_def free_address_def fresh_inner_def)
  then show ?thesis by (simp add: mbptree_free_node_def)
qed

lemma tryappend_root_fails:
  assumes inv: "tree_inv t [(a, el)] []" and above: "key_above el k" and full: "length el = branch_factor t - 1"
    and al: "allocs t = False # bs \<or> allocs t = True # False # bs"
  shows "\<exists>m. next_addr t \<le> m \<and> mbptree_tryappend t k v = Some (t\<lparr>next_addr := m, allocs := bs\<rparr>, ELALLC)"
proof -
  have inv': "tree_inv t ([] @ [(a, el)]) []" using inv by simp
  note I = tree_inv_snocD [OF inv']
  from I(2) obtain l where l: "nodes t a = Some l" "leaf_node (branch_factor t) el 0 l" by (rule leaf_atE)
  have rt: "n_parent l = 0" using I(6) l(1) by (auto simp: node_parent_def)
  let ?r = "next_addr t"
  have ar: "a \<noteq> ?r" "0 < ?r" using I(4) l(1) by (auto simp: heap_ok_def)
  have "(el \<noteq> [] \<and> k \<le> fst (last el)) = False" using append_key_ok(1) [OF inv'] above by auto
  note low = tryappend_start(1) [OF I(1) l, of k, unfolded this]
  have st: "mbptree_node_full t a = Some True" "mbptree_is_root t a = Some True"
    using tryappend_start(2) [OF I(1) l] l(1) rt full by (simp_all add: heap_simps)
  from al show ?thesis
  proof
    assume f: "allocs t = False # bs"
    have "mbptree_tryappend t k v = Some (t\<lparr>allocs := bs\<rparr>, ELALLC)"
      using low l I(1) st create_node_fails [OF f] by (simp add: mbptree_tryappend_def)
    then show ?thesis by (intro exI [of _ ?r]) simp
  next
    assume f: "allocs t = True # False # bs"
    let ?b = "branch_factor t"
    define t1 where "t1 = set_node (t\<lparr>allocs := False # bs, next_addr := Suc ?r\<rparr>) ?r (fresh_inner ?b 0)"
    define t2 where "t2 = set_node t1 a (l\<lparr>n_parent := ?r\<rparr>)"
    have cr: "mbptree_create_node t ?b 0 = (t1, ?r)"
      using f by (simp add: mbptree_create_node_def alloc_outcome_def fresh_inner_def t1_def Let_def)
    have 2: "set_parent t1 a ?r = Some t2" using l(1) ar by (simp add: heap_simps t1_def t2_def)
    have 3: "mbptree_new_leaf t2 a = Some (t2\<lparr>allocs := bs\<rparr>, 0)"
      using l by (intro new_leaf_fails [of _ _ "l\<lparr>n_parent := ?r\<rparr>"]) (simp_all add: t2_def t1_def leaf_node_def)
    let ?t3 = "set_node (t2\<lparr>allocs := bs\<rparr>) a l"
    have ll: "l\<lparr>n_parent := 0\<rparr> = l" using rt by (cases l) simp
    have 4: "set_parent (t2\<lparr>allocs := bs\<rparr>) a 0 = Some ?t3" using ll by (simp add: set_parent_def t2_def)
    have "nodes ?t3 ?r = Some (fresh_inner ?b 0)" using ar by (simp add: t2_def t1_def)
    from free_fresh_inner [OF this] I(5) have 5: "mbptree_free_node ?t3 ?r = Some (?t3\<lparr>nodes := (nodes ?t3)(?r := None)\<rparr>, 0)" by simp
    have "nodes t ?r = None" using heap_ok_fresh(1) [OF I(4)] by simp
    then have n: "(nodes ?t3)(?r := None) = nodes t" using l(1) ar by (auto simp: t2_def t1_def fun_eq_iff)
    have "?t3\<lparr>nodes := (nodes ?t3)(?r := None)\<rparr> = t\<lparr>next_addr := Suc ?r, allocs := bs\<rparr>"
      unfolding n by (cases t) (simp add: t2_def t1_def set_node_def)
    then have "mbptree_tryappend t k v = Some (t\<lparr>next_addr := Suc ?r, allocs := bs\<rparr>, ELALLC)"
      using low l I(1) st cr 2 3 4 5 ar(2) by (simp add: mbptree_tryappend_def)
    then show ?thesis by (intro exI [of _ "Suc ?r"]) simp
  qed
qed

lemma tryappend_split_fails:
  assumes inv: "tree_inv t (li @ [(a, el)]) (G # Gs)" and above: "key_above (entries (li @ [(a, el)])) k"
    and full: "length el = branch_factor t - 1" and al: "allocs t = False # bs"
  shows "mbptree_tryappend t k v = None"
proof -
  note I = tree_inv_snocD [OF inv]
  from I(2) obtain l where l: "nodes t a = Some l" "leaf_node (branch_factor t) el 0 l" by (rule leaf_atE)
  have "heads G \<noteq> []" using I(6) levels_ok_nonempty [of t "heads G" Gs] by simp
  then have "fst (last G) \<in> set (map fst (li @ [(a, el)]) @ addrs (G # Gs))" by (cases G rule: rev_cases) auto
  then have "nodes t (fst (last G)) \<noteq> None" using I(8) by blast
  moreover have "n_parent l = fst (last G)" using levels_last_parent [OF I(6)] l(1) by (simp add: node_parent_def)
  ultimately have p0: "n_parent l \<noteq> 0" using heap_ok_fresh(2) [OF I(4)] by auto
  have a0: "a \<noteq> 0" "nodes t 0 = None" using heap_ok_fresh(2) [OF I(4)] l(1) by fastforce+
  have "(el \<noteq> [] \<and> k \<le> fst (last el)) = False" using append_key_ok(1) [OF inv above] by auto
  note low = tryappend_start(1) [OF I(1) l, of k, unfolded this]
  have st: "mbptree_node_full t a = Some True" "mbptree_is_root t a = Some False"
    using tryappend_start(2) [OF I(1) l] l(1) p0 full by (simp_all add: heap_simps)
  have nl: "mbptree_new_leaf t a = Some (t\<lparr>allocs := bs\<rparr>, 0)"
    using l by (intro new_leaf_fails [OF l(1) _ al]) (simp add: leaf_node_def)
  have "mbptree_free_node (set_node (t\<lparr>allocs := bs\<rparr>) a n) 0 = None" for n
    using a0 by (simp add: mbptree_free_node_def) (subst mbptree_free_from.simps, simp add: mbptree_is_leaf_def)
  then show ?thesis using low l I(1) st nl by (simp add: mbptree_tryappend_def set_parent_def)
qed

text \<open>C20. An append with a greater key needs no memory unless the last leaf is full, that is unless the
  number of entries is a positive multiple of the branching factor less one. When
  the root is the only leaf and is full, a failed allocation of the new root or of
  the new leaf gives \<open>ELALLC\<close> and keeps the entries. In a larger tree, a failed allocation of
  the new leaf makes the code follow a null pointer.\<close>

theorem mbptree_append_no_memory:
  assumes rep: "tree_rep t es" and lock: "tree_lock t = unlocked" and above: "key_above es k"
  defines "full \<equiv> branch_factor t - 1"
  shows "(es = [] \<or> \<not> full dvd length es \<longrightarrow>
      (\<exists>t'. mbptree_append t k v = Some (t', 0) \<and> tree_rep t' (es @ [(k, v)]) \<and> allocs t' = allocs t)) \<and>
    (length es = full \<and> (allocs t = False # bs \<or> allocs t = True # False # bs) \<longrightarrow>
      (\<exists>t'. mbptree_append t k v = Some (t', ELALLC) \<and> tree_rep t' es \<and> tree_lock t' = unlocked)) \<and>
    (full < length es \<and> full dvd length es \<and> allocs t = False # bs \<longrightarrow> mbptree_append t k v = None)"
proof -
  let ?t = "t\<lparr>tree_lock := \<lparr>exclusive_lock = 1, shared_lock = 0\<rparr>\<rparr>"
  from rep have "tree_rep ?t es" by simp
  then obtain ls Gs where inv0: "tree_inv ?t ls Gs" and es: "es = entries ls" by (auto simp: tree_rep_def)
  from inv0 obtain li a el where ls: "ls = li @ [(a, el)]" by (rule tree_invE)
  note inv = inv0 [unfolded ls]
  have above': "key_above (entries (li @ [(a, el)])) k" using above es ls by simp
  have F: "length el = full \<longleftrightarrow> es \<noteq> [] \<and> full dvd length es" "length el = full \<Longrightarrow> li = [] \<longleftrightarrow> length es = full"
    using full_leaf [OF inv] by (simp_all add: full_def es ls)
  have le: "length el \<le> full" "2 \<le> full"
    using tree_inv_snocD(2,5) [OF inv] by (auto elim!: leaf_atE simp: leaf_node_def full_def)
  have run: "mbptree_append t k v = do { (t, rc) \<leftarrow> mbptree_tryappend ?t k v; Some (t\<lparr>tree_lock := unlocked\<rparr>, rc) }"
    using lock by (simp add: mbptree_append_def unlocked_def)
  have 1: "\<exists>t'. mbptree_append t k v = Some (t', 0) \<and> tree_rep t' (es @ [(k, v)]) \<and> allocs t' = allocs t"
    if "es = [] \<or> \<not> full dvd length es"
  proof -
    have "length el < branch_factor ?t - 1" using F(1) that le by (auto simp: full_def)
    from tryappend_room [OF inv above' this, of v] obtain t' where
      t': "mbptree_tryappend ?t k v = Some (t', 0)" "tree_inv t' (li @ [(a, el @ [(k, v)])]) Gs" "allocs t' = allocs t" by auto
    then have "tree_rep t' (es @ [(k, v)])" unfolding tree_rep_def es ls by force
    then show ?thesis using t' run by simp
  qed
  have 2: "\<exists>t'. mbptree_append t k v = Some (t', ELALLC) \<and> tree_rep t' es \<and> tree_lock t' = unlocked"
    if len: "length es = full" and al: "allocs t = False # bs \<or> allocs t = True # False # bs"
  proof -
    have "length el = full" using len F(1) le(2) by auto
    then have "li = []" using F(2) len by simp
    moreover from this have "Gs = []" using tree_inv_snocD(6) [OF inv] levels_single by auto
    ultimately obtain m where "next_addr t \<le> m" "mbptree_tryappend ?t k v = Some (?t\<lparr>next_addr := m, allocs := bs\<rparr>, ELALLC)"
      using tryappend_root_fails [of ?t a el k bs v] inv above' \<open>length el = full\<close> al by (auto simp: full_def)
    then show ?thesis using run tree_rep_alloc [OF rep, of m bs] by auto
  qed
  have 3: "mbptree_append t k v = None" if "full < length es" "full dvd length es" "allocs t = False # bs"
  proof -
    have el: "length el = full" using F(1) that(1,2) by auto
    then have "li \<noteq> []" using F(2) that(1) by simp
    then have "Gs \<noteq> []" using tree_inv_snocD(6) [OF inv] by (cases li) auto
    then obtain G Gs' where "Gs = G # Gs'" by (cases Gs) auto
    then show ?thesis using tryappend_split_fails [of ?t li a el G Gs' k bs v] inv above' el that(3) run by (simp add: full_def)
  qed
  from 1 2 3 show ?thesis by blast
qed

interpretation ixb: ordered_index mbptree_append mbptree_last_value tree_lookup "\<lambda>t es. index_rep t es \<and> branch_factor t = bf" for bf
proof unfold_locales
  fix t es k v assume "index_rep t es \<and> branch_factor t = bf" "key_above es k"
  then show "\<exists>t'. mbptree_append t k v = Some (t', 0) \<and> index_rep t' (es @ [(k, v)]) \<and> branch_factor t' = bf"
    using append_rep [of t es k v] by auto
qed (use ix.rep_sorted ix.add_low ix.last_val ix.lookup_floor in blast)+

lemma demo_tree_bf:
  assumes "sorted_wrt (<) (map fst es)"
  obtains t where "demo_tree es = Some t" "index_rep t es" "branch_factor t = 3"
proof -
  obtain t0 where "mbptree_init [] 3 = Some (Some t0)" "index_rep t0 []" "branch_factor t0 = 3" using init_rep [of 3] by auto
  with ixb.add_all_rep [of t0 "[]" 3 es] assms that show ?thesis by (auto simp: demo_tree_def)
qed

theorem mbptree_append_no_memory_witness:
  "\<exists>t t' u. demo_tree [(1, 10), (3, 30)] = Some t \<and> demo_tree [(1, 10), (3, 30), (5, 50), (7, 70)] = Some u \<and>
     mbptree_append (t\<lparr>allocs := [True, False]\<rparr>) 5 50 = Some (t', ELALLC) \<and> tree_rep t' [(1, 10), (3, 30)] \<and>
     mbptree_append (u\<lparr>allocs := [False]\<rparr>) 9 90 = None"
proof -
  obtain t where t: "demo_tree [(1, 10), (3, 30)] = Some t" "index_rep t [(1, 10), (3, 30)]" "branch_factor t = 3"
    using demo_tree_bf [of "[(1, 10), (3, 30)]"] by auto
  obtain u where u: "demo_tree [(1, 10), (3, 30), (5, 50), (7, 70)] = Some u"
    "index_rep u [(1, 10), (3, 30), (5, 50), (7, 70)]" "branch_factor u = 3"
    using demo_tree_bf [of "[(1, 10), (3, 30), (5, 50), (7, 70)]"] by auto
  have "tree_rep (t\<lparr>allocs := [True, False]\<rparr>) [(1, 10), (3, 30)]"
    using tree_rep_alloc [of t _ "next_addr t" "[True, False]"] t(2) by (simp add: index_rep_def)
  from mbptree_append_no_memory [OF this, of 5 50 "[]"] t(2,3) obtain t' where
    "mbptree_append (t\<lparr>allocs := [True, False]\<rparr>) 5 50 = Some (t', ELALLC)" "tree_rep t' [(1, 10), (3, 30)]"
    by (auto simp: index_rep_def key_above_def)
  moreover have "tree_rep (u\<lparr>allocs := [False]\<rparr>) [(1, 10), (3, 30), (5, 50), (7, 70)]"
    using tree_rep_alloc [of u _ "next_addr u" "[False]"] u(2) by (simp add: index_rep_def)
  from mbptree_append_no_memory [OF this, of 9 90 "[]"] u(2,3) have "mbptree_append (u\<lparr>allocs := [False]\<rparr>) 9 90 = None"
    by (auto simp: index_rep_def key_above_def)
  ultimately show ?thesis using t(1) u(1) by blast
qed

end
