(* ===== verification/Mbptree_Lock.thy ===== *)
theory Mbptree_Lock
  imports Mbptree_Theorems
begin

text \<open>
  Several threads in \<open>mbptree_append\<close> and \<open>mbptree_leaf_floor\<close> of one tree (\<^verbatim>\<open>src/src/mbptree.c\<close>) at the same time. A
  caller is a call that has got to a certain point; one step is one access to the lock, or the work
  between two of them, which counts as one: the append, the descent to a leaf, the scan of the leaf. The
  decrement of the shared count is a load and a store, as the code has no atomic operation there.
\<close>

section \<open>Callers\<close>

datatype caller =
    Append_called u64 mbptree_value
  | Append_locked u64 mbptree_value
  | Append_unlock int
  | Floor_called u64
  | Floor_load u64 mbptree_leaf_iterator
  | Floor_cas u64 mbptree_leaf_iterator mbptree_lock
  | Floor_locked u64 mbptree_leaf_iterator
  | Floor_count u64 mbptree_leaf_iterator address
  | Floor_uncount u64 mbptree_leaf_iterator address u32
  | Floor_leaf u64 mbptree_leaf_iterator address
  | Done int "mbptree_leaf_iterator option"

fun caller_step :: "mbptree \<Rightarrow> caller \<Rightarrow> (mbptree \<times> caller) option" where
  "caller_step t (Append_called key v) =
     (let old_val = \<lparr>exclusive_lock = 0, shared_lock = 0\<rparr>;
          new_val = \<lparr>exclusive_lock = 1, shared_lock = 0\<rparr> in
      if cas_mbptree_lock (tree_lock t) \<noteq> cas_mbptree_lock old_val then Some (t, Done ELIDXLK None)
      else Some (t\<lparr>tree_lock := new_val\<rparr>, Append_locked key v))"
| "caller_step t (Append_locked key v) = do {
     (t, rc) \<leftarrow> mbptree_tryappend t key v;
     Some (t, Append_unlock rc) }"
| "caller_step t (Append_unlock rc) = Some (t\<lparr>tree_lock := \<lparr>exclusive_lock = 0, shared_lock = 0\<rparr>\<rparr>, Done rc None)"
| "caller_step t (Floor_called key) =
     (let (ok, t) = alloc_outcome t in
      if \<not> ok then Some (t, Done ELALLC None)
      else Some (t, Floor_load key \<lparr>it_branch_factor = branch_factor t, it_idx = 0, it_leaf = 0\<rparr>))"
| "caller_step t (Floor_load key it) = Some (t, Floor_cas key it (tree_lock t))"
| "caller_step t (Floor_cas key it old_val) =
     (let expected_val = old_val\<lparr>exclusive_lock := 0\<rparr>;
          new_val = old_val\<lparr>shared_lock := shared_lock old_val + 1\<rparr> in
      if cas_mbptree_lock (tree_lock t) \<noteq> cas_mbptree_lock expected_val then Some (t, Done ELIDXLK None)
      else Some (t\<lparr>tree_lock := new_val\<rparr>, Floor_locked key it))"
| "caller_step t (Floor_locked key it) = do {
     leaf \<leftarrow> mbptree_find_leaf t (root t) key;
     Some (t, Floor_count key it leaf) }"
| "caller_step t (Floor_count key it leaf) = Some (t, Floor_uncount key it leaf (shared_lock (tree_lock t)))"
| "caller_step t (Floor_uncount key it leaf n) =
     Some (t\<lparr>tree_lock := (tree_lock t)\<lparr>shared_lock := n - 1\<rparr>\<rparr>, Floor_leaf key it leaf)"
| "caller_step t (Floor_leaf key it leaf) = do {
     l \<leftarrow> nodes t leaf;
     idx \<leftarrow> floor_index l key None [0..<n_size l];
     Some (t, Done 0 (Some (case idx of Some i \<Rightarrow> it\<lparr>it_idx := i, it_leaf := leaf\<rparr> | None \<Rightarrow> it))) }"
| "caller_step t (Done rc it) = None"

type_synonym callers = "mbptree \<times> caller list"

inductive lock_step :: "callers \<Rightarrow> callers \<Rightarrow> bool" where
  "i < length cs \<Longrightarrow> caller_step t (cs ! i) = Some (t', c) \<Longrightarrow> lock_step (t, cs) (t', cs[i := c])"

inductive_cases lock_stepE: "lock_step (t, cs) st'"

abbreviation lock_steps :: "callers \<Rightarrow> callers \<Rightarrow> bool" where
  "lock_steps \<equiv> lock_step\<^sup>*\<^sup>*"

section \<open>A caller alone\<close>

partial_function (option) caller_run :: "mbptree \<Rightarrow> caller \<Rightarrow> (mbptree \<times> int \<times> mbptree_leaf_iterator option) option" where
  "caller_run t c = (case c of
     Done rc it \<Rightarrow> Some (t, rc, it)
   | _ \<Rightarrow> do { (t, c) \<leftarrow> caller_step t c; caller_run t c })"

lemma caller_run_Done [simp]: "caller_run t (Done rc it) = Some (t, rc, it)"
  by (subst caller_run.simps) simp

fun active :: "caller \<Rightarrow> bool" where
  "active (Done rc it) = False"
| "active c = True"

lemma caller_run_step: "active c \<Longrightarrow> caller_run t c = do { (t, c) \<leftarrow> caller_step t c; caller_run t c }"
  by (subst caller_run.simps) (cases c; simp)

text \<open>A caller that is not interrupted does what the function does.\<close>

lemma caller_alone:
  "caller_run t (Append_called k v) = do { (t, rc) \<leftarrow> mbptree_append t k v; Some (t, rc, None) }"
  "caller_run t (Floor_called k) = mbptree_leaf_floor t k"
proof -
  have "caller_run t (Append_locked k v) = do {
      (t, rc) \<leftarrow> mbptree_tryappend t k v; Some (t\<lparr>tree_lock := \<lparr>exclusive_lock = 0, shared_lock = 0\<rparr>\<rparr>, rc, None) }" for t
    by (simp add: caller_run_step case_prod_beta')
  then show "caller_run t (Append_called k v) = do { (t, rc) \<leftarrow> mbptree_append t k v; Some (t, rc, None) }"
    by (simp add: caller_run_step [of "Append_called k v"] mbptree_append_def Let_def case_prod_beta' Option.bind_assoc)
  show "caller_run t (Floor_called k) = mbptree_leaf_floor t k"
    by (simp add: caller_run_step mbptree_leaf_floor_def Let_def case_prod_beta)
qed

section \<open>Who is inside\<close>

text \<open>A call of \<open>mbptree_append\<close> works on the tree from its swap of the lock to its release. A call of
  \<open>mbptree_leaf_floor\<close> does so in two parts: while it holds its place in the shared count it descends from the
  root to a leaf, and behind the decrement, when it holds nothing any more, it scans the leaf.\<close>

fun appending :: "caller \<Rightarrow> bool" where
  "appending (Append_locked k v) = True"
| "appending (Append_unlock rc) = True"
| "appending c = False"

fun descending :: "caller \<Rightarrow> bool" where
  "descending (Floor_locked k it) = True"
| "descending (Floor_count k it leaf) = True"
| "descending (Floor_uncount k it leaf n) = True"
| "descending c = False"

fun scanning :: "caller \<Rightarrow> bool" where
  "scanning (Floor_leaf k it leaf) = True"
| "scanning c = False"

fun floors :: "caller \<Rightarrow> bool" where
  "floors (Floor_called k) = True"
| "floors (Floor_load k it) = True"
| "floors (Floor_cas k it l) = True"
| "floors (Floor_locked k it) = True"
| "floors (Floor_count k it leaf) = True"
| "floors (Floor_uncount k it leaf n) = True"
| "floors (Floor_leaf k it leaf) = True"
| "floors c = False"

fun called :: "caller \<Rightarrow> bool" where
  "called (Append_called k v) = True"
| "called (Floor_called k) = True"
| "called c = False"

text \<open>How many callers are in a certain place.\<close>

definition count :: "(caller \<Rightarrow> bool) \<Rightarrow> caller list \<Rightarrow> nat" where
  "count P cs = length (filter P cs)"

lemma count_update:
  assumes "i < length cs"
  shows "count P (cs[i := c]) + (if P (cs ! i) then 1 else 0) = count P cs + (if P c then 1 else 0)"
proof -
  have "cs = take i cs @ cs ! i # drop (Suc i) cs" by (rule id_take_nth_drop [OF assms])
  then have "count P cs = count P (take i cs @ cs ! i # drop (Suc i) cs)" by (rule arg_cong)
  then show ?thesis using assms by (simp add: count_def upd_conv_take_nth_drop)
qed

lemmas counts_update = count_update [where P = appending] count_update [where P = descending] count_update [where P = floors]

lemma count_pos: "i < length cs \<Longrightarrow> P (cs ! i) \<Longrightarrow> 0 < count P cs"
  by (auto simp: count_def filter_empty_conv)

lemma descending_floors: "count descending cs \<le> count floors cs"
proof -
  have "descending c \<Longrightarrow> floors c" for c by (cases c) simp_all
  then show ?thesis unfolding count_def by (induction cs) (auto simp: le_SucI)
qed

text \<open>The invariant; \<open>solo\<close> when there is at most one caller of \<open>mbptree_leaf_floor\<close>.\<close>

definition lock_inv :: "bool \<Rightarrow> callers \<Rightarrow> bool" where
  "lock_inv solo st \<longleftrightarrow> (case st of (t, cs) \<Rightarrow>
     (\<exists>es. tree_rep t es) \<and> allocs t = [] \<and> count appending cs \<le> 1 \<and>
     (0 < count appending cs \<longrightarrow> exclusive_lock (tree_lock t) = 1) \<and>
     (solo \<longrightarrow> count floors cs \<le> 1 \<and>
        shared_lock (tree_lock t) = (if count descending cs = 0 then 0 else 1) \<and>
        (0 < count descending cs \<longrightarrow> count appending cs = 0) \<and>
        (\<forall>k it leaf n. Floor_uncount k it leaf n \<in> set cs \<longrightarrow> n = 1)))"

lemma lock_invI:
  assumes "\<exists>es. tree_rep t es" "allocs t = []" "count appending cs \<le> 1"
    "0 < count appending cs \<Longrightarrow> exclusive_lock (tree_lock t) = 1"
    "solo \<Longrightarrow> count floors cs \<le> 1"
    "solo \<Longrightarrow> shared_lock (tree_lock t) = (if count descending cs = 0 then 0 else 1)"
    "solo \<Longrightarrow> 0 < count descending cs \<Longrightarrow> count appending cs = 0"
    "\<And>k it leaf n. solo \<Longrightarrow> Floor_uncount k it leaf n \<in> set cs \<Longrightarrow> n = 1"
  shows "lock_inv solo (t, cs)"
  using assms unfolding lock_inv_def by blast

lemma lock_invD:
  assumes "lock_inv solo (t, cs)"
  shows "\<exists>es. tree_rep t es" "allocs t = []" "count appending cs \<le> 1"
    "0 < count appending cs \<Longrightarrow> exclusive_lock (tree_lock t) = 1"
    "solo \<Longrightarrow> count floors cs \<le> 1"
    "solo \<Longrightarrow> shared_lock (tree_lock t) = (if count descending cs = 0 then 0 else 1)"
    "solo \<Longrightarrow> 0 < count descending cs \<Longrightarrow> count appending cs = 0"
    "solo \<Longrightarrow> Floor_uncount k it leaf n \<in> set cs \<Longrightarrow> n = 1"
  using assms by (auto simp: lock_inv_def)

text \<open>A caller that goes on: what is left to show when it has stored a count to decrement, has changed the tree, or neither.\<close>

lemma lock_inv_update:
  assumes inv: "lock_inv solo (t, cs)" and c: "\<And>k it leaf n. c = Floor_uncount k it leaf n \<Longrightarrow> solo \<Longrightarrow> n = 1"
    and t': "\<exists>es. tree_rep t' es" "allocs t' = []"
      "count appending (cs[i := c]) \<le> 1" "0 < count appending (cs[i := c]) \<Longrightarrow> exclusive_lock (tree_lock t') = 1"
      "solo \<Longrightarrow> count floors (cs[i := c]) \<le> 1"
      "solo \<Longrightarrow> shared_lock (tree_lock t') = (if count descending (cs[i := c]) = 0 then 0 else 1)"
      "solo \<Longrightarrow> 0 < count descending (cs[i := c]) \<Longrightarrow> count appending (cs[i := c]) = 0"
  shows "lock_inv solo (t', cs[i := c])"
proof (rule lock_invI [OF t'])
  fix k it leaf n
  assume "solo" "Floor_uncount k it leaf n \<in> set (cs[i := c])"
  then show "n = 1" using set_update_subset_insert [of cs i c] lock_invD(8) [OF inv] c by fastforce
qed

lemma lock_inv_quiet:
  assumes inv: "lock_inv solo (t, cs)" and i: "i < length cs"
    and c: "appending c = appending (cs ! i)" "descending c = descending (cs ! i)" "floors c \<longrightarrow> floors (cs ! i)"
      "solo \<longrightarrow> (\<forall>k it leaf n. c = Floor_uncount k it leaf n \<longrightarrow> n = 1)"
  shows "lock_inv solo (t, cs[i := c])"
proof -
  have n: "count appending (cs[i := c]) = count appending cs" "count descending (cs[i := c]) = count descending cs"
    using counts_update [OF i, of c] c(1,2) by simp_all
  have "count floors (cs[i := c]) \<le> count floors cs" using count_update [OF i, of floors c] c(3) by (auto split: if_splits)
  then have "solo \<Longrightarrow> count floors (cs[i := c]) \<le> 1" using lock_invD(5) [OF inv] by linarith
  then show ?thesis using lock_invD(1-4,6,7) [OF inv] by (intro lock_inv_update [OF inv]) (use c(4) in \<open>simp_all add: n\<close>)
qed

lemma tree_rep_set_lock: "\<exists>es. tree_rep t es \<Longrightarrow> \<exists>es. tree_rep (t\<lparr>tree_lock := l\<rparr>) es"
  by auto

text \<open>The steps that change the lock or the tree.\<close>

lemma lock_inv_append_called:
  assumes inv: "lock_inv solo (t, cs)" and i: "i < length cs" and c: "cs ! i = Append_called k v"
    and free: "tree_lock t = \<lparr>exclusive_lock = 0, shared_lock = 0\<rparr>"
  shows "lock_inv solo (t\<lparr>tree_lock := \<lparr>exclusive_lock = 1, shared_lock = 0\<rparr>\<rparr>, cs[i := Append_locked k v])"
proof -
  note I = lock_invD [OF inv]
  have z: "count appending cs = 0" using I(4) free by (cases "count appending cs") auto
  have q: "solo \<Longrightarrow> count descending cs = 0" using I(6) free by (auto split: if_splits)
  have "count appending (cs[i := Append_locked k v]) = 1" "count descending (cs[i := Append_locked k v]) = count descending cs"
    "count floors (cs[i := Append_locked k v]) = count floors cs"
    using counts_update [OF i, of "Append_locked k v"] c z by simp_all
  then show ?thesis using I(2,5) q by (intro lock_inv_update [OF inv] tree_rep_set_lock [OF I(1)]) simp_all
qed

lemma lock_inv_append_locked:
  assumes inv: "lock_inv solo (t, cs)" and i: "i < length cs" and c: "cs ! i = Append_locked k v"
    and run: "mbptree_tryappend t k v = Some (t', rc)"
  shows "lock_inv solo (t', cs[i := Append_unlock rc])"
proof -
  note I = lock_invD [OF inv]
  from I(1) obtain es where "tree_rep t es" by blast
  with tryappend_rep [OF this I(2), of k v] run I(2) have t': "tree_lock t' = tree_lock t" "allocs t' = []" "\<exists>es. tree_rep t' es"
    by (auto split: if_splits)
  have "count appending (cs[i := Append_unlock rc]) = count appending cs" "count descending (cs[i := Append_unlock rc]) = count descending cs"
    "count floors (cs[i := Append_unlock rc]) = count floors cs" using counts_update [OF i, of "Append_unlock rc"] c by simp_all
  then show ?thesis using I(3-7) t' by (intro lock_inv_update [OF inv]) simp_all
qed

lemma lock_inv_append_unlock:
  assumes inv: "lock_inv solo (t, cs)" and i: "i < length cs" and c: "cs ! i = Append_unlock rc"
  shows "lock_inv solo (t\<lparr>tree_lock := \<lparr>exclusive_lock = 0, shared_lock = 0\<rparr>\<rparr>, cs[i := Done rc None])"
proof -
  note I = lock_invD [OF inv]
  have p: "0 < count appending cs" using count_pos [OF i, of appending] c by simp
  then have q: "solo \<Longrightarrow> count descending cs = 0" using I(7) by fastforce
  have "count appending (cs[i := Done rc None]) = 0" using count_update [OF i, of appending "Done rc None"] c p I(3) by simp
  moreover have "count descending (cs[i := Done rc None]) = count descending cs" "count floors (cs[i := Done rc None]) = count floors cs"
    using counts_update [OF i, of "Done rc None"] c by simp_all
  ultimately show ?thesis using I(2,5) q by (intro lock_inv_update [OF inv] tree_rep_set_lock [OF I(1)]) simp_all
qed

lemma lock_inv_floor_cas:
  assumes inv: "lock_inv solo (t, cs)" and i: "i < length cs" and c: "cs ! i = Floor_cas k it l"
    and free: "tree_lock t = l\<lparr>exclusive_lock := 0\<rparr>"
  shows "lock_inv solo (t\<lparr>tree_lock := l\<lparr>shared_lock := shared_lock l + 1\<rparr>\<rparr>, cs[i := Floor_locked k it])"
proof -
  note I = lock_invD [OF inv]
  have z: "count appending cs = 0" using I(4) free by (cases "count appending cs") auto
  have n: "count appending (cs[i := Floor_locked k it]) = 0" "count descending (cs[i := Floor_locked k it]) = Suc (count descending cs)"
    "count floors (cs[i := Floor_locked k it]) = count floors cs"
    using counts_update [OF i, of "Floor_locked k it"] c z by simp_all
  have "solo \<Longrightarrow> count descending cs = 0" using descending_floors [of "cs[i := Floor_locked k it]"] n(2,3) I(5) by linarith
  moreover have "shared_lock (tree_lock t) = shared_lock l" using free by simp
  ultimately show ?thesis using I(2,5,6) n by (intro lock_inv_update [OF inv] tree_rep_set_lock [OF I(1)]) simp_all
qed

lemma lock_inv_floor_uncount:
  assumes inv: "lock_inv solo (t, cs)" and i: "i < length cs" and c: "cs ! i = Floor_uncount k it leaf m"
  shows "lock_inv solo (t\<lparr>tree_lock := (tree_lock t)\<lparr>shared_lock := m - 1\<rparr>\<rparr>, cs[i := Floor_leaf k it leaf])"
proof -
  note I = lock_invD [OF inv]
  have m: "solo \<Longrightarrow> m = 1" using I(8) c i by (metis nth_mem)
  have n: "count appending (cs[i := Floor_leaf k it leaf]) = count appending cs" "Suc (count descending (cs[i := Floor_leaf k it leaf])) = count descending cs"
    "count floors (cs[i := Floor_leaf k it leaf]) = count floors cs"
    using counts_update [OF i, of "Floor_leaf k it leaf"] c by simp_all
  have "solo \<Longrightarrow> count descending (cs[i := Floor_leaf k it leaf]) = 0" using descending_floors [of cs] n(2) I(5) by linarith
  then show ?thesis using I(2-5) m n by (intro lock_inv_update [OF inv] tree_rep_set_lock [OF I(1)]) simp_all
qed

lemma lock_inv_step:
  assumes inv: "lock_inv solo (t, cs)" and i: "i < length cs" and step: "caller_step t (cs ! i) = Some (t', c)"
  shows "lock_inv solo (t', cs[i := c])"
proof (cases "cs ! i")
  case (Append_called k v)
  then show ?thesis using step lock_inv_append_called [OF inv i] lock_inv_quiet [OF inv i]
    by (cases "tree_lock t = \<lparr>exclusive_lock = 0, shared_lock = 0\<rparr>") (auto simp: Let_def)
next
  case (Append_locked k v)
  then show ?thesis using step lock_inv_append_locked [OF inv i] by (auto simp: bind_eq_Some_conv)
next
  case (Append_unlock rc)
  then show ?thesis using step lock_inv_append_unlock [OF inv i] by simp
next
  case (Floor_called k)
  then show ?thesis using step lock_invD(2) [OF inv] lock_inv_quiet [OF inv i] by (auto simp: alloc_outcome_def Let_def)
next
  case (Floor_cas k it l)
  then show ?thesis using step lock_inv_floor_cas [OF inv i] lock_inv_quiet [OF inv i]
    by (cases "tree_lock t = l\<lparr>exclusive_lock := 0\<rparr>") (auto simp: Let_def)
next
  case (Floor_count k it leaf)
  then have "shared_lock (tree_lock t) = 1" if solo
    using that lock_invD(6) [OF inv that] count_pos [OF i, of descending] by simp
  then show ?thesis using step Floor_count lock_inv_quiet [OF inv i] by auto
next
  case (Floor_uncount k it leaf m)
  then show ?thesis using step lock_inv_floor_uncount [OF inv i] by simp
qed (use step lock_inv_quiet [OF inv i] in \<open>auto simp: bind_eq_Some_conv\<close>)

lemma lock_inv_steps: "lock_steps st st' \<Longrightarrow> lock_inv solo st \<Longrightarrow> lock_inv solo st'"
proof (induction rule: rtranclp_induct)
  case (step st1 st2)
  obtain t cs where "st1 = (t, cs)" by (cases st1)
  with step show ?case by (auto elim!: lock_stepE intro: lock_inv_step)
qed

lemma called_quiet:
  assumes "list_all called cs"
  shows "count appending cs = 0" "count descending cs = 0" "Floor_uncount k it leaf n \<notin> set cs"
proof -
  have c: "\<not> appending c \<and> \<not> descending c \<and> c \<noteq> Floor_uncount k it leaf n" if "c \<in> set cs" for c
    using assms that by (cases c) (auto simp: list_all_iff)
  then show "count appending cs = 0" "count descending cs = 0" "Floor_uncount k it leaf n \<notin> set cs"
    by (auto simp: count_def filter_empty_conv)
qed

section \<open>Properties\<close>

text \<open>What the lock keeps apart, whatever the order of the steps.\<close>

lemma lock_excludes:
  assumes "tree_rep t es" "allocs t = []" "tree_lock t = unlocked" "list_all called cs" "lock_steps (t, cs) (t', cs')"
  shows "count appending cs' \<le> 1" "count floors cs \<le> 1 \<Longrightarrow> count appending cs' = 0 \<or> count descending cs' = 0"
proof -
  note Q = called_quiet [OF assms(4)]
  have L: "lock_inv solo (t, cs)" if solo: "solo \<longrightarrow> count floors cs \<le> 1" for solo
  proof (rule lock_invI)
    show "\<exists>es. tree_rep t es" using assms(1) by (rule exI)
  qed (use solo assms(2,3) Q in \<open>simp_all add: unlocked_def\<close>)
  have I: "lock_inv False (t', cs')" by (rule lock_inv_steps [OF assms(5) L]) simp
  then show "count appending cs' \<le> 1" by (simp add: lock_inv_def)
  assume "count floors cs \<le> 1"
  then have "lock_inv True (t', cs')" by (intro lock_inv_steps [OF assms(5) L]) simp
  then show "count appending cs' = 0 \<or> count descending cs' = 0" by (auto simp: lock_inv_def)
qed

text \<open>Taking the steps of the callers with the given indices.\<close>

fun schedule :: "nat list \<Rightarrow> callers \<Rightarrow> callers option" where
  "schedule [] st = Some st"
| "schedule (i # is) st = (case st of (t, cs) \<Rightarrow>
     if i < length cs then do { (t, c) \<leftarrow> caller_step t (cs ! i); schedule is (t, cs[i := c]) } else None)"

lemma schedule_steps: "schedule is st = Some st' \<Longrightarrow> lock_steps st st'"
proof (induction "is" arbitrary: st)
  case (Cons i "is")
  obtain t cs where st: "st = (t, cs)" by (cases st)
  from Cons.prems obtain t1 c where 1: "i < length cs" "caller_step t (cs ! i) = Some (t1, c)" "schedule is (t1, cs[i := c]) = Some st'"
    unfolding st by (auto simp: bind_eq_Some_conv split: if_splits prod.splits)
  have "lock_step (t, cs) (t1, cs[i := c])" using 1(1,2) by (rule lock_step.intros)
  then show ?case unfolding st using Cons.IH [OF 1(3)] by (rule converse_rtranclp_into_rtranclp)
qed simp

lemma search_ok:
  assumes "tree_rep t es"
  obtains a n idx where "mbptree_find_leaf t (root t) k = Some a" "nodes t a = Some n"
    "floor_index n k None [0..<n_size n] = Some idx"
proof -
  from assms obtain ls Gs where "tree_inv t ls Gs" by (auto simp: tree_rep_def)
  then show ?thesis by (rule find_leaf_ok [where k = k]) (rule that)
qed

text \<open>What it does not: the scan of the leaf comes behind the release.\<close>

lemma lock_misses_scan:
  assumes rep: "tree_rep t es" and al: "allocs t = []" and lk: "tree_lock t = unlocked"
  shows "\<exists>t' it leaf. lock_steps (t, [Append_called k v, Floor_called k']) (t', [Append_locked k v, Floor_leaf k' it leaf])"
proof -
  let ?t1 = "t\<lparr>tree_lock := \<lparr>exclusive_lock = 0, shared_lock = 1\<rparr>\<rparr>"
  have "tree_rep ?t1 es" using rep by simp
  then obtain a where F: "mbptree_find_leaf ?t1 (root ?t1) k' = Some a" by (rule search_ok)
  let ?it = "\<lparr>it_branch_factor = branch_factor t, it_idx = 0, it_leaf = 0\<rparr>"
  have "schedule [1, 1, 1, 1, 1, 1, 0] (t, [Append_called k v, Floor_called k']) =
    Some (t\<lparr>tree_lock := \<lparr>exclusive_lock = 1, shared_lock = 0\<rparr>\<rparr>, [Append_locked k v, Floor_leaf k' ?it a])"
    using al lk F by (simp add: unlocked_def alloc_outcome_def)
  from schedule_steps [OF this] show ?thesis by blast
qed

text \<open>C18. Calls of \<open>mbptree_append\<close> and \<open>mbptree_leaf_floor\<close> on an unlocked tree, while no allocation fails.
  Whatever the order of their steps, no two calls of \<open>mbptree_append\<close> are inside the tree at
  the same time; and when at most one of the calls is a \<open>mbptree_leaf_floor\<close>, its descent from the root never
  overlaps with a \<open>mbptree_append\<close>. But that is all: already one append and one search can come into a state in which the append is
  inside while the search scans its leaf, because \<open>mbptree_leaf_floor\<close> gives up its place in the shared count before it
  reads the size and the keys of the leaf.\<close>

theorem mbptree_lock_excludes:
  assumes "tree_rep t es" "allocs t = []" "tree_lock t = unlocked"
  shows "(\<forall>cs t' cs'. list_all called cs \<and> lock_steps (t, cs) (t', cs') \<longrightarrow>
      count appending cs' \<le> 1 \<and> (count floors cs \<le> 1 \<longrightarrow> count appending cs' = 0 \<or> count descending cs' = 0)) \<and>
    (\<forall>k v k'. \<exists>t' cs'. lock_steps (t, [Append_called k v, Floor_called k']) (t', cs') \<and>
      appending (cs' ! 0) \<and> scanning (cs' ! 1))"
proof (intro conjI allI impI)
  fix cs t' cs'
  assume A: "list_all called cs \<and> lock_steps (t, cs) (t', cs')"
  show "count appending cs' \<le> 1" using lock_excludes(1) [OF assms] A by blast
  show "count appending cs' = 0 \<or> count descending cs' = 0" if "count floors cs \<le> 1"
    by (rule lock_excludes(2) [OF assms conjunct1 [OF A] conjunct2 [OF A] that])
next
  fix k v k'
  from lock_misses_scan [OF assms, of k v k'] obtain t' it leaf where
    "lock_steps (t, [Append_called k v, Floor_called k']) (t', [Append_locked k v, Floor_leaf k' it leaf])" by blast
  then show "\<exists>t' cs'. lock_steps (t, [Append_called k v, Floor_called k']) (t', cs') \<and> appending (cs' ! 0) \<and> scanning (cs' ! 1)"
    by (intro exI conjI) (assumption, simp_all)
qed

theorem mbptree_lock_excludes_witness:
  "\<exists>t t' cs' t'' cs''. demo_tree [(1, 10)] = Some t \<and>
     lock_steps (t, [Append_called 5 50, Floor_called 1, Append_called 7 70]) (t', cs') \<and>
     appending (cs' ! 0) \<and> count appending cs' = 1 \<and> count descending cs' = 0 \<and>
     lock_steps (t, [Append_called 5 50, Floor_called 1]) (t'', cs'') \<and> appending (cs'' ! 0) \<and> scanning (cs'' ! 1)"
proof -
  obtain t where t: "demo_tree [(1, 10)] = Some t" "index_rep t [(1, 10)]" using demo_tree_rep [of "[(1, 10)]"] by auto
  then have T: "tree_rep t [(1, 10)]" "allocs t = []" "tree_lock t = unlocked" by (simp_all add: index_rep_def)
  let ?cs = "[Append_called 5 50, Floor_called 1, Append_called 7 70]"
  let ?t' = "t\<lparr>tree_lock := \<lparr>exclusive_lock = 1, shared_lock = 0\<rparr>\<rparr>"
  let ?cs' = "[Append_locked 5 50, Floor_load 1 \<lparr>it_branch_factor = branch_factor t, it_idx = 0, it_leaf = 0\<rparr>, Append_called 7 70]"
  have "schedule [0, 1] (t, ?cs) = Some (?t', ?cs')" using T by (simp add: unlocked_def alloc_outcome_def)
  from schedule_steps [OF this] have st: "lock_steps (t, ?cs) (?t', ?cs')" .
  have L: "list_all called ?cs" and F: "count floors ?cs \<le> 1" by (simp_all add: count_def)
  note E = mbptree_lock_excludes [OF T]
  note X = conjunct1 [OF E, THEN spec, THEN spec, THEN spec, THEN mp, OF conjI [OF L st]]
  have "count appending ?cs' \<le> 1" "count appending ?cs' = 0 \<or> count descending ?cs' = 0"
    using conjunct1 [OF X] mp [OF conjunct2 [OF X] F] by simp_all
  moreover have "0 < count appending ?cs'" by (simp add: count_def)
  ultimately have "count appending ?cs' = 1" "count descending ?cs' = 0" by linarith+
  moreover obtain t'' cs'' where "lock_steps (t, [Append_called 5 50, Floor_called 1]) (t'', cs'')" "appending (cs'' ! 0)" "scanning (cs'' ! 1)"
    using conjunct2 [OF E] by blast
  ultimately show ?thesis using t(1) st
    by (intro exI [of _ t] exI [of _ ?t'] exI [of _ ?cs'] exI [of _ t''] exI [of _ cs'']) simp
qed

text \<open>C19. With more callers the lock does not do what it is for. A \<open>mbptree_leaf_floor\<close> that reads the lock while it
  is held by an append and swaps after it was released puts the exclusive bit back: both calls return
  0, and from then on every append and every search of the tree returns \<open>ELIDXLK\<close>. And of two
  searches that leave and enter at the same time one loses its place in the shared count, so
  that an append comes in while the search is still inside.\<close>

theorem mbptree_lock_breaks:
  assumes rep: "tree_rep t es" and al: "allocs t = []" and lk: "tree_lock t = unlocked" and above: "key_above es k"
  shows "(\<exists>t' it. lock_steps (t, [Append_called k v, Floor_called k']) (t', [Done 0 None, Done 0 (Some it)]) \<and>
      tree_rep t' (es @ [(k, v)]) \<and>
      (\<forall>x y. mbptree_append t' x y = Some (t', ELIDXLK) \<and> mbptree_leaf_floor t' x = Some (t', ELIDXLK, None))) \<and>
    (\<exists>t' cs. lock_steps (t, [Append_called k v, Floor_called k', Floor_called k']) (t', cs) \<and>
      appending (cs ! 0) \<and> descending (cs ! 2))"
proof
  let ?t1 = "t\<lparr>tree_lock := \<lparr>exclusive_lock = 1, shared_lock = 0\<rparr>\<rparr>"
  from tryappend_rep [of ?t1 es k v] rep al above obtain t2 where
    t2: "mbptree_tryappend ?t1 k v = Some (t2, 0)" "tree_rep t2 (es @ [(k, v)])" "allocs t2 = []" by auto
  let ?t4 = "t2\<lparr>tree_lock := \<lparr>exclusive_lock = 1, shared_lock = 1\<rparr>\<rparr>" and ?t5 = "t2\<lparr>tree_lock := \<lparr>exclusive_lock = 1, shared_lock = 0\<rparr>\<rparr>"
  have "tree_rep ?t4 (es @ [(k, v)])" using t2(2) by simp
  then obtain a n idx where F: "mbptree_find_leaf ?t4 (root ?t4) k' = Some a" "nodes ?t4 a = Some n"
    "floor_index n k' None [0..<n_size n] = Some idx" by (rule search_ok)
  let ?it = "\<lparr>it_branch_factor = branch_factor t, it_idx = 0, it_leaf = 0\<rparr>"
  have "schedule [0, 1, 1, 0, 0, 1, 1, 1, 1, 1] (t, [Append_called k v, Floor_called k']) =
    Some (?t5, [Done 0 None, Done 0 (Some (case idx of Some i \<Rightarrow> ?it\<lparr>it_idx := i, it_leaf := a\<rparr> | None \<Rightarrow> ?it))])"
    using al lk t2(1) F by (simp add: unlocked_def alloc_outcome_def)
  from schedule_steps [OF this] have "\<exists>it. lock_steps (t, [Append_called k v, Floor_called k']) (?t5, [Done 0 None, Done 0 (Some it)])" by blast
  moreover have "tree_rep ?t5 (es @ [(k, v)])" using t2(2) by simp
  moreover have "mbptree_append ?t5 x y = Some (?t5, ELIDXLK) \<and> mbptree_leaf_floor ?t5 x = Some (?t5, ELIDXLK, None)" for x y
    using t2(3) by (simp add: mbptree_append_def mbptree_leaf_floor_def alloc_outcome_def)
  ultimately show "\<exists>t' it. lock_steps (t, [Append_called k v, Floor_called k']) (t', [Done 0 None, Done 0 (Some it)]) \<and>
      tree_rep t' (es @ [(k, v)]) \<and>
      (\<forall>x y. mbptree_append t' x y = Some (t', ELIDXLK) \<and> mbptree_leaf_floor t' x = Some (t', ELIDXLK, None))" by blast
next
  let ?t1 = "t\<lparr>tree_lock := \<lparr>exclusive_lock = 0, shared_lock = 1\<rparr>\<rparr>"
  have "tree_rep ?t1 es" using rep by simp
  then obtain a where F: "mbptree_find_leaf ?t1 (root ?t1) k' = Some a" by (rule search_ok)
  let ?it = "\<lparr>it_branch_factor = branch_factor t, it_idx = 0, it_leaf = 0\<rparr>"
  have "schedule [1, 1, 1, 1, 1, 2, 2, 2, 1, 0] (t, [Append_called k v, Floor_called k', Floor_called k']) =
    Some (t\<lparr>tree_lock := \<lparr>exclusive_lock = 1, shared_lock = 0\<rparr>\<rparr>, [Append_locked k v, Floor_leaf k' ?it a, Floor_locked k' ?it])"
    using al lk F by (simp add: unlocked_def alloc_outcome_def)
  from schedule_steps [OF this] show "\<exists>t' cs. lock_steps (t, [Append_called k v, Floor_called k', Floor_called k']) (t', cs) \<and>
      appending (cs ! 0) \<and> descending (cs ! 2)"
    by (intro exI conjI) (assumption, simp_all)
qed

theorem mbptree_lock_breaks_witness:
  "\<exists>t t' it. demo_tree [(1, 10), (3, 30)] = Some t \<and>
     lock_steps (t, [Append_called 5 50, Floor_called 3]) (t', [Done 0 None, Done 0 (Some it)]) \<and>
     tree_rep t' [(1, 10), (3, 30), (5, 50)] \<and> mbptree_append t' 7 70 = Some (t', ELIDXLK)"
proof -
  obtain t where t: "demo_tree [(1, 10), (3, 30)] = Some t" "index_rep t [(1, 10), (3, 30)]"
    using demo_tree_rep [of "[(1, 10), (3, 30)]"] by auto
  then have T: "tree_rep t [(1, 10), (3, 30)]" "allocs t = []" "tree_lock t = unlocked" "key_above [(1, 10), (3, 30)] 5"
    by (simp_all add: index_rep_def key_above_def)
  from mbptree_lock_breaks [OF T, of 50 3] obtain t' it where
    "lock_steps (t, [Append_called 5 50, Floor_called 3]) (t', [Done 0 None, Done 0 (Some it)])"
    "tree_rep t' [(1, 10), (3, 30), (5, 50)]" "mbptree_append t' 7 70 = Some (t', ELIDXLK)" by auto
  with t(1) show ?thesis by blast
qed

end
