(* ===== verification/Mbptree_Print.thy ===== *)
theory Mbptree_Print
  imports Mbptree_Theorems Util
begin

text \<open>
  The breadth-first iterator of the tree and \<open>mbptree_print\<close> (\<^verbatim>\<open>src/src/mbptree.c\<close>). What the
  conversion \<open>%p\<close> makes of an address is up to the C library, an argument here; what goes to
  the terminal is a string.
\<close>

section \<open>Printing\<close>

definition print_entry :: "(address \<Rightarrow> string) \<Rightarrow> mbptree_node \<Rightarrow> nat \<Rightarrow> string option" where
  "print_entry fmt_p n j = do {
     data \<leftarrow> get_data n j;
     let comma = (if j \<noteq> 0 then '','' else '''');
     Some (if n_leaf n \<noteq> 0 then comma @ '' '' @ dec (unat (md_key data)) @ '':'' @ dec (md_value data)
           else comma @ '' '' @ dec (unat (md_key data)) @ '':'' @ fmt_p (md_value data)) }"

fun print_entries :: "(address \<Rightarrow> string) \<Rightarrow> mbptree_node \<Rightarrow> nat list \<Rightarrow> string option" where
  "print_entries fmt_p n [] = Some ''''"
| "print_entries fmt_p n (j # js) = do {
     out \<leftarrow> print_entry fmt_p n j;
     rest \<leftarrow> print_entries fmt_p n js;
     Some (out @ rest) }"

definition mbptree_print_node :: "(address \<Rightarrow> string) \<Rightarrow> mbptree \<Rightarrow> address \<Rightarrow> string option" where
  "mbptree_print_node fmt_p t node = do {
     n \<leftarrow> nodes t node;
     entries \<leftarrow> print_entries fmt_p n [0..<n_size n];
     data \<leftarrow> get_data n (n_size n);
     Some (''{ '' @ fmt_p node @ '' '' @ (if n_leaf n \<noteq> 0 then ''L |'' else ''N |'') @ entries @
       (if n_leaf n \<noteq> 0 then '' | count '' @ dec (n_size n) @ '' next: '' @ dec (md_value data)
        else '' _:'' @ fmt_p (md_value data) @ '' |'') @
       '' parent: '' @ fmt_p (n_parent n) @ '' }'' @ [CHR 0x0A]) }"

partial_function (option) print_loop :: "(address \<Rightarrow> string) \<Rightarrow> mbptree \<Rightarrow> mbptree_bfs_iterator \<Rightarrow> string option" where
  "print_loop fmt_p t it =
     (if \<not> mbptree_bfs_iterator_valid it then Some '''' else do {
        node \<leftarrow> bfs_head_node it;
        out \<leftarrow> mbptree_print_node fmt_p t node;
        it \<leftarrow> mbptree_bfs_iterator_next t it;
        rest \<leftarrow> print_loop fmt_p t it;
        Some (out @ rest) })"

declare print_loop.simps [code]

definition mbptree_print :: "(address \<Rightarrow> string) \<Rightarrow> mbptree \<Rightarrow> (mbptree \<times> string) option" where
  "mbptree_print fmt_p t = do {
     (t, iterator) \<leftarrow> mbptree_bfs_first t;
     it \<leftarrow> iterator;
     out \<leftarrow> print_loop fmt_p t it;
     Some (t, out) }"

section \<open>Breadth-first order\<close>

text \<open>The children of a node, and the order in which a breadth-first search meets the nodes: the
  root, then the children of the nodes in this order.\<close>

definition kids :: "mbptree \<Rightarrow> address \<Rightarrow> address list" where
  "kids t a = (case nodes t a of
     Some n \<Rightarrow> if n_leaf n = 0 then take (Suc (n_size n)) (vals n) else [] | None \<Rightarrow> [])"

abbreviation kids_of :: "mbptree \<Rightarrow> address list \<Rightarrow> address list" where
  "kids_of t xs \<equiv> concat (map (kids t) xs)"

definition level_order :: "mbptree \<Rightarrow> address list \<Rightarrow> bool" where
  "level_order t order \<longleftrightarrow> order = root t # kids_of t order \<and> distinct order \<and> set order = {a. nodes t a \<noteq> None}"

lemma kids_group:
  assumes "group_ok t (a, g)"
  shows "kids t a = map fst g" "2 \<le> length g" "\<exists>n. nodes t a = Some n \<and> n_size n < length (n_data n)"
proof -
  from assms obtain n where n: "2 \<le> length g" "nodes t a = Some n" "inner_node (branch_factor t) g n" by (rule group_okE)
  then show "kids t a = map fst g" "2 \<le> length g" "\<exists>n. nodes t a = Some n \<and> n_size n < length (n_data n)"
    by (auto simp: kids_def inner_node_def)
qed

abbreviation inner_order :: "groups list \<Rightarrow> address list" where
  "inner_order Gs \<equiv> concat (rev (map (map fst) Gs))"

lemma level_kids:
  assumes "\<forall>ag \<in> set G. group_ok t ag"
  shows "kids_of t (map fst G) = map fst (concat (map snd G))"
proof -
  have "kids t (fst ag) = map fst (snd ag)" if "ag \<in> set G" for ag using assms that kids_group(1) [of t "fst ag" "snd ag"] by simp
  then have "map (\<lambda>ag. kids t (fst ag)) G = map (\<lambda>ag. map fst (snd ag)) G" by (intro map_cong) simp_all
  from arg_cong [OF this, of concat] have "kids_of t (map fst G) = concat (map (map fst) (map snd G))" by (simp add: comp_def)
  then show ?thesis by (simp only: map_concat [symmetric])
qed

lemma levels_order:
  assumes "levels_ok t L Gs"
  shows "inner_order Gs @ map fst L = root t # kids_of t (inner_order Gs)"
  using assms
proof (induction Gs arbitrary: L)
  case (Cons G Gs)
  have G: "concat (map snd G) = L" "\<forall>ag \<in> set G. group_ok t ag" "levels_ok t (heads G) Gs" using Cons.prems by auto
  define I where "I = inner_order Gs"
  have "(I @ map fst G) @ map fst L = root t # kids_of t (I @ map fst G)"
    unfolding map_append concat_append level_kids [OF G(2), unfolded G(1)]
    using Cons.IH [OF G(3), folded I_def] by (metis append_Cons heads_simps(4))
  moreover have "inner_order (G # Gs) = I @ map fst G" by (simp add: I_def)
  ultimately show ?case by (simp del: map_append concat_append append_assoc)
qed simp

lemma levels_kids:
  "levels_ok t L Gs \<Longrightarrow> a \<in> set (addrs Gs) \<Longrightarrow> 2 \<le> length (kids t a) \<and> (\<exists>n. nodes t a = Some n \<and> n_size n < length (n_data n))"
proof (induction Gs arbitrary: L)
  case (Cons G Gs)
  have G: "\<forall>ag \<in> set G. group_ok t ag" "levels_ok t (heads G) Gs" using Cons.prems by auto
  show ?case
  proof (cases "a \<in> fst ` set G")
    case True
    then obtain g where "group_ok t (a, g)" using G(1) by auto
    from kids_group [OF this] show ?thesis by simp
  qed (use Cons.IH [OF G(2)] Cons.prems(2) in auto)
qed simp

text \<open>How far the queue reaches when the first \<open>m\<close> nodes have been expanded.\<close>

definition reach :: "mbptree \<Rightarrow> address list \<Rightarrow> nat \<Rightarrow> nat" where
  "reach t order m = Suc (length (kids_of t (take m order)))"

lemma kids_prefix:
  assumes "order = root t # kids_of t order"
  shows "take (reach t order m) order = root t # kids_of t (take m order)" "reach t order m \<le> length order"
proof -
  define K D where "K = kids_of t (take m order)" and "D = kids_of t (drop m order)"
  have "kids_of t order = K @ D" unfolding K_def D_def by (metis append_take_drop_id concat_append map_append)
  with assms have o: "order = (root t # K) @ D" by simp
  have r: "reach t order m = Suc (length K)" by (simp add: reach_def K_def)
  show "take (reach t order m) order = root t # kids_of t (take m order)"
    unfolding r K_def [symmetric] by (subst o) simp
  show "reach t order m \<le> length order" unfolding r by (subst o) simp
qed

lemma distinct_concat_rev: "distinct (concat (rev xss)) = distinct (concat xss)"
  by (induction xss) (auto simp: Int_commute)

lemma leaf_kids:
  assumes "tree_inv t ls Gs" "a \<in> fst ` set ls"
  shows "kids t a = []" "\<exists>n. nodes t a = Some n \<and> n_size n < length (n_data n)"
proof -
  from assms(2) obtain es ls1 ls2 where "ls = ls1 @ (a, es) # ls2" by (auto dest: split_list)
  then obtain n where "nodes t a = Some n" "leaf_node (branch_factor t) es (case ls2 of [] \<Rightarrow> 0 | (y, _) # _ \<Rightarrow> y) n"
    using tree_inv_leaf [of t ls1 a es ls2 Gs] assms(1) by auto
  then show "kids t a = []" "\<exists>n. nodes t a = Some n \<and> n_size n < length (n_data n)" by (auto simp: kids_def leaf_node_def)
qed

text \<open>The nodes of a tree level by level, the leaves last.\<close>

abbreviation tree_order :: "leaves \<Rightarrow> groups list \<Rightarrow> address list" where
  "tree_order ls Gs \<equiv> inner_order Gs @ map fst ls"

lemma set_inner_order: "set (inner_order Gs) = set (addrs Gs)"
  by (auto simp: addrs_def)

lemma leaves_kids: "tree_inv t ls Gs \<Longrightarrow> set xs \<subseteq> fst ` set ls \<Longrightarrow> kids_of t xs = []"
  using leaf_kids(1) [of t ls Gs] by auto

lemma tree_order_root:
  assumes "tree_inv t ls Gs"
  shows "tree_order ls Gs = root t # kids_of t (inner_order Gs)"
proof -
  have "levels_ok t (leaf_level ls) Gs" using assms by (simp add: tree_inv_def)
  from levels_order [OF this] show ?thesis by simp
qed

lemma tree_order_kids:
  assumes "tree_inv t ls Gs"
  shows "tree_order ls Gs = root t # kids_of t (tree_order ls Gs)"
proof -
  have "kids_of t (map fst ls) = []" by (rule leaves_kids [OF assms]) simp
  then have "kids_of t (tree_order ls Gs) = kids_of t (inner_order Gs)" by (simp only: map_append concat_append append_Nil2)
  with tree_order_root [OF assms] show ?thesis by metis
qed

lemma tree_order_level:
  assumes "tree_inv t ls Gs"
  shows "level_order t (tree_order ls Gs)"
proof -
  have I: "distinct (map fst ls @ addrs Gs)" "\<And>x. nodes t x \<noteq> None \<longleftrightarrow> x \<in> set (map fst ls @ addrs Gs)"
    using assms by (auto simp: tree_inv_def)
  have "distinct (inner_order Gs)" using I(1) by (simp add: distinct_concat_rev addrs_def)
  then have "distinct (tree_order ls Gs)" using I(1) by (auto simp: set_inner_order simp del: set_concat set_rev)
  moreover have "set (tree_order ls Gs) = {a. nodes t a \<noteq> None}"
    using I(2) by (auto simp: set_inner_order simp del: set_concat set_rev)
  ultimately show ?thesis using tree_order_kids [OF assms] unfolding level_order_def by blast
qed

lemma tree_order_nodes:
  assumes inv: "tree_inv t ls Gs" and a: "a \<in> set (tree_order ls Gs)"
  shows "a \<noteq> 0 \<and> (\<exists>n. nodes t a = Some n \<and> n_size n < length (n_data n))"
proof -
  have h: "heap_ok t" "levels_ok t (leaf_level ls) Gs" using inv by (simp_all add: tree_inv_def)
  have "a \<in> set (addrs Gs) \<or> a \<in> fst ` set ls" using a set_inner_order [of Gs] by (simp only: set_append set_map Un_iff)
  then have "\<exists>n. nodes t a = Some n \<and> n_size n < length (n_data n)" using levels_kids [OF h(2)] leaf_kids(2) [OF inv] by blast
  moreover from this have "a \<noteq> 0" using heap_ok_fresh(2) [OF h(1)] by auto
  ultimately show ?thesis by blast
qed

lemma inner_kids:
  assumes inv: "tree_inv t ls Gs" and "set xs \<subseteq> set (inner_order Gs)"
  shows "2 * length xs \<le> length (kids_of t xs)"
  using assms(2)
proof (induction xs)
  case (Cons a xs)
  have "levels_ok t (leaf_level ls) Gs" using inv by (simp add: tree_inv_def)
  moreover have "a \<in> set (addrs Gs)" using Cons.prems set_inner_order [of Gs] by (simp only: insert_subset list.set)
  ultimately have "2 \<le> length (kids t a)" using levels_kids by blast
  moreover have "set xs \<subseteq> set (inner_order Gs)" using Cons.prems by (simp only: insert_subset list.set)
  ultimately show ?case using Cons.IH by simp
qed simp

text \<open>The queue never runs empty before the end, and there are fewer nodes than twice the entries.\<close>

lemma tree_order_reach:
  assumes inv: "tree_inv t ls Gs" and h: "Suc h < length (tree_order ls Gs)"
  shows "Suc h < reach t (tree_order ls Gs) (Suc h)"
proof (cases "h < length (inner_order Gs)")
  case True
  then have "take (Suc h) (tree_order ls Gs) = take (Suc h) (inner_order Gs)" by simp
  moreover have "2 * Suc h \<le> length (kids_of t (take (Suc h) (inner_order Gs)))"
    using inner_kids [OF inv set_take_subset, of "Suc h"] True by simp
  ultimately show ?thesis by (simp add: reach_def)
next
  case False
  then have "take (Suc h) (tree_order ls Gs) = inner_order Gs @ take (Suc h - length (inner_order Gs)) (map fst ls)" by simp
  moreover have "kids_of t (take m (map fst ls)) = []" for m
    by (rule leaves_kids [OF inv]) (use set_take_subset [of m "map fst ls"] in simp)
  ultimately have "reach t (tree_order ls Gs) (Suc h) = Suc (length (kids_of t (inner_order Gs)))" by (simp only: reach_def map_append concat_append append_Nil2)
  then show ?thesis using h arg_cong [OF tree_order_root [OF inv], of length] by simp
qed

lemma length_entries_ge: "\<forall>l \<in> set ls. snd l \<noteq> [] \<Longrightarrow> length ls \<le> length (entries ls)"
proof (induction ls)
  case (Cons l ls)
  then have "length ls \<le> length (entries ls)" "0 < length (snd l)" by simp_all
  then show ?case unfolding entries_def list.map concat.simps length_append list.size by linarith
qed simp

lemma tree_order_short:
  assumes inv: "tree_inv t ls Gs"
  shows "length (tree_order ls Gs) < 2 * max 1 (length (entries ls))"
proof -
  have "length (tree_order ls Gs) = Suc (length (kids_of t (inner_order Gs)))" using arg_cong [OF tree_order_root [OF inv], of length] by simp
  then have "length (tree_order ls Gs) < 2 * length ls" using inner_kids [OF inv order_refl] by simp
  moreover have "length ls \<le> max 1 (length (entries ls))"
  proof (cases "\<exists>l \<in> set ls. snd l = []")
    case False
    then show ?thesis using length_entries_ge [of ls] by auto
  qed (use inv in \<open>auto simp: tree_inv_def\<close>)
  ultimately show ?thesis by linarith
qed

lemma level_order_exists:
  assumes "tree_inv t ls Gs"
  obtains order where "level_order t order"
    "\<And>a. a \<in> set order \<Longrightarrow> a \<noteq> 0 \<and> (\<exists>n. nodes t a = Some n \<and> n_size n < length (n_data n))"
    "\<And>h. Suc h < length order \<Longrightarrow> Suc h < reach t order (Suc h)"
    "length order < 2 * max 1 (length (entries ls))"
  by (rule that [OF tree_order_level [OF assms] tree_order_nodes [OF assms] tree_order_reach [OF assms] tree_order_short [OF assms]])

section \<open>The queue of the iterator\<close>

lemma push_children:
  assumes "map (\<lambda>i. md_value (n_data n ! i)) is = xs" "\<forall>i \<in> set is. i < length (n_data n)"
    and "bfs_tail it \<le> length (bfs_queue it)"
  shows "bfs_push_children it n is =
    (if bfs_tail it + length xs \<le> length (bfs_queue it)
     then Some (it\<lparr>bfs_queue := take (bfs_tail it) (bfs_queue it) @ xs @ drop (bfs_tail it + length xs) (bfs_queue it),
                  bfs_tail := bfs_tail it + length xs\<rparr>) else None)"
  using assms
proof (induction "is" arbitrary: it xs)
  case (Cons i "is")
  then obtain ys where xs: "xs = md_value (n_data n ! i) # ys" "map (\<lambda>i. md_value (n_data n ! i)) is = ys" by auto
  show ?case
  proof (cases "bfs_tail it < length (bfs_queue it)")
    case True
    define q where "q = (bfs_queue it)[bfs_tail it := md_value (n_data n ! i)]"
    let ?it = "it\<lparr>bfs_queue := q, bfs_tail := Suc (bfs_tail it)\<rparr>"
    have q: "length q = length (bfs_queue it)" "take (Suc (bfs_tail it)) q = take (bfs_tail it) (bfs_queue it) @ [md_value (n_data n ! i)]"
      "\<And>m. drop (Suc (bfs_tail it) + m) q = drop (Suc (bfs_tail it) + m) (bfs_queue it)"
      using True by (simp_all add: q_def take_update_snoc)
    have "bfs_push_children it n (i # is) = bfs_push_children ?it n is"
      using True Cons.prems(2) by (simp add: get_data_eq bfs_push_def q_def)
    also have "\<dots> = (if Suc (bfs_tail it) + length ys \<le> length q
        then Some (?it\<lparr>bfs_queue := take (Suc (bfs_tail it)) q @ ys @ drop (Suc (bfs_tail it) + length ys) q,
                  bfs_tail := Suc (bfs_tail it) + length ys\<rparr>) else None)"
      using Cons.IH [of ys ?it] xs(2) Cons.prems(2) True q(1) by simp
    finally show ?thesis unfolding q xs(1) by simp
  next
    case False
    then show ?thesis using Cons.prems(2) by (simp add: get_data_eq bfs_push_def xs(1))
  qed
qed (simp add: append_take_drop_id)

text \<open>The iterator when its head is at position \<open>h\<close> of the order and the queue holds the first \<open>m\<close>
  nodes.\<close>

definition bfs_state :: "address list \<Rightarrow> nat \<Rightarrow> nat \<Rightarrow> mbptree_bfs_iterator" where
  "bfs_state order m h = \<lparr>bfs_head = h, bfs_tail = m, bfs_queue = take m order @ replicate (bfs_capacity - m) 0\<rparr>"

lemma bfs_state_head:
  assumes "m \<le> length order" "m \<le> bfs_capacity"
  shows "bfs_head_node (bfs_state order m h) =
    (if h < m then Some (order ! h) else if h < bfs_capacity then Some 0 else None)"
  using assms by (simp add: bfs_head_node_def bfs_state_def nth_append)

lemma reach_Suc: "h < length order \<Longrightarrow> reach t order (Suc h) = reach t order h + length (kids t (order ! h))"
  by (simp add: reach_def take_Suc_conv_app_nth)

lemma expand:
  assumes o: "order = root t # kids_of t order" and h: "h < length order" and m: "reach t order h \<le> bfs_capacity"
    and n: "nodes t (order ! h) = Some n" "n_size n < length (n_data n)"
  defines "it \<equiv> bfs_state order (reach t order h) h"
  shows "(if n_leaf n = 0 then bfs_push_children it n [0..<Suc (n_size n)] else Some it) =
    (if reach t order (Suc h) \<le> bfs_capacity then Some (bfs_state order (reach t order (Suc h)) h) else None)"
proof (cases "n_leaf n = 0")
  case True
  have k: "map (\<lambda>i. md_value (n_data n ! i)) [0..<Suc (n_size n)] = kids t (order ! h)"
    using n True by (intro nth_equalityI) (simp_all add: kids_def del: upt_Suc)
  have P: "take (reach t order j) order = root t # kids_of t (take j order)" "reach t order j \<le> length order" for j
    using kids_prefix [OF o] by blast+
  have tk: "take (reach t order (Suc h)) order = take (reach t order h) order @ kids t (order ! h)"
    unfolding P(1) using h by (simp add: take_Suc_conv_app_nth)
  have "bfs_push_children it n [0..<Suc (n_size n)] =
    (if bfs_tail it + length (kids t (order ! h)) \<le> length (bfs_queue it)
     then Some (it\<lparr>bfs_queue := take (bfs_tail it) (bfs_queue it) @ kids t (order ! h) @
                    drop (bfs_tail it + length (kids t (order ! h))) (bfs_queue it),
                  bfs_tail := bfs_tail it + length (kids t (order ! h))\<rparr>) else None)"
    by (rule push_children [OF k]) (use n m P(2) [of h] in \<open>auto simp: it_def bfs_state_def\<close>)
  then show ?thesis using True m P(2) [of h] by (simp add: it_def bfs_state_def tk [unfolded reach_Suc [OF h]] reach_Suc [OF h])
next
  case False
  then have "kids t (order ! h) = []" using n by (simp add: kids_def)
  then show ?thesis using False m by (simp add: it_def reach_Suc [OF h])
qed

lemma bfs_next:
  assumes lo: "order = root t # kids_of t order" and h: "h < length order" and m: "reach t order (Suc h) \<le> bfs_capacity"
    and N: "\<And>a. a \<in> set order \<Longrightarrow> a \<noteq> 0 \<and> (\<exists>n. nodes t a = Some n \<and> n_size n < length (n_data n))"
    and R: "\<And>h. Suc h < length order \<Longrightarrow> Suc h < reach t order (Suc h)"
  shows "mbptree_bfs_iterator_next t (bfs_state order (reach t order (Suc h)) h) =
    (if Suc h < length order
     then if reach t order (Suc (Suc h)) \<le> bfs_capacity then Some (bfs_state order (reach t order (Suc (Suc h))) (Suc h)) else None
     else if length order < bfs_capacity then Some (bfs_state order (length order) (length order)) else None)"
proof -
  let ?m = "reach t order (Suc h)"
  have le: "?m \<le> length order" using kids_prefix(2) [OF lo] .
  have up: "(bfs_state order m h)\<lparr>bfs_head := Suc (bfs_head (bfs_state order m h))\<rparr> = bfs_state order m (Suc h)" for m
    by (simp add: bfs_state_def)
  have run: "mbptree_bfs_iterator_next t (bfs_state order m h) = do {
      a \<leftarrow> bfs_head_node (bfs_state order m (Suc h));
      if a = 0 then Some (bfs_state order m (Suc h)) else do {
        n \<leftarrow> nodes t a;
        if n_leaf n = 0 then bfs_push_children (bfs_state order m (Suc h)) n [0..<Suc (n_size n)]
        else Some (bfs_state order m (Suc h)) } }" for m
    by (simp only: mbptree_bfs_iterator_next_def up Let_def)
  show ?thesis
  proof (cases "Suc h < length order")
    case True
    then have "order ! Suc h \<in> set order" by simp
    from N [OF this] obtain n where n: "order ! Suc h \<noteq> 0" "nodes t (order ! Suc h) = Some n" "n_size n < length (n_data n)" by blast
    show ?thesis
      using expand [OF lo True m n(2,3)] True R [OF True] n(1,2)
      by (simp add: run bfs_state_head [OF le m] del: upt_Suc)
  next
    case False
    with h have hl: "Suc h = length order" by simp
    then have "?m = Suc (length (kids_of t order))" by (simp add: reach_def)
    also have "\<dots> = length order" using arg_cong [OF lo, of length] by simp
    finally have "?m = length order" .
    then show ?thesis using m hl by (simp add: run bfs_state_head)
  qed
qed

section \<open>What is printed\<close>

lemma print_entries_some:
  assumes "\<And>j. j \<in> set js \<Longrightarrow> j < length (n_data n)"
  shows "\<exists>out. print_entries fmt_p n js = Some out"
  using assms
proof (induction js)
  case (Cons j js)
  then obtain rest where "print_entries fmt_p n js = Some rest" by auto
  then show ?case using Cons.prems [of j] by (simp add: print_entry_def get_data_eq Let_def)
qed simp

lemma print_node_some:
  assumes "nodes t a = Some n" "n_size n < length (n_data n)"
  shows "\<exists>out. mbptree_print_node fmt_p t a = Some out"
proof -
  obtain out where "print_entries fmt_p n [0..<n_size n] = Some out" using print_entries_some [of "[0..<n_size n]" n fmt_p] assms(2) by auto
  then show ?thesis using assms by (simp add: mbptree_print_node_def get_data_eq)
qed

lemma print_loop_order:
  assumes lo: "order = root t # kids_of t order" and outs: "map (mbptree_print_node fmt_p t) order = map Some outs"
    and N: "\<And>a. a \<in> set order \<Longrightarrow> a \<noteq> 0 \<and> (\<exists>n. nodes t a = Some n \<and> n_size n < length (n_data n))"
    and R: "\<And>h. Suc h < length order \<Longrightarrow> Suc h < reach t order (Suc h)"
    and "h < length order" "reach t order (Suc h) \<le> bfs_capacity"
  shows "print_loop fmt_p t (bfs_state order (reach t order (Suc h)) h) =
    (if length order < bfs_capacity then Some (concat (drop h outs)) else None)"
  using assms(5,6)
proof (induction "length order - h" arbitrary: h rule: less_induct)
  case less
  note h = less.prems(1) and m = less.prems(2)
  let ?it = "bfs_state order (reach t order (Suc h)) h"
  have lo': "length order = length outs" using arg_cong [OF outs, of length] by simp
  have hm: "h < reach t order (Suc h)"
  proof (cases h)
    case (Suc h')
    then show ?thesis using R [of h'] h reach_Suc [OF h] by simp
  qed (simp add: reach_def)
  have v: "mbptree_bfs_iterator_valid ?it" using hm by (simp add: mbptree_bfs_iterator_valid_def bfs_state_def)
  have hd: "bfs_head_node ?it = Some (order ! h)" using bfs_state_head [OF kids_prefix(2) [OF lo] m] hm by simp
  have out: "mbptree_print_node fmt_p t (order ! h) = Some (outs ! h)"
    using arg_cong [OF outs, of "\<lambda>xs. xs ! h"] h lo' by simp
  have dr: "drop h outs = outs ! h # drop (Suc h) outs" using h lo' by (simp add: Cons_nth_drop_Suc)
  have run: "print_loop fmt_p t ?it = do {
      it \<leftarrow> mbptree_bfs_iterator_next t ?it; rest \<leftarrow> print_loop fmt_p t it; Some (outs ! h @ rest) }"
    using v hd out by (subst print_loop.simps) simp
  note nx = bfs_next [OF lo h m N R]
  show ?case
  proof (cases "Suc h < length order")
    case True
    show ?thesis
    proof (cases "reach t order (Suc (Suc h)) \<le> bfs_capacity")
      case fits: True
      show ?thesis using less.hyps [OF _ True fits] h True fits by (simp add: run nx dr)
    next
      case False
      then have "\<not> length order < bfs_capacity" using kids_prefix(2) [OF lo, of "Suc (Suc h)"] by linarith
      then show ?thesis using True False by (simp add: run nx)
    qed
  next
    case False
    have "print_loop fmt_p t (bfs_state order (length order) (length order)) = Some []"
      by (subst print_loop.simps) (simp add: mbptree_bfs_iterator_valid_def bfs_state_def)
    moreover have "drop (Suc h) outs = []" using False lo' by simp
    ultimately show ?thesis using False by (simp add: run nx dr)
  qed
qed

lemma bfs_first_order:
  assumes lo: "order = root t # kids_of t order" and al: "allocs t = []"
    and N: "\<And>a. a \<in> set order \<Longrightarrow> a \<noteq> 0 \<and> (\<exists>n. nodes t a = Some n \<and> n_size n < length (n_data n))"
  shows "mbptree_bfs_first t =
    (if reach t order 1 \<le> bfs_capacity then Some (t, Some (bfs_state order (reach t order 1) 0)) else None)"
proof -
  have h: "0 < length order" "order ! 0 = root t" using arg_cong [OF lo, of length] arg_cong [OF lo, of "\<lambda>xs. xs ! 0"] by auto
  have c: "1 \<le> bfs_capacity" by (simp add: bfs_capacity_def QUEUE_SIZE_def)
  have r: "reach t order 0 = 1" by (simp add: reach_def)
  from h N [of "root t"] obtain n where n: "nodes t (order ! 0) = Some n" "n_size n < length (n_data n)" by (metis nth_mem)
  have tk: "take (Suc 0) order = [root t]" using h by (cases order) simp_all
  have z: "replicate bfs_capacity 0 = 0 # replicate (bfs_capacity - 1) (0 :: nat)"
    using c by (metis Suc_diff_1 less_eq_Suc_le One_nat_def replicate_Suc)
  have st: "bfs_push \<lparr>bfs_head = 0, bfs_tail = 0, bfs_queue = replicate bfs_capacity 0\<rparr> (root t) = Some (bfs_state order 1 0)"
    using c by (simp add: bfs_push_def bfs_state_def tk z)
  have hd: "bfs_head_node (bfs_state order (Suc 0) 0) = Some (root t)" using h c bfs_state_head [of 1 order 0] by (simp add: Suc_le_eq)
  have E: "(if n_leaf n = 0 then bfs_push_children (bfs_state order 1 0) n [0..<Suc (n_size n)] else Some (bfs_state order 1 0)) =
    (if reach t order 1 \<le> bfs_capacity then Some (bfs_state order (reach t order 1) 0) else None)"
    using expand [OF lo h(1) _ n] c by (simp only: r One_nat_def)
  have "mbptree_bfs_first t = map_option (\<lambda>it. (t, Some it))
      (if n_leaf n = 0 then bfs_push_children (bfs_state order 1 0) n [0..<Suc (n_size n)] else Some (bfs_state order 1 0))"
    using n(1) h(2) al by (simp add: mbptree_bfs_first_def alloc_outcome_def st hd map_conv_bind_option comp_def del: upt_Suc)
  then show ?thesis unfolding E by simp
qed

text \<open>C21. Printing a tree writes its nodes in breadth-first order: the root first, then the
  children of each node in the order of the nodes, every node of the tree once. It
  returns, and leaves the tree as it was, when the tree has fewer nodes than the 2048 pointers the iterator's queue has room for,
  in particular with at most 1024 entries; with 2048 nodes or more the queue is overrun.\<close>

theorem mbptree_print_level_order:
  assumes "tree_rep t es" "allocs t = []"
  shows "\<exists>order outs. level_order t order \<and> map (mbptree_print_node fmt_p t) order = map Some outs \<and>
    mbptree_print fmt_p t = (if length order < 2048 then Some (t, concat outs) else None) \<and>
    (length es \<le> 1024 \<longrightarrow> length order < 2048)"
proof -
  from assms(1) obtain ls Gs where "tree_inv t ls Gs" and es: "es = entries ls" by (auto simp: tree_rep_def)
  from level_order_exists [OF this(1)] obtain order where lo: "level_order t order"
    and N: "\<And>a. a \<in> set order \<Longrightarrow> a \<noteq> 0 \<and> (\<exists>n. nodes t a = Some n \<and> n_size n < length (n_data n))"
    and R: "\<And>h. Suc h < length order \<Longrightarrow> Suc h < reach t order (Suc h)"
    and len: "length order < 2 * max 1 (length es)" unfolding es by blast
  from lo have o: "order = root t # kids_of t order" by (simp add: level_order_def)
  define outs where "outs = map (\<lambda>a. the (mbptree_print_node fmt_p t a)) order"
  have outs: "map (mbptree_print_node fmt_p t) order = map Some outs"
  proof -
    have "mbptree_print_node fmt_p t a = Some (the (mbptree_print_node fmt_p t a))" if "a \<in> set order" for a
      using N [OF that] print_node_some [of t a _ fmt_p] by fastforce
    then show ?thesis by (simp add: outs_def)
  qed
  have c: "bfs_capacity = 2048" by (simp add: bfs_capacity_def QUEUE_SIZE_def)
  have h: "0 < length order" using arg_cong [OF o, of length] by simp
  have "mbptree_print fmt_p t = (if length order < bfs_capacity then Some (t, concat outs) else None)"
  proof (cases "reach t order 1 \<le> bfs_capacity")
    case True
    then show ?thesis using print_loop_order [OF o outs N R h] bfs_first_order [OF o assms(2) N]
      by (simp add: mbptree_print_def)
  next
    case False
    then have "\<not> length order < bfs_capacity" using kids_prefix(2) [OF o, of 1] by linarith
    then show ?thesis using False bfs_first_order [OF o assms(2) N] by (simp add: mbptree_print_def)
  qed
  moreover have "length order < 2048" if "length es \<le> 1024" using len that by linarith
  ultimately show ?thesis using lo outs unfolding c by blast
qed

theorem mbptree_print_level_order_witness:
  "\<exists>t order outs. demo_tree [(1, 10), (3, 30), (5, 50), (7, 70), (9, 90)] = Some t \<and> level_order t order \<and>
     map (mbptree_print_node dec t) order = map Some outs \<and> mbptree_print dec t = Some (t, concat outs)"
proof -
  obtain t where t: "demo_tree [(1, 10), (3, 30), (5, 50), (7, 70), (9, 90)] = Some t"
    "index_rep t [(1, 10), (3, 30), (5, 50), (7, 70), (9, 90)]"
    using demo_tree_rep [of "[(1, 10), (3, 30), (5, 50), (7, 70), (9, 90)]"] by auto
  then have "tree_rep t [(1, 10), (3, 30), (5, 50), (7, 70), (9, 90)]" "allocs t = []" by (simp_all add: index_rep_def)
  from mbptree_print_level_order [OF this, of dec] t(1) show ?thesis by auto
qed

end
