(* ===== verification/Mqlog.thy ===== *)
theory Mqlog
  imports Segment Mbptree
begin

text \<open>
  \<^verbatim>\<open>src/src/mqlog.c\<close>: the log, a directory of segments and the tree that maps the base offset of
  every segment to it. The segments that the log has allocated are kept with it: the values
  of the tree are addresses in \<open>lg_sgms\<close>, and a segment is no longer there once it has been
  closed. Calls of the threads library may fail like any other system call; \<open>errno\<close> is not
  set by them, so its value is whatever was left there and an argument here. The names in a
  directory come in the order in which \<open>readdir\<close> delivers them, a list that is an argument too.
\<close>

section \<open>Data\<close>

definition BRANCH_FACTOR :: nat where "BRANCH_FACTOR = 7"
definition MAX_DIR_SIZE :: nat where "MAX_DIR_SIZE = 1024"
definition MQLOG_RDDRT :: u32 where "MQLOG_RDDRT = 0x0"
definition MQLOG_RDCMT :: u32 where "MQLOG_RDCMT = 0x1"

record mqlog =
  lg_size :: u64
  lg_flags :: u32
  lg_dir :: string
  lg_index :: "mbptree option"
  lg_lock :: bool
  lg_sgms :: "address \<Rightarrow> segment option"
  lg_next :: address

section \<open>The C library\<close>

definition EBUSY :: int where "EBUSY = 16"
definition EINVAL :: int where "EINVAL = 22"

definition pthread_mutex_trylock :: "os \<Rightarrow> mqlog \<Rightarrow> os \<times> mqlog \<times> int" where
  "pthread_mutex_trylock s lg = (let (ok, s) = sys_call s in
     if \<not> ok then (s, lg, EINVAL)
     else if lg_lock lg then (s, lg, EBUSY) else (s, lg\<lparr>lg_lock := True\<rparr>, 0))"

definition pthread_mutex_unlock :: "os \<Rightarrow> mqlog \<Rightarrow> os \<times> mqlog \<times> int" where
  "pthread_mutex_unlock s lg = (let (ok, s) = sys_call s in
     if \<not> ok then (s, lg, EINVAL) else (s, lg\<lparr>lg_lock := False\<rparr>, 0))"

section \<open>Segments of a log\<close>

text \<open>The functions of \<^verbatim>\<open>segment.c\<close>, called with a pointer to a segment.\<close>

definition alloc_segment :: "mqlog \<Rightarrow> segment \<Rightarrow> mqlog \<times> address" where
  "alloc_segment lg sgm =
     (lg\<lparr>lg_sgms := (lg_sgms lg)(lg_next lg \<mapsto> sgm), lg_next := Suc (lg_next lg)\<rparr>, lg_next lg)"

definition open_segment ::
  "os \<Rightarrow> mqlog \<Rightarrow> u64 \<Rightarrow> u32 \<Rightarrow> u32 \<Rightarrow> (os \<times> mqlog \<times> int \<times> address) option" where
  "open_segment s lg base_offset sz flags = do {
     (s, rc, sgm) \<leftarrow> segment_open s (lg_dir lg) base_offset sz flags;
     case sgm of
       None \<Rightarrow> Some (s, lg, rc, 0)
     | Some sgm \<Rightarrow> (let (lg, a) = alloc_segment lg sgm in Some (s, lg, rc, a)) }"

definition write_segment :: "os \<Rightarrow> mqlog \<Rightarrow> address \<Rightarrow> bytes \<Rightarrow> (os \<times> mqlog \<times> int) option" where
  "write_segment s lg a buf = do {
     sgm \<leftarrow> lg_sgms lg a;
     (s, sgm, rc) \<leftarrow> segment_write s sgm buf;
     Some (s, lg\<lparr>lg_sgms := (lg_sgms lg)(a \<mapsto> sgm)\<rparr>, rc) }"

definition close_segment :: "os \<Rightarrow> mqlog \<Rightarrow> address \<Rightarrow> (os \<times> mqlog \<times> int) option" where
  "close_segment s lg a = do {
     sgm \<leftarrow> lg_sgms lg a;
     let (s, sgm, rc) = segment_close s sgm;
     Some (s, lg\<lparr>lg_sgms := (lg_sgms lg)(a := sgm)\<rparr>, rc) }"

definition create_segment :: "os \<Rightarrow> mqlog \<Rightarrow> u64 \<Rightarrow> (os \<times> mqlog \<times> int \<times> address) option" where
  "create_segment s lg base_offset =
     (let flags = (if lg_flags lg AND MQLOG_RDCMT = MQLOG_RDCMT then SGM_RDCMT else SGM_RDDRT) in
      open_segment s lg base_offset (u32_of_size (lg_size lg)) flags)"

section \<open>Writing\<close>

text \<open>The call of \<open>mbptree_append\<close>, and the last part of \<open>mqlog_trywrite\<close>, which enters a new
  segment into the index.\<close>

definition append_index :: "mqlog \<Rightarrow> u64 \<Rightarrow> address \<Rightarrow> (mqlog \<times> int) option" where
  "append_index lg key a = do {
     index \<leftarrow> lg_index lg;
     (index, rc) \<leftarrow> mbptree_append index key a;
     Some (lg\<lparr>lg_index := Some index\<rparr>, rc) }"

definition index_segment :: "os \<Rightarrow> mqlog \<Rightarrow> address \<Rightarrow> int \<Rightarrow> (os \<times> mqlog \<times> int) option" where
  "index_segment s lg a written = do {
     sgm \<leftarrow> lg_sgms lg a;
     (lg, rc) \<leftarrow> append_index lg (segment_base_offset sgm) a;
     if rc = ELIDXPC then do { (s, lg, _) \<leftarrow> close_segment s lg a; Some (s, lg, rc) }
     else if rc \<noteq> 0 then do { (s, lg, _) \<leftarrow> close_segment s lg a; Some (s, lg, ELIDXOP) }
     else Some (s, lg, written) }"

definition mqlog_trywrite :: "os \<Rightarrow> mqlog \<Rightarrow> bytes \<Rightarrow> (os \<times> mqlog \<times> int) option" where
  "mqlog_trywrite s lg buf = do {
     index \<leftarrow> lg_index lg;
     (_, value) \<leftarrow> mbptree_last_value index;
     (s, lg, rc, sgm, new_segment) \<leftarrow>
       (case value of
          Some a \<Rightarrow> Some (s, lg, 0, a, False)
        | None \<Rightarrow> do { (s, lg, rc, a) \<leftarrow> create_segment s lg 0; Some (s, lg, rc, a, True) });
     if rc \<noteq> 0 then Some (s, lg, rc) else do {
       (s, lg, written) \<leftarrow> write_segment s lg sgm buf;
       if written = ELEOS \<and> new_segment then do {
         (s, lg, _) \<leftarrow> close_segment s lg sgm;
         Some (s, lg, ELNOWCP) }
       else if written = ELEOS then do {
         g \<leftarrow> lg_sgms lg sgm;
         let new_base_offset = segment_write_offset g;
         (s, lg, rc, sgm) \<leftarrow> create_segment s lg new_base_offset;
         if rc \<noteq> 0 then Some (s, lg, rc) else do {
           (s, lg, written) \<leftarrow> write_segment s lg sgm buf;
           if written = ELEOS then do {
             (s, lg, _) \<leftarrow> close_segment s lg sgm;
             Some (s, lg, ELNOWCP) }
           else index_segment s lg sgm written } }
       else if new_segment then index_segment s lg sgm written
       else Some (s, lg, written) } }"

definition mqlog_write :: "os \<Rightarrow> mqlog \<Rightarrow> int \<Rightarrow> bytes \<Rightarrow> (os \<times> mqlog \<times> int) option" where
  "mqlog_write s lg errno buf =
     (if length buf = 0 then Some (s, lg, 0) else
      (let (s, lg, rc) = pthread_mutex_trylock s lg in
       if rc = EBUSY then Some (s, lg, ELLOCK)
       else if rc \<noteq> 0 then Some (s, lg, if errno = EBUSY then ELLOCK else ELLCKOP)
       else do {
         (s, lg, written) \<leftarrow> mqlog_trywrite s lg buf;
         let (s, lg, rc) = pthread_mutex_unlock s lg;
         Some (s, lg, if rc \<noteq> 0 then ELLCKOP else written) }))"

section \<open>Reading\<close>

definition mqlog_tryread ::
  "os \<Rightarrow> mqlog \<Rightarrow> int \<Rightarrow> u64 \<Rightarrow> frame \<Rightarrow> (os \<times> mqlog \<times> int \<times> frame) option" where
  "mqlog_tryread s lg errno offset fr =
     (let (s, lg, rc) = pthread_mutex_trylock s lg in
      if rc = EBUSY then Some (s, lg, ELLOCK, fr)
      else if rc \<noteq> 0 then Some (s, lg, if errno = EBUSY then ELLOCK else ELLCKOP, fr)
      else do {
        index \<leftarrow> lg_index lg;
        (index, rc, iterator) \<leftarrow> mbptree_leaf_floor index offset;
        let lg = lg\<lparr>lg_index := Some index\<rparr>;
        if rc \<noteq> 0 then Some (s, lg, rc, fr) else do {
          it \<leftarrow> iterator;
          valid \<leftarrow> mbptree_leaf_iterator_valid index it;
          let (s, lg, rc) = pthread_mutex_unlock s lg;
          if \<not> valid then Some (s, lg, if rc \<noteq> 0 then ELLCKOP else ELNORD, fr)
          else if rc \<noteq> 0 then Some (s, lg, ELLCKOP, fr)
          else do {
            a \<leftarrow> mbptree_leaf_iterator_value index it;
            sgm \<leftarrow> lg_sgms lg a;
            (rc, fr) \<leftarrow> segment_read s sgm (offset - segment_base_offset sgm) fr;
            Some (s, lg, rc, fr) } } })"

definition mqlog_read ::
  "os \<Rightarrow> mqlog \<Rightarrow> int \<Rightarrow> u64 \<Rightarrow> frame \<Rightarrow> (os \<times> mqlog \<times> int \<times> frame) option" where
  "mqlog_read s lg errno offset fr = mqlog_tryread s lg errno offset fr"

definition mqlog_sync :: "os \<Rightarrow> mqlog \<Rightarrow> (os \<times> mqlog \<times> int) option" where
  "mqlog_sync s lg = do {
     index \<leftarrow> lg_index lg;
     (_, value) \<leftarrow> mbptree_last_value index;
     case value of
       Some a \<Rightarrow> do {
         sgm \<leftarrow> lg_sgms lg a;
         let (s, sgm, rc) = segment_sync s sgm;
         Some (s, lg\<lparr>lg_sgms := (lg_sgms lg)(a \<mapsto> sgm)\<rparr>, rc) }
     | None \<Rightarrow> Some (s, lg, 0) }"

section \<open>Closing\<close>

text \<open>The loop over the index; \<open>n\<close> counts the segments that could not be closed.\<close>

partial_function (option) close_segments ::
  "os \<Rightarrow> mqlog \<Rightarrow> mbptree \<Rightarrow> mbptree_leaf_iterator \<Rightarrow> nat \<Rightarrow> (os \<times> mqlog \<times> nat) option" where
  "close_segments s lg index it n = do {
     valid \<leftarrow> mbptree_leaf_iterator_valid index it;
     if \<not> valid then Some (s, lg, n) else do {
       a \<leftarrow> mbptree_leaf_iterator_value index it;
       (s, lg, rc) \<leftarrow> close_segment s lg a;
       it \<leftarrow> mbptree_leaf_iterator_next index it;
       close_segments s lg index it (if rc \<noteq> 0 then Suc n else n) } }"

declare close_segments.simps [code]

text \<open>In the end the structure of the log itself is freed. The log in the result is what is then
  left of the memory it owned: the segments that have not been closed and the nodes of the index
  that have not been freed.\<close>

definition mqlog_close :: "os \<Rightarrow> mqlog \<Rightarrow> (os \<times> mqlog \<times> int) option" where
  "mqlog_close s lg = (case lg_index lg of
     None \<Rightarrow> Some (s, lg, 0)
   | Some index \<Rightarrow> do {
       (index, rc, iterator) \<leftarrow> mbptree_leaf_first index;
       if rc \<noteq> 0 then Some (s, lg\<lparr>lg_index := Some index\<rparr>, rc) else do {
         it \<leftarrow> iterator;
         (s, lg, errors) \<leftarrow> close_segments s lg index it 0;
         (index, rc) \<leftarrow> mbptree_free index;
         let errors = (if rc \<noteq> 0 then Suc errors else errors);
         Some (s, lg\<lparr>lg_index := Some index\<rparr>, if errors = 0 then 0 else ELLGCLS) } })"

section \<open>Opening\<close>

fun load_loop :: "os \<Rightarrow> mqlog \<Rightarrow> string list \<Rightarrow> (os \<times> mqlog \<times> int) option" where
  "load_loop s lg [] = Some (s, lg, 0)"
| "load_loop s lg (d_name # names) =
     (if has_suffix (Some d_name) (Some ''.log'') = 0 then load_loop s lg names else
      (let str = fst (snprintf MAX_DIR_SIZE (lg_dir lg @ ''/'' @ d_name));
           (sz, s) = file_size s str in
       if sz = - 1 then Some (s, lg, ELLDSGM) else
       (let str = fst (snprintf MAX_DIR_SIZE d_name);
            offset = word_of_int (strtoll10 str) in do {
         (s, lg, rc, sgm) \<leftarrow> open_segment s lg offset (word_of_int sz) (lg_flags lg);
         if rc \<noteq> 0 then Some (s, lg, ELLDSGM) else do {
           (lg, rc) \<leftarrow> append_index lg offset sgm;
           if rc = ELIDXPC then do { (s, lg, _) \<leftarrow> close_segment s lg sgm; Some (s, lg, rc) }
           else if rc \<noteq> 0 then do { (s, lg, _) \<leftarrow> close_segment s lg sgm; Some (s, lg, ELLDSGM) }
           else load_loop s lg names } })))"

text \<open>When \<open>opendir\<close> fails, \<open>closedir\<close> gets a null pointer, which it does not take.\<close>

definition load_segments :: "os \<Rightarrow> mqlog \<Rightarrow> string list \<Rightarrow> (os \<times> mqlog \<times> int) option" where
  "load_segments s lg names =
     (let (ok, s) = sys_call s in
      if \<not> ok \<or> lg_dir lg \<notin> set (dirs s) then None else load_loop s lg names)"

definition mqlog_open ::
  "os \<Rightarrow> string list \<Rightarrow> bool list \<Rightarrow> string \<Rightarrow> u64 \<Rightarrow> u32 \<Rightarrow> (os \<times> int \<times> mqlog option) option" where
  "mqlog_open s names outs dir sz flags =
     (if sz mod pagesize s \<noteq> 0 then Some (s, ELNOPGM, None) else
      (let (rc, s) = ensure_directory s dir in
       if rc \<noteq> 0 then Some (s, ELLGDIR, None) else
       (let (ok, s) = sys_call s in
        if \<not> ok then Some (s, ELALLC, None) else
        (let lg = \<lparr>lg_size = sz, lg_flags = flags, lg_dir = fst (snprintf MAX_DIR_SIZE dir),
                   lg_index = None, lg_lock = False, lg_sgms = Map.empty, lg_next = 1\<rparr> in do {
          index \<leftarrow> mbptree_init outs BRANCH_FACTOR;
          let lg = lg\<lparr>lg_index := index\<rparr>;
          if index = None then do { (s, lg, _) \<leftarrow> mqlog_close s lg; Some (s, ELIDXCR, None) } else
          (let (ok, s) = sys_call s in
           if \<not> ok then do { (s, lg, _) \<leftarrow> mqlog_close s lg; Some (s, ELLCKOP, None) } else do {
             (s, lg, rc) \<leftarrow> load_segments s lg names;
             if rc \<noteq> 0 then do { (s, lg, _) \<leftarrow> mqlog_close s lg; Some (s, rc, None) }
             else Some (s, 0, Some lg) }) }))))"

end
