(* ===== verification/Mqlog_Segments.thy ===== *)
theory Mqlog_Segments
  imports Mqlog Segment_Theorems
begin

text \<open>
  A segment as the log holds it: open for writing or marked at its end, on the files of the
  directory of the log. What each operation of the segment does to one such segment, and that
  it leaves the others alone, because the files of different base offsets are different.
\<close>

section \<open>Names\<close>

lemma print_jd_inject: "print_jd v = print_jd w \<longleftrightarrow> v = w"
proof
  assume "print_jd v = print_jd w"
  then have "(word_of_int (strtoll10 (print_jd v @ [])) :: u64) = word_of_int (strtoll10 (print_jd w @ []))" by (simp only:)
  then show "v = w" by (simp only: strtoll10_print_jd [OF disjI1 [OF refl]])
qed simp

lemma path_in_inject: "path_in d x = path_in d y \<longleftrightarrow> x = y"
  by (simp add: path_in_def)

lemma data_path_inject [simp]: "data_path d v = data_path d w \<longleftrightarrow> v = w"
  by (simp add: data_path_def path_in_inject print_jd_inject)

lemma index_path_inject [simp]: "index_path d v = index_path d w \<longleftrightarrow> v = w"
  by (simp add: index_path_def path_in_inject print_jd_inject)

lemma log_not_idx: "(x :: string) @ ''.log'' \<noteq> y @ ''.idx''"
proof
  assume "x @ ''.log'' = y @ ''.idx''"
  then have "last (x @ ''.log'') = last (y @ ''.idx'')" by (simp only:)
  then show False by simp
qed

lemma data_index_paths [simp]: "data_path d v \<noteq> index_path d w" "index_path d v \<noteq> data_path d w"
  using log_not_idx by (auto simp: data_path_def index_path_def path_in_inject)

lemma length_data_path: "length (data_path d w) \<le> length d + 25"
  using length_print_jd [of w] by (simp add: data_path_def path_in_def)

section \<open>A segment of the log\<close>

definition seg_held :: "os \<Rightarrow> string \<Rightarrow> segment \<Rightarrow> bytes list \<Rightarrow> bool" where
  "seg_held s dir sgm ps \<longleftrightarrow> (seg_rep s sgm ps \<or> seg_eos s sgm ps) \<and> seg_backed s dir sgm ps \<and> sync_le s sgm"

lemma seg_ok_held: "seg_ok s dir sgm ps \<Longrightarrow> seg_held s dir sgm ps"
  by (simp add: seg_ok_def seg_held_def synced_le)

lemma seg_heldD:
  assumes "seg_held s dir sgm ps"
  shows "seg_layout s sgm ps" "seg_rep s sgm ps \<or> seg_eos s sgm ps" "seg_backed s dir sgm ps" "sync_le s sgm"
    "sg_buffer sgm = data_path dir (sg_base_offset sgm)" "sg_index sgm = index_path dir (sg_base_offset sgm)"
    "unat (op_index (sg_w sgm)) = length ps"
  using assms by (auto simp: seg_held_def seg_rep_def seg_eos_def elim!: seg_layoutE seg_backedE)

lemma seg_held_cong:
  assumes "files s' (sg_buffer sgm) = files s (sg_buffer sgm)" "files s' (sg_index sgm) = files s (sg_index sgm)"
    "page_size s' = page_size s"
  shows "seg_held s' dir sgm ps = seg_held s dir sgm ps"
proof -
  have "page_round s' n = page_round s n" for n using assms(3) by (simp add: page_round_def)
  then show ?thesis using assms(1,2)
    by (cases "files s (sg_buffer sgm)"; cases "files s (sg_index sgm)")
      (simp_all add: seg_held_def seg_rep_def seg_eos_def seg_layout_def seg_backed_def sync_le_def bytes_of_def)
qed

text \<open>What the files have on disk stays as it is.\<close>

definition disk_kept :: "os \<Rightarrow> os \<Rightarrow> bool" where
  "disk_kept s s' \<longleftrightarrow> (\<forall>q f. files s q = Some f \<longrightarrow> (\<exists>g. files s' q = Some g \<and> fsize g = fsize f \<and> fdisk g = fdisk f))"

lemma disk_kept_refl [simp]: "disk_kept s s"
  by (simp add: disk_kept_def)

lemma disk_kept_trans [trans]: "disk_kept s s' \<Longrightarrow> disk_kept s' s'' \<Longrightarrow> disk_kept s s''"
  unfolding disk_kept_def by metis

lemma disk_kept_set_bytes [simp]: "disk_kept s (set_bytes s q bs)"
  by (auto simp: disk_kept_def set_bytes_def split: option.splits)

lemma disk_kept_new: "(\<And>q. files s q \<noteq> None \<Longrightarrow> files s' q = files s q) \<Longrightarrow> disk_kept s s'"
  by (auto simp: disk_kept_def)

text \<open>No frame of a segment has reached the disk.\<close>

definition disk_empty :: "os \<Rightarrow> string \<Rightarrow> u64 \<Rightarrow> u32 \<Rightarrow> bool" where
  "disk_empty s dir w sz \<longleftrightarrow> (case (files s (data_path dir w), files s (index_path dir w)) of
     (Some fd, Some fi) \<Rightarrow> fsize fd = unat sz \<and> fsize fi = index_len sz \<and> slice (fdisk fd) 0 2 = zeros 2 \<and>
       fdisk fi = zeros (fsize fi)
   | _ \<Rightarrow> False)"

lemma disk_empty_kept: "disk_empty s dir w sz \<Longrightarrow> disk_kept s s' \<Longrightarrow> disk_empty s' dir w sz"
  unfolding disk_empty_def disk_kept_def by (fastforce split: option.splits)

lemma backed_disk_empty: "seg_backed s dir g [] \<Longrightarrow> disk_empty s dir (sg_base_offset g) (sg_size g)"
  by (erule seg_backedE) (auto simp: disk_empty_def intro!: nth_equalityI)

text \<open>Whether the next write of \<open>p\<close> goes into this segment.\<close>

definition takes :: "os \<Rightarrow> segment \<Rightarrow> bytes list \<Rightarrow> bytes \<Rightarrow> bool" where
  "takes s sgm ps p \<longleftrightarrow> seg_rep s sgm ps \<and> \<not> looks_eos ps \<and> fits sgm ps p"

lemma held_write:
  assumes held: "seg_held s dir sgm ps" and tk: "takes s sgm ps p" and room: "length ps < index_room s sgm"
  shows "\<exists>s' sgm'. segment_write s sgm p = Some (s', sgm', int (length p)) \<and> seg_held s' dir sgm' (ps @ [p]) \<and>
    same_but {sg_buffer sgm, sg_index sgm} s s' \<and> sgm' = sgm\<lparr>sg_w := sg_w sgm'\<rparr> \<and> (synced s sgm \<longrightarrow> synced s' sgm') \<and> disk_kept s s'"
proof -
  let ?s = "after_write s sgm ps p" and ?g = "sgm\<lparr>sg_w := next_pair sgm p\<rparr>"
  note H = seg_heldD [OF held]
  have T: "seg_rep s sgm ps" "\<not> looks_eos ps" "fits sgm ps p" using tk by (simp_all add: takes_def)
  have w: "unat (op_data (sg_w sgm)) = length (frames ps)" using T(1) by (simp add: seg_rep_def)
  have "sync_le ?s ?g" using H(4,7) w next_pair_unat [OF T(1,3)]
    by (auto simp: sync_le_def after_write_def word_le_nat_alt)
  then have "seg_held ?s dir ?g (ps @ [p])"
    using after_write_rep [OF T(1,3) room] after_write_backed [OF T(1) H(3) T(3) room] by (simp add: seg_held_def)
  moreover have "disk_kept s ?s" unfolding after_write_def by (rule disk_kept_trans [OF disk_kept_set_bytes disk_kept_set_bytes])
  ultimately show ?thesis
    using segment_write_run [OF T] room after_write_same_but [of sgm s ps p] after_write_synced [OF T(1) _ T(3) room]
    by (intro exI [of _ ?s] exI [of _ ?g]) simp
qed

lemma eos_backed:
  assumes bk: "seg_backed s dir sgm ps" and ne: "ps \<noteq> []" and l: "seg_layout s sgm ps" and X: "length X = 12"
  shows "seg_backed (set_bytes s (sg_buffer sgm) (splice (bytes_of s (sg_buffer sgm)) (length (frames ps)) X)) dir
    (sgm\<lparr>sg_w := w\<rparr>) ps"
  using bk ne by (auto simp: seg_backed_def split: option.splits)

text \<open>A segment that answers every write with \<open>ELEOS\<close>.\<close>

definition ended :: "os \<Rightarrow> segment \<Rightarrow> bytes list \<Rightarrow> bool" where
  "ended s sgm ps \<longleftrightarrow> seg_eos s sgm ps \<or> seg_rep s sgm ps \<and> looks_eos ps"

lemma ended_write: "ended s sgm ps \<Longrightarrow> segment_write s sgm p = Some (s, sgm, ELEOS)"
  using segment_write_after_eos segment_write_looks_eos by (auto simp: ended_def)

lemma ended_cong:
  assumes "files s' (sg_buffer sgm) = files s (sg_buffer sgm)" "files s' (sg_index sgm) = files s (sg_index sgm)"
  shows "ended s' sgm ps = ended s sgm ps"
  using assms by (simp add: ended_def seg_rep_def seg_eos_def seg_layout_def bytes_of_def)

text \<open>A segment that does not take the payload answers \<open>ELEOS\<close> and keeps its frames.\<close>

lemma held_write_end:
  assumes held: "seg_held s dir sgm ps" and tk: "\<not> takes s sgm ps p" and ne: "ps \<noteq> []"
    and len: "length p + 24 < 2 ^ 64"
  shows "\<exists>s' sgm'. segment_write s sgm p = Some (s', sgm', ELEOS) \<and> seg_held s' dir sgm' ps \<and>
    same_but {sg_buffer sgm, sg_index sgm} s s' \<and> sgm' = sgm\<lparr>sg_w := sg_w sgm'\<rparr> \<and> ended s' sgm' ps \<and>
    (synced s sgm \<longrightarrow> synced s' sgm') \<and> disk_kept s s'"
proof -
  note H = seg_heldD [OF held]
  have refl: "same_but X s s" "sgm = sgm\<lparr>sg_w := sg_w sgm\<rparr>" for X by (simp_all add: same_but_def)
  consider "seg_eos s sgm ps" | "seg_rep s sgm ps" "looks_eos ps" | "seg_rep s sgm ps" "\<not> looks_eos ps" "\<not> fits sgm ps p"
    using H(2) tk by (auto simp: takes_def)
  then show ?thesis
  proof cases
    case 1
    then show ?thesis using segment_write_after_eos [OF 1] held refl disk_kept_refl 1 unfolding ended_def by blast
  next
    case 2
    then show ?thesis using segment_write_looks_eos [OF 2] held refl disk_kept_refl 2 unfolding ended_def by blast
  next
    case 3
    from segment_write_eos [OF 3 len] obtain s' sgm' X where
      run: "segment_write s sgm p = Some (s', sgm', ELEOS)" and eos: "seg_eos s' sgm' ps"
      and sb: "same_but {sg_buffer sgm} s s'" and g: "sgm' = sgm\<lparr>sg_w := sg_w sgm'\<rparr>" and X: "length X = 12"
      and s': "s' = set_bytes s (sg_buffer sgm) (splice (bytes_of s (sg_buffer sgm)) (length (frames ps)) X)" by blast
    from eos have w: "unat (op_data (sg_w sgm')) = length (frames ps) + 12" "unat (op_index (sg_w sgm')) = length ps"
      by (auto simp: seg_eos_def elim!: seg_layoutE)
    have "seg_backed s' dir sgm' ps" using eos_backed [OF H(3) ne H(1) X, of "sg_w sgm'"] g s' by metis
    moreover have "sg_s sgm' = sg_s sgm" "sg_buffer sgm' = sg_buffer sgm" "sg_index sgm' = sg_index sgm" by (subst g, simp)+
    then have "sync_le s' sgm'" using H(4,7) w 3(1) s' by (auto simp: sync_le_def seg_rep_def word_le_nat_alt)
    moreover have "same_but {sg_buffer sgm, sg_index sgm} s s'" using sb by (simp add: same_but_def)
    moreover have "synced s' sgm'" if sy: "synced s sgm"
    proof -
      from sy have "unat (op_data (sg_s sgm)) \<le> length (frames ps)" using 3(1) by (auto simp: synced_def seg_rep_def word_le_nat_alt)
      moreover from H(1) have "length (frames ps) + 12 \<le> length (bytes_of s (sg_buffer sgm))" "sg_buffer sgm \<noteq> sg_index sgm"
        by (auto elim!: seg_layoutE simp: bytes_of_def)
      ultimately show ?thesis using sy \<open>sync_le s' sgm'\<close> X \<open>sg_s sgm' = sg_s sgm\<close> \<open>sg_buffer sgm' = sg_buffer sgm\<close> \<open>sg_index sgm' = sg_index sgm\<close>
        by (auto simp: s' synced_def sync_le_def on_disk_def set_bytes_def bytes_of_def nth_splice_before split: option.splits)
    qed
    ultimately show ?thesis using run eos g s' by (auto simp: seg_held_def ended_def)
  qed
qed

section \<open>Synchronising and closing\<close>

lemma segment_sync_files:
  assumes "segment_sync s sgm = (s', sgm', rc)" "q \<notin> {sg_buffer sgm, sg_index sgm}"
  shows "files s' q = files s q"
proof -
  have msync: "q \<noteq> p \<Longrightarrow> files (snd (sys_msync s p a n)) q = files s q" for s p a n
    by (simp add: sys_msync_def sys_call_def Let_def split: list.splits option.splits)
  have data: "sync_data s sgm = (s1, sgm1, r) \<Longrightarrow> files s1 q = files s q \<and> sg_index sgm1 = sg_index sgm" for s1 sgm1 r
    using assms(2) msync [of "sg_buffer sgm" s] by (auto simp: sync_data_def Let_def split: prod.splits if_splits) (metis snd_conv)+
  have index: "sync_index s1 sgm1 = (s2, sgm2, r) \<Longrightarrow> sg_index sgm1 = sg_index sgm \<Longrightarrow> files s2 q = files s1 q"
    for s1 s2 sgm1 sgm2 r
    using assms(2) msync [of "sg_index sgm" s1] by (auto simp: sync_index_def Let_def split: prod.splits if_splits) (metis snd_conv)+
  obtain s1 sgm1 r where d: "sync_data s sgm = (s1, sgm1, r)" by (metis prod.exhaust)
  show ?thesis using assms(1) d data [OF d] index [of s1 sgm1]
    by (auto simp: segment_sync_def split: if_splits)
qed

lemma held_sync:
  assumes held: "seg_held s dir sgm ps" and out: "outcomes s = []"
    and mp: "mapping_ok s k (sg_buffer sgm)" "mapping_ok s k (sg_index sgm)"
    and run: "segment_sync s sgm = (s', sgm', rc)"
  shows "seg_held s' dir sgm' ps" "outcomes s' = []" "same_bytes s s'" "sgm' = sgm\<lparr>sg_s := sg_s sgm'\<rparr>"
proof -
  note H = seg_heldD [OF held]
  have ne: "sg_buffer sgm \<noteq> sg_index sgm" using H(1) by (auto elim: seg_layoutE)
  have R: "same_bytes s s'" "outcomes s' = []" "sync_le s' sgm'" "sgm' = sgm\<lparr>sg_s := sg_s sgm'\<rparr>"
    using segment_sync_run [OF out H(4) rep_in_mapping [OF H(2)] ne mp run] by simp_all
  then show "outcomes s' = []" "same_bytes s s'" "sgm' = sgm\<lparr>sg_s := sg_s sgm'\<rparr>" by simp_all
  have keep: "sg_buffer sgm' = sg_buffer sgm" "sg_index sgm' = sg_index sgm"
    "sg_size sgm' = sg_size sgm" "sg_w sgm' = sg_w sgm"
    by (subst R(4), simp)+
  have lay: "seg_layout s' sgm' ps" by (rule same_bytes_layout [OF R(1) H(1) keep])
  from H(1) obtain fd where fd: "files s (sg_buffer sgm) = Some fd" by (rule seg_layoutE)
  have "bytes_of s' (sg_buffer sgm) = bytes_of s (sg_buffer sgm)"
    using same_bytesD [OF R(1) fd] fd by (auto simp: bytes_of_def flushed_def)
  then have "seg_rep s' sgm' ps \<or> seg_eos s' sgm' ps"
    using H(2) lay keep by (auto simp: seg_rep_def seg_eos_def)
  moreover have "seg_backed s' dir sgm' ps"
    using same_bytes_backed [OF R(1) H(3), of "sg_s sgm'"] R(4) by metis
  ultimately show "seg_held s' dir sgm' ps" using R(3) by (simp add: seg_held_def)
qed

lemma held_small:
  assumes "seg_held s dir sgm ps" "unat (sg_size sgm) < 2 ^ 31"
  shows "unat (op_data (sg_w sgm)) < 2 ^ 31" "unat (op_index (sg_w sgm)) < 2 ^ 31"
proof -
  note H = seg_heldD [OF assms(1)]
  from H(1) have "length (frames ps) + 12 \<le> unat (sg_size sgm)" by (auto elim!: seg_layoutE)
  then show "unat (op_data (sg_w sgm)) < 2 ^ 31" "unat (op_index (sg_w sgm)) < 2 ^ 31"
    using H(2,7) assms(2) length_frames_ge [of ps] by (auto simp: seg_rep_def seg_eos_def)
qed

lemma held_close:
  assumes held: "seg_held s dir sgm ps" and out: "outcomes s = []"
    and mp: "mapping_ok s k (sg_buffer sgm)" "mapping_ok s k (sg_index sgm)"
    and sm: "unat (sg_size sgm) < 2 ^ 31"
  shows "\<exists>s' sgm'. segment_close s sgm = (s', None, 0) \<and> seg_held s' dir sgm' ps \<and> sgm' = sgm\<lparr>sg_s := sg_s sgm'\<rparr> \<and>
    outcomes s' = [] \<and> same_bytes s s' \<and> (\<forall>q. q \<notin> {sg_buffer sgm, sg_index sgm} \<longrightarrow> files s' q = files s q)"
proof -
  obtain s' sgm' rc where run: "segment_sync s sgm = (s', sgm', rc)" by (metis prod.exhaust)
  note H = seg_heldD [OF held]
  have ne: "sg_buffer sgm \<noteq> sg_index sgm" using H(1) by (auto elim: seg_layoutE)
  have "0 \<le> rc" by (rule segment_sync_rc(1) [OF out H(4) rep_in_mapping [OF H(2)] ne mp held_small [OF held sm] run])
  then show ?thesis using held_sync [OF held out mp run] segment_sync_files [OF run] run
    by (intro exI [of _ s'] exI [of _ sgm']) (simp add: segment_close_def)
qed

lemma held_stored:
  "seg_held s dir sgm ps \<Longrightarrow> 8 * length ps + 8 \<le> index_len (sg_size sgm) \<Longrightarrow>
   seg_stored s dir (sg_base_offset sgm) (sg_size sgm) ps"
  using closed_stored seg_heldD(1,3) by blast

end
