(* ===== verification/Mqlog_Inv.thy ===== *)
theory Mqlog_Inv
  imports Mqlog_Segments Mbptree_Theorems
begin

text \<open>
  The invariant of an open log and what reading and writing do to it. The log holds a list of
  parts, the segments with their payloads from the oldest to the newest; the index maps the
  number of payloads before each part to the segment. The contents of the log are the
  payloads of all parts, and a read at offset \<open>n\<close> delivers the payload number \<open>n\<close>.
\<close>

section \<open>Parts\<close>

type_synonym parts = "(address \<times> bytes list) list"

definition contents :: "parts \<Rightarrow> bytes list" where
  "contents xs = concat (map snd xs)"

fun log_entries :: "nat \<Rightarrow> parts \<Rightarrow> entry list" where
  "log_entries b [] = []"
| "log_entries b ((a, ps) # xs) = (word_of_nat b, a) # log_entries (b + length ps) xs"

definition part_ok :: "os \<Rightarrow> mqlog \<Rightarrow> nat \<Rightarrow> address \<Rightarrow> bytes list \<Rightarrow> bool" where
  "part_ok s lg b a ps \<longleftrightarrow> (case lg_sgms lg a of None \<Rightarrow> False | Some g \<Rightarrow>
     sg_base_offset g = word_of_nat b \<and> sg_size g = u32_of_size (lg_size lg) \<and>
     sg_flags g AND SGM_RDCMT = lg_flags lg AND MQLOG_RDCMT \<and>
     seg_held s (lg_dir lg) g ps \<and> ps \<noteq> [])"

fun parts_ok :: "os \<Rightarrow> mqlog \<Rightarrow> nat \<Rightarrow> parts \<Rightarrow> bool" where
  "parts_ok s lg b [] = True"
| "parts_ok s lg b ((a, ps) # xs) \<longleftrightarrow> part_ok s lg b a ps \<and> parts_ok s lg (b + length ps) xs"

text \<open>The directory of the log is there, no directory has the name of a segment file, and
  the size of the segments is one that the code can handle.\<close>

definition log_env :: "os \<Rightarrow> mqlog \<Rightarrow> bool" where
  "log_env s lg \<longleftrightarrow> outcomes s = [] \<and> 0 < page_size s \<and> lg_dir lg \<noteq> [] \<and> length (lg_dir lg) \<le> 230 \<and>
     lg_dir lg \<in> set (dirs s) \<and>
     (\<forall>w. data_path (lg_dir lg) w \<notin> set (dirs s) \<and> index_path (lg_dir lg) w \<notin> set (dirs s)) \<and>
     lg_size lg mod page_size s = 0 \<and> 96 \<le> unat (lg_size lg) \<and> unat (lg_size lg) < 2 ^ 32"

definition log_core :: "os \<Rightarrow> mqlog \<Rightarrow> parts \<Rightarrow> bool" where
  "log_core s lg xs \<longleftrightarrow> log_env s lg \<and>
     (\<exists>t. lg_index lg = Some t \<and> index_rep t (log_entries 0 xs)) \<and>
     parts_ok s lg 0 xs \<and> distinct (map fst xs) \<and> (\<forall>a \<in> fst ` set xs. a < lg_next lg) \<and>
     length (contents xs) < 2 ^ 64"

definition log_rep :: "os \<Rightarrow> mqlog \<Rightarrow> parts \<Rightarrow> bool" where
  "log_rep s lg xs \<longleftrightarrow> log_core s lg xs \<and> \<not> lg_lock lg"

definition no_files :: "os \<Rightarrow> mqlog \<Rightarrow> nat \<Rightarrow> bool" where
  "no_files s lg n \<longleftrightarrow> (\<forall>m. n \<le> m \<and> m < 2 ^ 64 \<longrightarrow>
     files s (data_path (lg_dir lg) (word_of_nat m)) = None \<and> files s (index_path (lg_dir lg) (word_of_nat m)) = None)"

definition log_ok :: "os \<Rightarrow> mqlog \<Rightarrow> parts \<Rightarrow> bool" where
  "log_ok s lg xs \<longleftrightarrow> log_rep s lg xs \<and> no_files s lg (length (contents xs))"

lemma contents_simps [simp]: "contents [] = []" "contents ((a, ps) # xs) = ps @ contents xs"
  "contents (xs @ ys) = contents xs @ contents ys"
  by (simp_all add: contents_def)

lemma log_entries_append: "log_entries b (xs @ ys) = log_entries b xs @ log_entries (b + length (contents xs)) ys"
  by (induction b xs rule: log_entries.induct) (simp_all add: add.assoc)

lemma parts_ok_append: "parts_ok s lg b (xs @ ys) \<longleftrightarrow> parts_ok s lg b xs \<and> parts_ok s lg (b + length (contents xs)) ys"
  by (induction s lg b xs rule: parts_ok.induct) (simp_all add: add.assoc)

lemma part_okE:
  assumes "part_ok s lg b a ps"
  obtains g where "lg_sgms lg a = Some g" "sg_base_offset g = word_of_nat b" "sg_size g = u32_of_size (lg_size lg)"
    "sg_flags g AND SGM_RDCMT = lg_flags lg AND MQLOG_RDCMT" "seg_held s (lg_dir lg) g ps" "ps \<noteq> []"
  using assms by (auto simp: part_ok_def split: option.splits)

lemma find_part:
  "n < length (contents xs) \<Longrightarrow>
   \<exists>xs1 a ps xs2 i. xs = xs1 @ (a, ps) # xs2 \<and> n = length (contents xs1) + i \<and> i < length ps \<and> contents xs ! n = ps ! i"
proof (induction xs arbitrary: n)
  case (Cons x xs)
  obtain a ps where x: "x = (a, ps)" by (cases x)
  show ?case
  proof (cases "n < length ps")
    case True
    then show ?thesis using x by (intro exI [of _ "[]"] exI [of _ a] exI [of _ ps] exI [of _ xs] exI [of _ n]) (simp add: nth_append)
  next
    case False
    then have "n - length ps < length (contents xs)" using Cons.prems x by simp
    from Cons.IH [OF this] obtain xs1 a' ps' xs2 i where IH: "xs = xs1 @ (a', ps') # xs2" "n - length ps = length (contents xs1) + i"
      "i < length ps'" "contents xs ! (n - length ps) = ps' ! i"
      by blast
    show ?thesis using IH False x
      by (intro exI [of _ "x # xs1"] exI [of _ a'] exI [of _ ps'] exI [of _ xs2] exI [of _ i]) (auto simp: nth_append)
  qed
qed simp

lemma log_env_ok:
  assumes "log_env s lg"
  shows "env_ok s (lg_dir lg) w (u32_of_size (lg_size lg))" "unat (u32_of_size (lg_size lg)) = unat (lg_size lg)"
    "size_of_u32 (u32_of_size (lg_size lg)) = lg_size lg"
proof -
  have L: "unat (lg_size lg) < 2 ^ 32" using assms by (simp add: log_env_def)
  then show u: "unat (u32_of_size (lg_size lg)) = unat (lg_size lg)" by (rule unat_u32_of_size)
  then show v: "size_of_u32 (u32_of_size (lg_size lg)) = lg_size lg"
    by (intro unsigned_word_eqI [where ?'a = nat]) simp
  have "length (data_path (lg_dir lg) w) < 256"
    using length_data_path [of "lg_dir lg" w] assms by (simp add: log_env_def)
  then show "env_ok s (lg_dir lg) w (u32_of_size (lg_size lg))"
    using assms u v by (simp add: env_ok_def log_env_def ensured_def)
qed

lemma index_len_size: "log_env s lg \<Longrightarrow> index_len (u32_of_size (lg_size lg)) = (unat (lg_size lg) + 1) div 12"
  by (simp add: index_len_def log_env_ok)

lemma index_len_ge: "log_env s lg \<Longrightarrow> 8 \<le> index_len (u32_of_size (lg_size lg))"
proof -
  assume env: "log_env s lg"
  then have "96 \<le> unat (lg_size lg)" by (simp add: log_env_def)
  then have "8 \<le> (unat (lg_size lg) + 1) div 12" by presburger
  then show ?thesis using index_len_size [OF env] by simp
qed

section \<open>Reading\<close>

lemma mutex_ok:
  assumes "outcomes s = []"
  shows "\<not> lg_lock lg \<Longrightarrow> pthread_mutex_trylock s lg = (s, lg\<lparr>lg_lock := True\<rparr>, 0)"
    "pthread_mutex_unlock s lg = (s, lg\<lparr>lg_lock := False\<rparr>, 0)"
    "lg_lock lg \<Longrightarrow> pthread_mutex_trylock s lg = (s, lg, EBUSY)"
  using assms by (simp_all add: pthread_mutex_trylock_def pthread_mutex_unlock_def)

lemma unlocked_index:
  assumes "index_rep t es"
  shows "tree_rep t es" "exclusive_lock (tree_lock t) = 0" "allocs t = []"
  using assms by (simp_all add: index_rep_def unlocked_def)

lemma log_relock: "\<not> lg_lock lg \<Longrightarrow> lg_index lg = Some t \<Longrightarrow> lg\<lparr>lg_lock := False, lg_index := Some t\<rparr> = lg"
  by (cases lg) simp

lemma read_nothing:
  assumes rep: "log_rep s lg []"
  shows "mqlog_read s lg e off fr = Some (s, lg, ELNORD, fr)"
proof -
  from rep obtain t where t: "lg_index lg = Some t" "index_rep t []" and o: "outcomes s = []" "\<not> lg_lock lg"
    by (auto simp: log_rep_def log_core_def log_env_def)
  from lookup_steps [OF unlocked_index [OF t(2)], of off] obtain it where
    "mbptree_leaf_floor t off = Some (t, 0, Some it)" "mbptree_leaf_iterator_valid t it = Some False"
    by (auto simp: floor_entry_def)
  then show ?thesis using t o
    by (simp add: mqlog_read_def mqlog_tryread_def mutex_ok EBUSY_def log_relock)
qed

lemma read_part:
  assumes rep: "log_rep s lg (xs1 @ (a, ps) # xs2)" and g: "lg_sgms lg a = Some g"
    and off: "unat off = length (contents xs1) + i" and i: "i < length ps \<or> xs2 = []"
  shows "mqlog_read s lg e off fr = Some (s, lg,
    if i < length ps \<and> committed g ps i then (int (length (ps ! i)), frame_at g ps i) else (ELNORD, fr))"
proof -
  let ?b = "length (contents xs1)"
  from rep obtain t where t: "lg_index lg = Some t" "index_rep t (log_entries 0 (xs1 @ (a, ps) # xs2))"
    and o: "outcomes s = []" "\<not> lg_lock lg" and p: "parts_ok s lg 0 (xs1 @ (a, ps) # xs2)"
    and len: "length (contents (xs1 @ (a, ps) # xs2)) < 2 ^ 64"
    by (auto simp: log_rep_def log_core_def log_env_def)
  from p have pa: "part_ok s lg ?b a ps" by (simp add: parts_ok_append)
  then have held: "seg_held s (lg_dir lg) g ps" and base: "sg_base_offset g = word_of_nat ?b"
    using g by (auto elim!: part_okE)
  have b: "unat (word_of_nat ?b :: u64) = ?b" using len by (simp add: unat_of_nat)
  have le: "word_of_nat ?b \<le> off" using off b by (simp only: word_le_nat_alt)
  have rel: "unat (off - word_of_nat ?b) = i" using off b le by (simp add: unat_sub)
  have nxt: "log_entries (?b + length ps) xs2 = [] \<or> off < fst (hd (log_entries (?b + length ps) xs2))"
  proof (cases xs2)
    case (Cons x xs3)
    then have "unat (word_of_nat (?b + length ps) :: u64) = ?b + length ps"
      using len by (simp add: unat_of_nat del: of_nat_add)
    then have "off < word_of_nat (?b + length ps)" using off i Cons by (simp only: word_less_nat_alt) simp
    then show ?thesis using Cons by (cases x) simp
  qed simp
  have "floor_entry off (log_entries 0 (xs1 @ (a, ps) # xs2)) = Some (word_of_nat ?b, a)"
    using floor_entry_between [of "log_entries 0 xs1" "word_of_nat ?b" a "log_entries (?b + length ps) xs2" off] le nxt
      ix.rep_sorted [OF t(2)] by (simp add: log_entries_append)
  with lookup_steps [OF unlocked_index [OF t(2)], of off] obtain it where
    it: "mbptree_leaf_floor t off = Some (t, 0, Some it)" "mbptree_leaf_iterator_valid t it = Some True"
      "mbptree_leaf_iterator_value t it = Some a" by auto
  show ?thesis
    using t(1) o it g base rel segment_read_frame [OF seg_heldD(2) [OF held], of "off - word_of_nat ?b" fr]
    by (simp add: mqlog_read_def mqlog_tryread_def mutex_ok EBUSY_def log_relock segment_base_offset_def)
qed


section \<open>What the invariant does not depend on\<close>

lemma part_ok_lock [simp]: "part_ok s (lg\<lparr>lg_lock := l\<rparr>) b a ps = part_ok s lg b a ps"
  by (simp add: part_ok_def split: option.split)

lemma parts_ok_lock [simp]: "parts_ok s (lg\<lparr>lg_lock := l\<rparr>) b xs = parts_ok s lg b xs"
  by (induction s lg b xs rule: parts_ok.induct) simp_all

lemma log_core_lock [simp]: "log_core s (lg\<lparr>lg_lock := l\<rparr>) xs = log_core s lg xs"
  by (simp add: log_core_def log_env_def)

lemma no_files_lock [simp]: "no_files s (lg\<lparr>lg_lock := l\<rparr>) n = no_files s lg n"
  by (simp add: no_files_def)

definition same_log :: "mqlog \<Rightarrow> mqlog \<Rightarrow> bool" where
  "same_log lg lg' \<longleftrightarrow> lg_dir lg' = lg_dir lg \<and> lg_size lg' = lg_size lg \<and> lg_flags lg' = lg_flags lg \<and> lg_lock lg' = lg_lock lg"

text \<open>The files of the segments with a base offset from \<open>b\<close> up to, not including, \<open>c\<close> are the same.\<close>

definition same_range :: "mqlog \<Rightarrow> nat \<Rightarrow> nat \<Rightarrow> os \<Rightarrow> os \<Rightarrow> bool" where
  "same_range lg b c s s' \<longleftrightarrow> page_size s' = page_size s \<and> (\<forall>m. b \<le> m \<and> m < c \<longrightarrow>
     files s' (data_path (lg_dir lg) (word_of_nat m)) = files s (data_path (lg_dir lg) (word_of_nat m)) \<and>
     files s' (index_path (lg_dir lg) (word_of_nat m)) = files s (index_path (lg_dir lg) (word_of_nat m)))"

lemma parts_ok_frame:
  assumes "parts_ok s lg b xs" "same_range lg b (b + length (contents xs)) s s'"
    "lg_dir lg' = lg_dir lg" "lg_size lg' = lg_size lg" "lg_flags lg' = lg_flags lg"
    "\<forall>a \<in> fst ` set xs. lg_sgms lg' a = lg_sgms lg a"
  shows "parts_ok s' lg' b xs"
  using assms
proof (induction s lg b xs rule: parts_ok.induct)
  case (2 s lg b a ps xs)
  from 2(2) obtain g where g: "lg_sgms lg a = Some g" "sg_base_offset g = word_of_nat b" "sg_size g = u32_of_size (lg_size lg)"
    "sg_flags g AND SGM_RDCMT = lg_flags lg AND MQLOG_RDCMT" "seg_held s (lg_dir lg) g ps" "ps \<noteq> []"
    by (auto elim: part_okE)
  note H = seg_heldD [OF g(5)]
  have "seg_held s' (lg_dir lg) g ps"
    using 2(3) g(6) H(5,6) g(2) by (subst seg_held_cong [where s = s]) (simp_all add: same_range_def g(5))
  then have "part_ok s' lg' b a ps" using g 2(4-7) by (simp add: part_ok_def)
  moreover have "same_range lg (b + length ps) (b + length ps + length (contents xs)) s s'"
    using 2(3) by (simp add: same_range_def)
  then have "parts_ok s' lg' (b + length ps) xs" using 2 by simp
  ultimately show ?case by simp
qed simp

lemma word_of_nat_eq: "m < 2 ^ 64 \<Longrightarrow> n < 2 ^ 64 \<Longrightarrow> (word_of_nat m :: u64) = word_of_nat n \<longleftrightarrow> m = n"
  by (auto simp: word_eq_iff_unsigned [where ?'a = nat] unat_of_nat)

text \<open>A change to the files of one base offset leaves the others alone.\<close>

lemma same_range_one:
  assumes "\<And>q. q \<notin> {data_path (lg_dir lg) (word_of_nat n), index_path (lg_dir lg) (word_of_nat n)} \<Longrightarrow> files s' q = files s q"
    "page_size s' = page_size s" "n < 2 ^ 64" "n < b \<or> c \<le> n" "c \<le> 2 ^ 64"
  shows "same_range lg b c s s'"
  using assms by (auto simp: same_range_def word_of_nat_eq)

lemma no_files_one:
  assumes "\<And>q. q \<notin> {data_path (lg_dir lg) (word_of_nat n), index_path (lg_dir lg) (word_of_nat n)} \<Longrightarrow> files s' q = files s q"
    "no_files s lg m" "m \<le> m'" "n < m'" "n < 2 ^ 64" "lg_dir lg' = lg_dir lg"
  shows "no_files s' lg' m'"
  using assms by (auto simp: no_files_def word_of_nat_eq)

text \<open>What the segments of a log take for synchronised is on disk.\<close>

definition log_synced :: "os \<Rightarrow> mqlog \<Rightarrow> parts \<Rightarrow> bool" where
  "log_synced s lg xs \<longleftrightarrow> (\<forall>a \<in> fst ` set xs. case lg_sgms lg a of Some g \<Rightarrow> synced s g | None \<Rightarrow> False)"

lemma log_synced_simps [simp]: "log_synced s lg []"
  "log_synced s lg (xs @ ys) \<longleftrightarrow> log_synced s lg xs \<and> log_synced s lg ys"
  "log_synced s lg [x] \<longleftrightarrow> (case lg_sgms lg (fst x) of Some g \<Rightarrow> synced s g | None \<Rightarrow> False)"
  by (auto simp: log_synced_def)

lemma parts_ok_mem:
  assumes "parts_ok s lg b xs" "(a, ps) \<in> set xs"
  shows "\<exists>g n. lg_sgms lg a = Some g \<and> b \<le> n \<and> n + length ps \<le> b + length (contents xs) \<and>
    sg_base_offset g = word_of_nat n \<and> sg_size g = u32_of_size (lg_size lg) \<and> seg_held s (lg_dir lg) g ps \<and> ps \<noteq> []"
  using assms
proof (induction s lg b xs rule: parts_ok.induct)
  case (2 s lg b a' ps' xs)
  show ?case
  proof (cases "(a, ps) = (a', ps')")
    case True
    from 2(2) obtain g where "lg_sgms lg a' = Some g" "sg_base_offset g = word_of_nat b" "sg_size g = u32_of_size (lg_size lg)"
      "seg_held s (lg_dir lg) g ps'" "ps' \<noteq> []" by (auto elim!: part_okE)
    then show ?thesis using True by (intro exI [of _ g] exI [of _ b]) simp
  next
    case False
    then have "(a, ps) \<in> set xs" using 2(3) by auto
    with 2 obtain g n where "lg_sgms lg a = Some g" "b + length ps' \<le> n" "n + length ps \<le> b + length ps' + length (contents xs)"
      "sg_base_offset g = word_of_nat n" "sg_size g = u32_of_size (lg_size lg)" "seg_held s (lg_dir lg) g ps" "ps \<noteq> []"
      by auto
    then show ?thesis by (intro exI [of _ g] exI [of _ n]) simp
  qed
qed simp

lemma log_synced_frame:
  assumes sy: "log_synced s lg xs" and p: "parts_ok s lg 0 xs" and len: "length (contents xs) < 2 ^ 64"
    and fs: "\<And>q. q \<notin> {data_path (lg_dir lg) (word_of_nat (length (contents xs))),
      index_path (lg_dir lg) (word_of_nat (length (contents xs)))} \<Longrightarrow> files s' q = files s q"
    and sg: "\<forall>a \<in> fst ` set xs. lg_sgms lg' a = lg_sgms lg a"
  shows "log_synced s' lg' xs"
  unfolding log_synced_def
proof
  fix a assume a: "a \<in> fst ` set xs"
  then obtain ps where "(a, ps) \<in> set xs" by auto
  from parts_ok_mem [OF p this] obtain g n where g: "lg_sgms lg a = Some g" "n + length ps \<le> length (contents xs)"
    "sg_base_offset g = word_of_nat n" "seg_held s (lg_dir lg) g ps" "ps \<noteq> []" by auto
  have "n < length (contents xs)" using g(2,5) by (cases ps) auto
  then have "(word_of_nat n :: u64) \<noteq> word_of_nat (length (contents xs))" using len by (simp add: word_of_nat_eq)
  then have "files s' (sg_buffer g) = files s (sg_buffer g)" "files s' (sg_index g) = files s (sg_index g)"
    using fs seg_heldD(5,6) [OF g(4)] g(3) by simp_all
  moreover have "synced s g" using sy a g(1) by (auto simp: log_synced_def)
  ultimately have "synced s' g" by (simp add: synced_def)
  moreover have "lg_sgms lg' a = Some g" using sg a g(1) by metis
  ultimately show "case lg_sgms lg' a of Some g \<Rightarrow> synced s' g | None \<Rightarrow> False" by simp
qed

section \<open>Writing\<close>

lemma flags_kept:
  "(if x AND MQLOG_RDCMT = MQLOG_RDCMT then SGM_RDCMT else SGM_RDDRT) AND SGM_RDCMT = x AND MQLOG_RDCMT"
  by (auto simp: SGM_RDCMT_def SGM_RDDRT_def MQLOG_RDCMT_def and_one_eq)

text \<open>A segment that was created by this log and not synchronised since.\<close>

definition never_synced :: "mqlog \<Rightarrow> address \<Rightarrow> bool" where
  "never_synced lg a \<longleftrightarrow> (case lg_sgms lg a of Some g \<Rightarrow> sg_s g = \<lparr>op_index = 0, op_data = 0\<rparr> | None \<Rightarrow> False)"

lemma create_segment_ok:
  assumes env: "log_env s lg"
    and none: "files s (data_path (lg_dir lg) w) = None" "files s (index_path (lg_dir lg) w) = None"
  shows "\<exists>s' g. create_segment s lg w =
      Some (s', lg\<lparr>lg_sgms := (lg_sgms lg)(lg_next lg \<mapsto> g), lg_next := Suc (lg_next lg)\<rparr>, 0, lg_next lg) \<and>
    seg_ok s' (lg_dir lg) g [] \<and> sg_s g = sg_w g \<and> sg_base_offset g = w \<and> sg_size g = u32_of_size (lg_size lg) \<and>
    sg_flags g AND SGM_RDCMT = lg_flags lg AND MQLOG_RDCMT \<and> log_env s' lg \<and> map_base s' = map_base s \<and> dirs s' = dirs s \<and>
    page_size s' = page_size s \<and> (\<forall>q. q \<notin> {data_path (lg_dir lg) w, index_path (lg_dir lg) w} \<longrightarrow> files s' q = files s q)"
proof -
  let ?sz = "u32_of_size (lg_size lg)" and ?fl = "if lg_flags lg AND MQLOG_RDCMT = MQLOG_RDCMT then SGM_RDCMT else SGM_RDDRT"
  note E = log_env_ok [OF env]
  have ix: "8 \<le> index_len ?sz" by (rule index_len_ge [OF env])
  have pg: "0 < page_size s" and dirs: "dirs (ensured s (lg_dir lg)) = dirs s" using env by (simp_all add: log_env_def ensured_def)
  have big: "2 \<le> unat ?sz" using env E(2) by (simp add: log_env_def)
  have "clean_files s (lg_dir lg) w ?sz []"
    using clean_fresh [OF pg] big none page_round_ge [OF pg, of "unat ?sz"]
    by (simp add: clean_files_def opened_file_def fresh_file_def slice_def)
  from segment_open_ok [OF E(1) seg_stored_fresh [OF E(1) ix none] this, of ?fl] obtain s' v where
    op: "segment_open s (lg_dir lg) w ?sz ?fl = Some (s', 0, Some (opened_segment (lg_dir lg) w ?sz ?fl v))"
    "seg_ok s' (lg_dir lg) (opened_segment (lg_dir lg) w ?sz ?fl v) []" "page_size s' = page_size s"
    "map_base s' = map_base s" "outcomes s' = []" "dirs s' = dirs s"
    "\<forall>q. q \<notin> {data_path (lg_dir lg) w, index_path (lg_dir lg) w} \<longrightarrow> files s' q = files s q" using dirs by auto
  have fl: "sg_flags (opened_segment (lg_dir lg) w ?sz ?fl v) AND SGM_RDCMT = lg_flags lg AND MQLOG_RDCMT"
    using flags_kept [of "lg_flags lg"] by (simp add: opened_segment_def)
  have "log_env s' lg" using env op by (simp add: log_env_def)
  then show ?thesis using op fl
    by (intro exI [of _ s'] exI [of _ "opened_segment (lg_dir lg) w ?sz ?fl v"] conjI)
      (simp_all add: create_segment_def open_segment_def alloc_segment_def Let_def, simp_all add: opened_segment_def)
qed


lemma seg_ok_synced: "seg_ok s dir g ps \<Longrightarrow> synced s g"
  by (simp add: seg_ok_def)

lemma held_index_room:
  assumes "seg_held s dir g ps"
  shows "index_len (sg_size g) div 8 \<le> index_room s g"
  using seg_heldD(3) [OF assms]
proof (rule seg_backedE)
  fix fi
  assume "files s (index_path dir (sg_base_offset g)) = Some fi" "sg_index g = index_path dir (sg_base_offset g)"
    "fsize fi = index_len (sg_size g)" "fsize fi \<le> length (fbytes fi)"
  then show ?thesis by (simp add: index_room_def bytes_of_def div_le_mono)
qed

lemma write_keeps:
  assumes "g' = g\<lparr>sg_w := sg_w g'\<rparr>"
  shows "sg_base_offset g' = sg_base_offset g" "sg_size g' = sg_size g" "sg_flags g' = sg_flags g"
  by (subst assms, simp)+

lemma same_butD:
  assumes "same_but X s s'"
  shows "\<forall>q. q \<notin> X \<longrightarrow> files s' q = files s q" "page_size s' = page_size s" "dirs s' = dirs s" "outcomes s' = outcomes s"
  using assms by (simp_all add: same_but_def)

text \<open>The last part changes: one more payload, or the mark at its end.\<close>

lemma update_last:
  assumes core: "log_core s lg (xs @ [(a, ps)])" and g: "lg_sgms lg a = Some g"
    and held: "seg_held s' (lg_dir lg) g' ps'" and ps': "ps' \<noteq> []"
    and g': "sg_base_offset g' = sg_base_offset g" "sg_size g' = sg_size g" "sg_flags g' = sg_flags g"
    and fs0: "\<forall>q. q \<notin> {sg_buffer g, sg_index g} \<longrightarrow> files s' q = files s q"
    and sb: "page_size s' = page_size s" "dirs s' = dirs s" "outcomes s' = outcomes s" and len: "length (contents (xs @ [(a, ps')])) < 2 ^ 64"
  shows "log_core s' (lg\<lparr>lg_sgms := (lg_sgms lg)(a \<mapsto> g')\<rparr>) (xs @ [(a, ps')])"
    and "log_synced s lg xs \<Longrightarrow> synced s' g' \<Longrightarrow> log_synced s' (lg\<lparr>lg_sgms := (lg_sgms lg)(a \<mapsto> g')\<rparr>) (xs @ [(a, ps')])"
    and "no_files s lg n \<Longrightarrow> length (contents xs) < n \<Longrightarrow> n \<le> n' \<Longrightarrow> no_files s' (lg\<lparr>lg_sgms := (lg_sgms lg)(a \<mapsto> g')\<rparr>) n'"
proof -
  let ?b = "length (contents xs)" and ?lg = "lg\<lparr>lg_sgms := (lg_sgms lg)(a \<mapsto> g')\<rparr>"
  from core obtain t where t: "lg_index lg = Some t" "index_rep t (log_entries 0 (xs @ [(a, ps)]))"
    and env: "log_env s lg" and p: "parts_ok s lg 0 xs" "part_ok s lg ?b a ps" and d: "distinct (map fst (xs @ [(a, ps)]))"
    and lt: "\<forall>a \<in> fst ` set (xs @ [(a, ps)]). a < lg_next lg"
    by (auto simp: log_core_def parts_ok_append)
  from p(2) g have P: "sg_base_offset g = word_of_nat ?b" "sg_size g = u32_of_size (lg_size lg)"
    "sg_flags g AND SGM_RDCMT = lg_flags lg AND MQLOG_RDCMT" "seg_held s (lg_dir lg) g ps" by (auto elim!: part_okE)
  note H = seg_heldD [OF P(4)]
  have b: "?b < 2 ^ 64" using len by simp
  have fs: "files s' q = files s q"
    if "q \<notin> {data_path (lg_dir lg) (word_of_nat ?b), index_path (lg_dir lg) (word_of_nat ?b)}" for q
    using fs0 that H(5,6) P(1) by simp
  have "same_range lg 0 ?b s s'"
    using fs sb b by (intro same_range_one [where n = ?b]) auto
  then have "parts_ok s' ?lg 0 xs" using d by (intro parts_ok_frame [OF p(1)]) auto
  moreover have "part_ok s' ?lg ?b a ps'" using P held ps' g' by (simp add: part_ok_def)
  moreover have "log_env s' ?lg" using env sb by (simp add: log_env_def)
  moreover have "log_entries 0 (xs @ [(a, ps')]) = log_entries 0 (xs @ [(a, ps)])" by (simp add: log_entries_append)
  ultimately show "log_core s' ?lg (xs @ [(a, ps')])"
    using t d lt len by (simp add: log_core_def parts_ok_append)
  show "log_synced s' ?lg (xs @ [(a, ps')])" if "log_synced s lg xs" "synced s' g'"
  proof -
    have "\<forall>c \<in> fst ` set xs. lg_sgms ?lg c = lg_sgms lg c" using d by auto
    with log_synced_frame [OF that(1) p(1) b fs] have "log_synced s' ?lg xs" by blast
    then show ?thesis using that(2) by simp
  qed
  show "no_files s lg n \<Longrightarrow> ?b < n \<Longrightarrow> n \<le> n' \<Longrightarrow> no_files s' ?lg n'"
    using b by (intro no_files_one [OF fs, where m = n]) auto
qed

text \<open>A segment behind the last part enters the index.\<close>

lemma next_key_above:
  assumes p: "parts_ok s lg 0 xs" and len: "length (contents xs) < 2 ^ 64"
  shows "key_above (log_entries 0 xs) (word_of_nat (length (contents xs)))"
proof (cases xs rule: rev_cases)
  case (snoc ys x)
  obtain b ps where x: "x = (b, ps)" by (cases x)
  have "ps \<noteq> []" using p snoc x by (auto simp: parts_ok_append elim: part_okE)
  then have "length (contents ys) < length (contents xs)" using snoc x by simp
  then have "(word_of_nat (length (contents ys)) :: u64) < word_of_nat (length (contents xs))"
    using len by (simp add: word_less_nat_alt unat_of_nat)
  then show ?thesis using snoc x by (simp add: key_above_def log_entries_append)
qed (simp add: key_above_def)

lemma enter_part:
  assumes core: "log_core s lg xs" and ps: "ps \<noteq> []" and len: "length (contents xs) + length ps < 2 ^ 64"
    and g: "sg_base_offset g = word_of_nat (length (contents xs))" "sg_size g = u32_of_size (lg_size lg)"
      "sg_flags g AND SGM_RDCMT = lg_flags lg AND MQLOG_RDCMT" "seg_held s' (lg_dir lg) g ps"
    and env: "log_env s' lg" and pg: "page_size s' = page_size s"
    and fs: "\<And>q. q \<notin> {data_path (lg_dir lg) (word_of_nat (length (contents xs))),
      index_path (lg_dir lg) (word_of_nat (length (contents xs)))} \<Longrightarrow> files s' q = files s q"
  defines "a \<equiv> lg_next lg"
  obtains lg' where "append_index (lg\<lparr>lg_sgms := (lg_sgms lg)(a \<mapsto> g), lg_next := Suc a\<rparr>)
      (word_of_nat (length (contents xs))) a = Some (lg', 0)"
    "log_core s' lg' (xs @ [(a, ps)])" "same_log lg lg'" "lg_next lg' = Suc a" "lg_sgms lg' = (lg_sgms lg)(a \<mapsto> g)"
proof -
  let ?n = "length (contents xs)" and ?lg = "lg\<lparr>lg_sgms := (lg_sgms lg)(a \<mapsto> g), lg_next := Suc a\<rparr>"
  from core obtain t where t: "lg_index lg = Some t" "index_rep t (log_entries 0 xs)"
    and p: "parts_ok s lg 0 xs" and d: "distinct (map fst xs)"
    and lt: "\<forall>a \<in> fst ` set xs. a < lg_next lg" by (auto simp: log_core_def)
  from ix.add_above [OF t(2) next_key_above [OF p], of a] len obtain t' where
    t': "mbptree_append t (word_of_nat ?n) a = Some (t', 0)" "index_rep t' (log_entries 0 xs @ [(word_of_nat ?n, a)])" by auto
  let ?lg3 = "?lg\<lparr>lg_index := Some t'\<rparr>"
  have "same_range lg 0 ?n s s'" using fs pg len by (intro same_range_one [where n = ?n]) auto
  then have "parts_ok s' ?lg3 0 xs" using lt by (intro parts_ok_frame [OF p]) (auto simp: a_def)
  moreover have "part_ok s' ?lg3 ?n a ps" using g ps by (simp add: part_ok_def)
  moreover have "log_env s' ?lg3" using env by (simp add: log_env_def)
  ultimately have "log_core s' ?lg3 (xs @ [(a, ps)])"
    using t'(2) d lt len by (auto simp: log_core_def parts_ok_append log_entries_append a_def)
  then show ?thesis using t(1) t'(1) by (intro that [of ?lg3]) (simp_all add: append_index_def same_log_def)
qed

text \<open>The steps that add a new part.\<close>

lemma two_files_kept:
  assumes "files s d = None" "files s x = None" "\<forall>q. q \<notin> {d, x} \<longrightarrow> files s' q = files s q"
  shows "disk_kept s s'"
proof (rule disk_kept_new)
  show "files s' q = files s q" if "files s q \<noteq> None" for q using assms that by (cases "q \<in> {d, x}") auto
qed

lemma empty_offsets: "seg_ok s dir g [] \<Longrightarrow> sg_w g = \<lparr>op_index = 0, op_data = 0\<rparr>"
  using seg_heldD(7) [OF seg_ok_held, of s dir g "[]"] by (simp add: seg_ok_def seg_rep_def unat_eq_0)

lemma new_part:
  assumes core: "log_core s lg xs" and nf: "no_files s lg (length (contents xs))"
    and len: "length (contents xs) + 1 < 2 ^ 64" and fit: "length p + 24 \<le> unat (lg_size lg)"
  defines "a \<equiv> lg_next lg"
  shows "\<exists>s1 lg1 s2 lg2 lg3. create_segment s lg (word_of_nat (length (contents xs))) = Some (s1, lg1, 0, a) \<and>
    write_segment s1 lg1 a p = Some (s2, lg2, int (length p)) \<and>
    index_segment s2 lg2 a (int (length p)) = Some (s2, lg3, int (length p)) \<and>
    log_core s2 lg3 (xs @ [(a, [p])]) \<and> no_files s2 lg3 (Suc (length (contents xs))) \<and> same_log lg lg3 \<and>
    map_base s2 = map_base s \<and> page_size s2 = page_size s \<and> disk_kept s s2 \<and>
    (log_synced s lg xs \<longrightarrow> log_synced s2 lg3 (xs @ [(a, [p])])) \<and>
    disk_empty s2 (lg_dir lg) (word_of_nat (length (contents xs))) (u32_of_size (lg_size lg)) \<and> never_synced lg3 a"
proof -
  let ?n = "length (contents xs)"
  let ?w = "word_of_nat ?n :: u64"
  let ?lg = "\<lambda>g. lg\<lparr>lg_sgms := (lg_sgms lg)(a \<mapsto> g), lg_next := Suc a\<rparr>"
  have env: "log_env s lg" using core by (simp add: log_core_def)
  have none: "files s (data_path (lg_dir lg) ?w) = None" "files s (index_path (lg_dir lg) ?w) = None"
    using nf len by (simp_all add: no_files_def)
  from create_segment_ok [OF env none] obtain s1 g where
    c: "create_segment s lg ?w = Some (s1, ?lg g, 0, a)" "seg_ok s1 (lg_dir lg) g []"
      "sg_base_offset g = ?w" "sg_size g = u32_of_size (lg_size lg)" "sg_flags g AND SGM_RDCMT = lg_flags lg AND MQLOG_RDCMT"
      "sg_s g = sg_w g" "log_env s1 lg" "page_size s1 = page_size s" "map_base s1 = map_base s"
      "\<forall>q. q \<notin> {data_path (lg_dir lg) ?w, index_path (lg_dir lg) ?w} \<longrightarrow> files s1 q = files s q"
    unfolding a_def by blast
  have H: "seg_held s1 (lg_dir lg) g []" by (rule seg_ok_held [OF c(2)])
  have "takes s1 g [] p" using c(2,4) fit log_env_ok(2) [OF env] by (simp add: takes_def seg_ok_def looks_eos_def fits_def)
  moreover have "0 < index_room s1 g" using held_index_room [OF H] index_len_ge [OF env] c(4) by simp
  ultimately obtain s2 g2 where w: "segment_write s1 g p = Some (s2, g2, int (length p))" "seg_held s2 (lg_dir lg) g2 [p]"
      "same_but {sg_buffer g, sg_index g} s1 s2" "g2 = g\<lparr>sg_w := sg_w g2\<rparr>" "synced s2 g2" "disk_kept s1 s2"
    using seg_ok_synced [OF c(2)] held_write [OF H, of p] by auto
  have g2: "sg_base_offset g2 = ?w" "sg_size g2 = u32_of_size (lg_size lg)" "sg_flags g2 AND SGM_RDCMT = lg_flags lg AND MQLOG_RDCMT"
    by (subst w(4), simp add: c)+
  have fs: "files s2 q = files s q" if "q \<notin> {data_path (lg_dir lg) ?w, index_path (lg_dir lg) ?w}" for q
    using w(3) that seg_heldD(5,6) [OF H] c(3,10) by (simp add: same_but_def)
  have pg: "page_size s2 = page_size s" "map_base s2 = map_base s" using w(3) c(8,9) by (simp_all add: same_but_def)
  have env2: "log_env s2 lg" using c(7) w(3) by (simp add: log_env_def same_but_def)
  from enter_part [OF core _ _ g2 w(2) env2 pg(1) fs] len obtain lg3 where
    e: "append_index (?lg g2) ?w a = Some (lg3, 0)" "log_core s2 lg3 (xs @ [(a, [p])])" "same_log lg lg3" "lg_sgms lg3 = (lg_sgms lg)(a \<mapsto> g2)"
    by (auto simp: a_def)
  have dk: "disk_kept s s2" by (rule disk_kept_trans [OF two_files_kept [OF none c(10)] w(6)])
  have "disk_empty s1 (lg_dir lg) ?w (u32_of_size (lg_size lg))"
    using backed_disk_empty [OF seg_heldD(3) [OF H]] c(3,4) by simp
  from disk_empty_kept [OF this w(6)] have de: "disk_empty s2 (lg_dir lg) ?w (u32_of_size (lg_size lg))" .
  have p: "parts_ok s lg 0 xs" "\<forall>a \<in> fst ` set xs. a < lg_next lg" using core by (auto simp: log_core_def)
  then have "\<forall>b \<in> fst ` set xs. lg_sgms lg3 b = lg_sgms lg b" using e(4) by (auto simp: a_def)
  then have sy: "log_synced s2 lg3 (xs @ [(a, [p])])" if "log_synced s lg xs"
    using log_synced_frame [OF that p(1) _ fs, of lg3] len e(4) w(5) by simp
  have "no_files s2 lg3 (Suc ?n)" using nf len e(3) by (intro no_files_one [OF fs, where m = ?n]) (auto simp: same_log_def)
  moreover have "sg_s g2 = \<lparr>op_index = 0, op_data = 0\<rparr>" by (subst w(4)) (simp add: c(6) empty_offsets [OF c(2)])
  then have "never_synced lg3 a" using e(4) by (simp add: never_synced_def a_def)
  ultimately show ?thesis using c(1) w(1) e(1-3) g2(1) pg dk de sy
    by (intro exI [of _ s1] exI [of _ "?lg g"] exI [of _ s2] exI [of _ "?lg g2"] exI [of _ lg3])
      (simp add: write_segment_def index_segment_def segment_base_offset_def ELIDXPC_def)
qed

text \<open>When the last segment takes the payload, its index mapping has a slot for it.\<close>

definition index_free :: "os \<Rightarrow> mqlog \<Rightarrow> parts \<Rightarrow> bytes \<Rightarrow> bool" where
  "index_free s lg xs p \<longleftrightarrow> (\<forall>ys a ps g. xs = ys @ [(a, ps)] \<and> lg_sgms lg a = Some g \<and> takes s g ps p \<longrightarrow>
     length ps < index_room s g)"

text \<open>The parts after a write: the last one longer, or a new one.\<close>

definition extended :: "parts \<Rightarrow> address \<Rightarrow> bytes \<Rightarrow> parts \<Rightarrow> bool" where
  "extended xs n p xs' \<longleftrightarrow> xs' = xs @ [(n, [p])] \<or> (\<exists>ys a ps. xs = ys @ [(a, ps)] \<and> xs' = ys @ [(a, ps @ [p])])"

text \<open>Which of the two it is: the last part takes the payload when its segment does.\<close>

definition placed :: "os \<Rightarrow> mqlog \<Rightarrow> parts \<Rightarrow> bytes \<Rightarrow> parts \<Rightarrow> bool" where
  "placed s lg xs p xs' \<longleftrightarrow> (\<forall>ys a ps g. xs = ys @ [(a, ps)] \<and> lg_sgms lg a = Some g \<longrightarrow>
     xs' = (if takes s g ps p then ys @ [(a, ps @ [p])] else xs @ [(lg_next lg, [p])]))"

lemma extended_contents: "extended xs n p xs' \<Longrightarrow> contents xs' = contents xs @ [p]"
  by (auto simp: extended_def)

lemma core_last:
  assumes "log_core s lg (ys @ [(a, ps)])"
  obtains t g where "lg_index lg = Some t" "mbptree_last_value t = Some (0, Some a)" "lg_sgms lg a = Some g"
    "sg_base_offset g = word_of_nat (length (contents ys))" "sg_size g = u32_of_size (lg_size lg)"
    "sg_flags g AND SGM_RDCMT = lg_flags lg AND MQLOG_RDCMT" "seg_held s (lg_dir lg) g ps" "ps \<noteq> []"
proof -
  from assms obtain t where t: "lg_index lg = Some t" "index_rep t (log_entries 0 (ys @ [(a, ps)]))"
    and p: "part_ok s lg (length (contents ys)) a ps" by (auto simp: log_core_def parts_ok_append)
  have "mbptree_last_value t = Some (0, Some a)" using ix.last_val [OF t(2)] by (simp add: log_entries_append)
  then show ?thesis using t p that by (auto elim!: part_okE)
qed

lemma held_write_offset:
  assumes "seg_held s dir g ps" "sg_base_offset g = word_of_nat b" "b + length ps < 2 ^ 64"
  shows "segment_write_offset g = word_of_nat (b + length ps)"
proof -
  have "size_of_u32 (op_index (sg_w g)) = word_of_nat (length ps)"
    using seg_heldD(7) [OF assms(1)] assms(3) by (intro unsigned_word_eqI [where ?'a = nat]) (simp add: unat_of_nat)
  then show ?thesis using assms(2) by (simp add: segment_write_offset_def)
qed

text \<open>A write that meets the end of the last segment leaves the log as it was, up to the mark.\<close>

lemma write_last_end:
  assumes core: "log_core s lg (ys @ [(a, ps)])" and g: "lg_sgms lg a = Some g" and tk: "\<not> takes s g ps p"
    and nf: "no_files s lg (length (contents (ys @ [(a, ps)])))" and len: "length p + 24 < 2 ^ 64"
  obtains s' g' where "write_segment s lg a p = Some (s', lg\<lparr>lg_sgms := (lg_sgms lg)(a \<mapsto> g')\<rparr>, ELEOS)"
    "log_core s' (lg\<lparr>lg_sgms := (lg_sgms lg)(a \<mapsto> g')\<rparr>) (ys @ [(a, ps)])"
    "no_files s' (lg\<lparr>lg_sgms := (lg_sgms lg)(a \<mapsto> g')\<rparr>) (length (contents (ys @ [(a, ps)])))"
    "segment_write_offset g' = word_of_nat (length (contents (ys @ [(a, ps)])))"
    "map_base s' = map_base s" "page_size s' = page_size s" "ended s' g' ps" "disk_kept s s'"
    "log_synced s lg (ys @ [(a, ps)]) \<Longrightarrow> log_synced s' (lg\<lparr>lg_sgms := (lg_sgms lg)(a \<mapsto> g')\<rparr>) (ys @ [(a, ps)])"
proof -
  from core obtain t g0 where G0: "lg_index lg = Some t" "mbptree_last_value t = Some (0, Some a)" "lg_sgms lg a = Some g0"
    "sg_base_offset g0 = word_of_nat (length (contents ys))" "sg_size g0 = u32_of_size (lg_size lg)"
    "sg_flags g0 AND SGM_RDCMT = lg_flags lg AND MQLOG_RDCMT" "seg_held s (lg_dir lg) g0 ps" "ps \<noteq> []" by (rule core_last)
  then have G: "sg_base_offset g = word_of_nat (length (contents ys))" "seg_held s (lg_dir lg) g ps" "ps \<noteq> []"
    using g by simp_all
  from held_write_end [OF G(2) tk G(3) len] obtain s' g' where
    w: "segment_write s g p = Some (s', g', ELEOS)" "seg_held s' (lg_dir lg) g' ps"
      "same_but {sg_buffer g, sg_index g} s s'" "g' = g\<lparr>sg_w := sg_w g'\<rparr>" "ended s' g' ps"
      "synced s g \<longrightarrow> synced s' g'" "disk_kept s s'" by blast
  have tot: "length (contents (ys @ [(a, ps)])) < 2 ^ 64" using core by (simp add: log_core_def)
  note U = update_last [OF core g w(2) G(3) write_keeps [OF w(4)] same_butD [OF w(3)] tot]
  have "sg_base_offset g' = word_of_nat (length (contents ys))" by (subst w(4)) (simp add: G(1))
  then have "segment_write_offset g' = word_of_nat (length (contents (ys @ [(a, ps)])))"
    using held_write_offset [OF w(2)] tot by simp
  moreover have "length (contents ys) < length (contents (ys @ [(a, ps)]))" using G(3) by simp
  ultimately show ?thesis using that [of s' g'] w g U(1) U(3) [OF nf] U(2) by (simp add: write_segment_def same_but_def)
qed

text \<open>A write that succeeded: what \<open>mqlog_trywrite\<close> returned and what it left of the log.\<close>

definition wrote :: "os \<Rightarrow> mqlog \<Rightarrow> parts \<Rightarrow> bytes \<Rightarrow> os \<Rightarrow> mqlog \<Rightarrow> parts \<Rightarrow> bool" where
  "wrote s lg xs p s' lg' xs' \<longleftrightarrow>
    mqlog_trywrite s lg p = Some (s', lg', int (length p)) \<and> log_core s' lg' xs' \<and>
    no_files s' lg' (Suc (length (contents xs))) \<and> extended xs (lg_next lg) p xs' \<and> placed s lg xs p xs' \<and> same_log lg lg' \<and>
    map_base s' = map_base s \<and> page_size s' = page_size s \<and>
    disk_kept s s' \<and> (log_synced s lg xs \<longrightarrow> log_synced s' lg' xs') \<and>
    (xs' = xs @ [(lg_next lg, [p])] \<longrightarrow> never_synced lg' (lg_next lg) \<and>
       disk_empty s' (lg_dir lg) (word_of_nat (length (contents xs))) (u32_of_size (lg_size lg)))"

text \<open>The last segment takes the payload, or it is at its end and a new segment takes it.\<close>

lemma trywrite_last:
  assumes core: "log_core s lg xs" and nf: "no_files s lg (length (contents xs))" and len: "length (contents xs) + 1 < 2 ^ 64"
    and xs: "xs = ys @ [(a, ps)]" and g: "lg_sgms lg a = Some g" and tk: "takes s g ps p" and room: "length ps < index_room s g"
  shows "\<exists>s' lg' xs'. wrote s lg xs p s' lg' xs'"
proof -
  from core [unfolded xs] g obtain t where G: "lg_index lg = Some t" "mbptree_last_value t = Some (0, Some a)" "lg_sgms lg a = Some g"
    "sg_base_offset g = word_of_nat (length (contents ys))" "sg_size g = u32_of_size (lg_size lg)"
    "sg_flags g AND SGM_RDCMT = lg_flags lg AND MQLOG_RDCMT" "seg_held s (lg_dir lg) g ps" "ps \<noteq> []" by (auto elim: core_last)
  from held_write [OF G(7) tk room] obtain s' g' where
    w: "segment_write s g p = Some (s', g', int (length p))" "seg_held s' (lg_dir lg) g' (ps @ [p])"
      "same_but {sg_buffer g, sg_index g} s s'" "g' = g\<lparr>sg_w := sg_w g'\<rparr>" "synced s g \<longrightarrow> synced s' g'" "disk_kept s s'" by blast
  have tot: "length (contents (ys @ [(a, ps @ [p])])) < 2 ^ 64" using len xs by simp
  note U = update_last [OF core [unfolded xs] G(3) w(2) _ write_keeps [OF w(4)] same_butD [OF w(3)] tot]
  have "length (contents ys) < length (contents xs)" using xs G(8) by simp
  then have "no_files s' (lg\<lparr>lg_sgms := (lg_sgms lg)(a \<mapsto> g')\<rparr>) (Suc (length (contents xs)))"
    using U(3) [OF _ nf] by simp
  moreover have "log_synced s' (lg\<lparr>lg_sgms := (lg_sgms lg)(a \<mapsto> g')\<rparr>) (ys @ [(a, ps @ [p])])" if "log_synced s lg xs"
    using U(2) w(5) that xs G(3) by simp
  ultimately show ?thesis using G w U(1) xs tk
    by (intro exI [of _ s'] exI [of _ "lg\<lparr>lg_sgms := (lg_sgms lg)(a \<mapsto> g')\<rparr>"] exI [of _ "ys @ [(a, ps @ [p])]"])
      (auto simp: wrote_def mqlog_trywrite_def write_segment_def ELEOS_def extended_def placed_def same_log_def same_but_def)
qed

lemma trywrite_next:
  assumes core: "log_core s lg xs" and nf: "no_files s lg (length (contents xs))" and len: "length (contents xs) + 1 < 2 ^ 64"
    and fit: "length p + 24 \<le> unat (lg_size lg)"
    and xs: "xs = ys @ [(a, ps)]" and g: "lg_sgms lg a = Some g" and tk: "\<not> takes s g ps p"
  shows "\<exists>s' lg' xs'. wrote s lg xs p s' lg' xs'"
proof -
  from core [unfolded xs] obtain t where G: "lg_index lg = Some t" "mbptree_last_value t = Some (0, Some a)" by (rule core_last)
  have "length p + 24 < 2 ^ 64" using fit unsigned_less [of "lg_size lg", where ?'a = nat] by simp
  from write_last_end [OF core [unfolded xs] g tk nf [unfolded xs] this] obtain s1 g1 where
    W: "write_segment s lg a p = Some (s1, lg\<lparr>lg_sgms := (lg_sgms lg)(a \<mapsto> g1)\<rparr>, ELEOS)"
    "log_core s1 (lg\<lparr>lg_sgms := (lg_sgms lg)(a \<mapsto> g1)\<rparr>) xs"
    "no_files s1 (lg\<lparr>lg_sgms := (lg_sgms lg)(a \<mapsto> g1)\<rparr>) (length (contents xs))"
    "segment_write_offset g1 = word_of_nat (length (contents xs))"
    "map_base s1 = map_base s" "page_size s1 = page_size s" "disk_kept s s1"
    "log_synced s lg xs \<Longrightarrow> log_synced s1 (lg\<lparr>lg_sgms := (lg_sgms lg)(a \<mapsto> g1)\<rparr>) xs" unfolding xs by blast
  from new_part [OF W(2,3) len, of p] fit obtain s2 lg2 s3 lg3 lg4 where
    "create_segment s1 (lg\<lparr>lg_sgms := (lg_sgms lg)(a \<mapsto> g1)\<rparr>) (word_of_nat (length (contents xs))) = Some (s2, lg2, 0, lg_next lg)"
    "write_segment s2 lg2 (lg_next lg) p = Some (s3, lg3, int (length p))"
    "index_segment s3 lg3 (lg_next lg) (int (length p)) = Some (s3, lg4, int (length p))"
    "log_core s3 lg4 (xs @ [(lg_next lg, [p])])" "no_files s3 lg4 (Suc (length (contents xs)))"
    "same_log (lg\<lparr>lg_sgms := (lg_sgms lg)(a \<mapsto> g1)\<rparr>) lg4" "map_base s3 = map_base s1" "page_size s3 = page_size s1" "disk_kept s1 s3"
    "log_synced s1 (lg\<lparr>lg_sgms := (lg_sgms lg)(a \<mapsto> g1)\<rparr>) xs \<longrightarrow> log_synced s3 lg4 (xs @ [(lg_next lg, [p])])"
    "never_synced lg4 (lg_next lg)" "disk_empty s3 (lg_dir lg) (word_of_nat (length (contents xs))) (u32_of_size (lg_size lg))" by auto
  moreover have "disk_kept s s3" by (rule disk_kept_trans [OF W(7)]) fact
  ultimately show ?thesis using G g W tk
    by (intro exI [of _ s3] exI [of _ lg4] exI [of _ "xs @ [(lg_next lg, [p])]"])
      (simp add: wrote_def mqlog_trywrite_def ELEOS_def extended_def placed_def same_log_def xs)
qed

lemma trywrite_ok:
  assumes core: "log_core s lg xs" and nf: "no_files s lg (length (contents xs))"
    and len: "length (contents xs) + 1 < 2 ^ 64" and fit: "length p + 24 \<le> unat (lg_size lg)" and ix: "index_free s lg xs p"
  shows "\<exists>s' lg' xs'. wrote s lg xs p s' lg' xs'"
proof (cases xs rule: rev_cases)
  case Nil
  from core obtain t where t: "lg_index lg = Some t" "index_rep t []" by (auto simp: log_core_def Nil)
  show ?thesis using new_part [OF core nf len fit] t ix.last_val [OF t(2)]
    by (auto simp: wrote_def mqlog_trywrite_def Nil extended_def placed_def ELEOS_def)
next
  case (snoc ys x)
  then obtain a ps where xs: "xs = ys @ [(a, ps)]" by (cases x) simp
  from core [unfolded xs] obtain g where g: "lg_sgms lg a = Some g" by (rule core_last)
  show ?thesis
  proof (cases "takes s g ps p")
    case True
    then have "length ps < index_room s g" using ix g xs by (auto simp: index_free_def)
    then show ?thesis by (rule trywrite_last [OF core nf len xs g True])
  next
    case False
    then show ?thesis by (rule trywrite_next [OF core nf len fit xs g])
  qed
qed

lemma write_ok:
  assumes ok: "log_ok s lg xs" and len: "length (contents xs) + 1 < 2 ^ 64" and ne: "p \<noteq> []"
    and fit: "length p + 24 \<le> unat (lg_size lg)" and ix: "index_free s lg xs p"
  shows "\<exists>s' lg' xs'. mqlog_write s lg e p = Some (s', lg', int (length p)) \<and> log_ok s' lg' xs' \<and>
    extended xs (lg_next lg) p xs' \<and> placed s lg xs p xs' \<and> same_log lg lg' \<and> map_base s' = map_base s \<and> page_size s' = page_size s \<and>
    disk_kept s s' \<and> (log_synced s lg xs \<longrightarrow> log_synced s' lg' xs') \<and>
    (xs' = xs @ [(lg_next lg, [p])] \<longrightarrow> never_synced lg' (lg_next lg) \<and>
       disk_empty s' (lg_dir lg) (word_of_nat (length (contents xs))) (u32_of_size (lg_size lg)))"
proof -
  have L: "log_core s (lg\<lparr>lg_lock := True\<rparr>) xs" "no_files s (lg\<lparr>lg_lock := True\<rparr>) (length (contents xs))"
    "outcomes s = []" "\<not> lg_lock lg" using ok by (simp_all add: log_ok_def log_rep_def log_core_def log_env_def)
  have ix': "index_free s (lg\<lparr>lg_lock := True\<rparr>) xs p" using ix by (simp add: index_free_def)
  have P: "placed s (lg\<lparr>lg_lock := True\<rparr>) xs p xs' = placed s lg xs p xs'" for xs' by (simp add: placed_def cong: if_cong)
  from trywrite_ok [OF L(1,2) len _ ix'] fit obtain s' lg' xs' where
    w: "mqlog_trywrite s (lg\<lparr>lg_lock := True\<rparr>) p = Some (s', lg', int (length p))" "log_core s' lg' xs'"
      "no_files s' lg' (Suc (length (contents xs)))" "extended xs (lg_next lg) p xs'" "placed s lg xs p xs'"
      "same_log (lg\<lparr>lg_lock := True\<rparr>) lg'" "map_base s' = map_base s" "page_size s' = page_size s"
      "disk_kept s s'" "log_synced s lg xs \<longrightarrow> log_synced s' lg' xs'"
      "xs' = xs @ [(lg_next lg, [p])] \<longrightarrow> never_synced lg' (lg_next lg) \<and>
        disk_empty s' (lg_dir lg) (word_of_nat (length (contents xs))) (u32_of_size (lg_size lg))" by (auto simp: wrote_def log_synced_def P)
  have o: "outcomes s' = []" using w(2) by (simp add: log_core_def log_env_def)
  have "length (contents xs') = Suc (length (contents xs))" using extended_contents [OF w(4)] by simp
  then show ?thesis using w L ne mutex_ok(1) [OF L(3,4)] mutex_ok(2) [OF o]
    by (intro exI [of _ s'] exI [of _ "lg'\<lparr>lg_lock := False\<rparr>"] exI [of _ xs'])
      (simp add: mqlog_write_def EBUSY_def log_ok_def log_rep_def same_log_def log_synced_def never_synced_def)
qed

end
