(* ===== verification/Mbptree_Free.thy ===== *)
theory Mbptree_Free
  imports Mbptree_Theorems
begin

text \<open>
  Freeing the tree: \<open>mbptree_free_node\<close> visits the nodes of a subtree from the leaves up, each
  once, and never reads a node that it has freed.
\<close>

section \<open>Subtrees of the heap\<close>

text \<open>The node at \<open>a\<close> and its descendants, a tree in the heap, have the addresses \<open>S\<close>.\<close>

inductive subtree :: "mbptree \<Rightarrow> address \<Rightarrow> address set \<Rightarrow> bool" for t :: mbptree where
  leaf: "nodes t a = Some n \<Longrightarrow> n_leaf n = 1 \<Longrightarrow> subtree t a {a}"
| inner: "nodes t a = Some n \<Longrightarrow> n_leaf n \<noteq> 1 \<Longrightarrow> n_size n < length (n_data n) \<Longrightarrow>
    (\<And>i. i \<le> n_size n \<Longrightarrow> md_value (n_data n ! i) \<noteq> 0 \<and> subtree t (md_value (n_data n ! i)) (D i) \<and> a \<notin> D i) \<Longrightarrow>
    (\<And>i j. i < j \<Longrightarrow> j \<le> n_size n \<Longrightarrow> D i \<inter> D j = {}) \<Longrightarrow>
    subtree t a (insert a (\<Union>i \<le> n_size n. D i))"

definition without :: "mbptree \<Rightarrow> address set \<Rightarrow> mbptree" where
  "without t S = t\<lparr>nodes := (\<lambda>x. if x \<in> S then None else nodes t x)\<rparr>"

lemma without_simps [simp]: "nodes (without t S) x = (if x \<in> S then None else nodes t x)" "without t {} = t"
  by (simp_all add: without_def)

lemma without_without [simp]: "without (without t S) T = without t (S \<union> T)"
  by (cases t) (auto simp: without_def)

lemma free_address_eq: "nodes t a = Some n \<Longrightarrow> free_address t a = Some (without t {a})"
  by (auto simp: free_address_def without_def fun_upd_def)

lemma free_children:
  assumes n: "n_size n < length (n_data n)" and i: "i \<le> Suc (n_size n)"
    and D: "\<And>j t'. i \<le> j \<Longrightarrow> j \<le> n_size n \<Longrightarrow> md_value (n_data n ! j) \<noteq> 0 \<and>
      (\<forall>T. D j \<inter> T = {} \<longrightarrow> mbptree_free_from (without t T) (md_value (n_data n ! j)) None = Some (without t (T \<union> D j)))"
    and dis: "\<And>j k. j < k \<Longrightarrow> k \<le> n_size n \<Longrightarrow> D j \<inter> D k = {}" and a: "\<And>j. j \<le> n_size n \<Longrightarrow> a \<notin> D j"
    and at: "nodes t a = Some n"
  shows "mbptree_free_from (without t (\<Union>j<i. D j)) a (Some i) = Some (without t (\<Union>j\<le>n_size n. D j))"
  using i D
proof (induction "Suc (n_size n) - i" arbitrary: i)
  case 0
  then have eq: "i = Suc (n_size n)" by simp
  have "a \<notin> (\<Union>j<i. D j)" using a eq by (auto simp: less_Suc_eq_le)
  then have "nodes (without t (\<Union>j<i. D j)) a = Some n" using at by simp
  then show ?case using eq by (subst mbptree_free_from.simps) (simp add: lessThan_Suc_atMost)
next
  case (Suc m)
  then have le: "i \<le> n_size n" by simp
  let ?t = "without t (\<Union>j<i. D j)"
  have "a \<notin> (\<Union>j<i. D j)" using a le by auto
  then have ta: "nodes ?t a = Some n" using at by simp
  have "D i \<inter> (\<Union>j<i. D j) = {}" using dis [OF _ le] by blast
  then have c: "md_value (n_data n ! i) \<noteq> 0" "mbptree_free_from ?t (md_value (n_data n ! i)) None = Some (without t ((\<Union>j<i. D j) \<union> D i))"
    using Suc.prems(2) le by auto
  have u: "(\<Union>j<i. D j) \<union> D i = (\<Union>j<Suc i. D j)" by (auto simp: lessThan_Suc)
  have IH: "mbptree_free_from (without t (\<Union>j<Suc i. D j)) a (Some (Suc i)) = Some (without t (\<Union>j\<le>n_size n. D j))"
    using Suc.hyps(1) [of "Suc i"] Suc.hyps(2) Suc.prems(2) le by simp
  show ?case using ta c le n IH u by (subst mbptree_free_from.simps) (simp add: get_data_eq)
qed

lemma free_subtree:
  "subtree t a S \<Longrightarrow> S \<inter> T = {} \<Longrightarrow> mbptree_free_from (without t T) a None = Some (without t (T \<union> S))"
proof (induction arbitrary: T rule: subtree.induct)
  case (leaf a n)
  then show ?case by (subst mbptree_free_from.simps) (simp add: mbptree_is_leaf_def free_address_eq [of _ _ n])
next
  case (inner a n D)
  let ?t = "without t T"
  have at: "nodes ?t a = Some n" using inner.hyps(1) inner.prems by auto
  have "mbptree_free_from (without ?t (\<Union>j<0. D j)) a (Some 0) = Some (without ?t (\<Union>j\<le>n_size n. D j))"
  proof (rule free_children [OF inner.hyps(3) _ _ _ _ at])
    fix j assume j: "j \<le> n_size n"
    have dT: "D j \<inter> T = {}" using inner.prems j by auto
    show "md_value (n_data n ! j) \<noteq> 0 \<and>
      (\<forall>U. D j \<inter> U = {} \<longrightarrow> mbptree_free_from (without ?t U) (md_value (n_data n ! j)) None = Some (without ?t (U \<union> D j)))"
      using inner.IH [OF j] dT by (auto simp: Un_assoc Int_Un_distrib)
  qed (use inner.IH inner.hyps(4) in auto)
  moreover have "a \<notin> (\<Union>j\<le>n_size n. D j)" using inner.IH by auto
  moreover have "T \<union> (\<Union>j\<le>n_size n. D j) \<union> {a} = T \<union> insert a (\<Union>j\<le>n_size n. D j)" by auto
  ultimately show ?case using at inner.hyps(2)
    by (subst mbptree_free_from.simps) (simp add: mbptree_is_leaf_def free_address_eq [of _ _ n])
qed


section \<open>The whole tree\<close>

lemma inner_children:
  assumes "inner_node b g n" "i \<le> n_size n"
  shows "md_value (n_data n ! i) = fst (g ! i)" "i < length g" "n_size n < length (n_data n)"
proof -
  have sz: "Suc (n_size n) = length g" "length g \<le> length (n_data n)" "take (length g) (vals n) = map fst g"
    using assms(1) by (auto simp: inner_node_def)
  then show "i < length g" "n_size n < length (n_data n)" using assms(2) by auto
  then have "vals n ! i = fst (g ! i)" using sz by (metis nth_map nth_take)
  then show "md_value (n_data n ! i) = fst (g ! i)" using sz assms(2) by simp
qed

lemma subtree_group:
  assumes ok: "group_ok t (a, g)" and hp: "heap_ok t" and d: "distinct (map fst g)"
    and D: "\<And>x. x \<in> fst ` set g \<Longrightarrow> subtree t x (D x) \<and> a \<notin> D x"
    and dis: "\<And>x y. x \<in> fst ` set g \<Longrightarrow> y \<in> fst ` set g \<Longrightarrow> x \<noteq> y \<Longrightarrow> D x \<inter> D y = {}"
  shows "subtree t a (insert a (\<Union>x \<in> fst ` set g. D x))"
proof -
  from ok obtain n where n: "nodes t a = Some n" "inner_node (branch_factor t) g n" by (rule group_okE)
  have par: "\<And>x. x \<in> set g \<Longrightarrow> node_parent t (fst x) = Some a" using ok by (simp add: group_ok_def)
  note C = inner_children [OF n(2)]
  have sz: "Suc (n_size n) = length g" "n_leaf n = 0" using n(2) by (auto simp: inner_node_def)
  have mem: "fst (g ! i) \<in> fst ` set g" if "i \<le> n_size n" for i using C(2) [OF that] by simp
  have nz: "fst (g ! i) \<noteq> 0" if "i \<le> n_size n" for i
  proof -
    have "nodes t (fst (g ! i)) \<noteq> None" using par [of "g ! i"] C(2) [OF that] by (auto simp: node_parent_def)
    then show ?thesis using heap_ok_fresh(2) [OF hp] by auto
  qed
  have "subtree t a (insert a (\<Union>i \<le> n_size n. D (fst (g ! i))))"
  proof (rule subtree.inner [OF n(1)])
    show "n_size n < length (n_data n)" using C(3) by blast
    fix i assume i: "i \<le> n_size n"
    show "md_value (n_data n ! i) \<noteq> 0 \<and> subtree t (md_value (n_data n ! i)) (D (fst (g ! i))) \<and> a \<notin> D (fst (g ! i))"
      using C(1) [OF i] nz [OF i] D [OF mem [OF i]] by simp
  next
    fix i j assume ij: "i < j" "j \<le> n_size n"
    then have "fst (g ! i) \<noteq> fst (g ! j)"
      using d nth_eq_iff_index_eq [of "map fst g" i j] C(2) [of i] C(2) [of j] by simp
    then show "D (fst (g ! i)) \<inter> D (fst (g ! j)) = {}" using dis mem ij by simp
  qed (simp add: sz(2))
  moreover have "(\<Union>i \<le> n_size n. D (fst (g ! i))) = (\<Union>x \<in> fst ` set g. D x)"
  proof -
    have "fst ` set g = (\<lambda>i. fst (g ! i)) ` {..n_size n}"
    proof -
      have "{..n_size n} = {0..<length g}" using sz(1) by auto
      then have "(\<lambda>i. fst (g ! i)) ` {..n_size n} = fst ` ((!) g ` {0..<length g})" by (simp add: image_image)
      moreover have "(!) g ` {0..<length g} = set g" by (auto simp: set_conv_nth)
      ultimately show ?thesis by simp
    qed
    then show ?thesis by simp
  qed
  ultimately show ?thesis by simp
qed

lemma groups_disjoint:
  assumes "(a, g) \<in> set G" "(b, h) \<in> set G" "a \<noteq> b" "distinct (map fst (concat (map snd G)) @ addrs (G # Gs))"
  shows "fst ` set g \<inter> fst ` set h = {}"
  using assms
proof (induction G)
  case (Cons c G)
  have sub: "x \<in> set G \<Longrightarrow> fst ` set (snd x) \<subseteq> fst ` set (concat (map snd G))" for x by force
  have dis: "fst ` set (snd c) \<inter> fst ` set (concat (map snd G)) = {}"
    using Cons.prems(4) by (simp add: Int_Un_distrib image_UN)
  consider "c = (a, g)" "(b, h) \<in> set G" | "c = (b, h)" "(a, g) \<in> set G" | "(a, g) \<in> set G" "(b, h) \<in> set G"
    using Cons.prems(1-3) by auto
  then show ?case
  proof cases
    case 1
    then show ?thesis using sub [of "(b, h)"] dis by auto
  next
    case 2
    then show ?thesis using sub [of "(a, g)"] dis by auto
  next
    case 3
    then show ?thesis using Cons.IH Cons.prems(3,4) by simp
  qed
qed simp

lemma group_distinct:
  assumes "distinct (map fst (concat (map snd G)) @ addrs (G # Gs))" "(a, g) \<in> set G"
  shows "distinct (map fst g)"
  using assms by (induction G) auto

text \<open>A level of the tree as a family of disjoint subtrees: \<open>D\<close> gives the addresses under each node of \<open>X\<close>,
  none of them in \<open>R\<close>, the levels above.\<close>

definition forest :: "mbptree \<Rightarrow> address set \<Rightarrow> (address \<Rightarrow> address set) \<Rightarrow> address set \<Rightarrow> bool" where
  "forest t X D R \<longleftrightarrow> (\<forall>x \<in> X. subtree t x (D x) \<and> D x \<inter> R = {}) \<and> (\<forall>x \<in> X. \<forall>y \<in> X. x \<noteq> y \<longrightarrow> D x \<inter> D y = {})"

lemma forestD:
  assumes "forest t X D R" "x \<in> X"
  shows "subtree t x (D x)" "D x \<inter> R = {}" "y \<in> X \<Longrightarrow> x \<noteq> y \<Longrightarrow> D x \<inter> D y = {}"
  using assms by (simp_all add: forest_def)

text \<open>The addresses under the node \<open>a\<close> of the next level.\<close>

definition node_set :: "(address \<times> (address \<times> 'k) list) list \<Rightarrow> (address \<Rightarrow> address set) \<Rightarrow> address \<Rightarrow> address set" where
  "node_set G D a = insert a (\<Union>x \<in> fst ` set (the (map_of G a)). D x)"

lemma node_set_eq: "distinct (map fst G) \<Longrightarrow> (a, g) \<in> set G \<Longrightarrow> node_set G D a = insert a (\<Union>x \<in> fst ` set g. D x)"
  by (simp add: node_set_def)

lemma node_set_all:
  assumes d: "distinct (map fst G)"
  shows "(\<Union>a \<in> fst ` set G. node_set G D a) = (\<Union>x \<in> fst ` set (concat (map snd G)). D x) \<union> fst ` set G"
proof -
  have "(\<Union>a \<in> fst ` set G. node_set G D a) = (\<Union>ag \<in> set G. insert (fst ag) (\<Union>x \<in> fst ` set (snd ag). D x))"
    unfolding image_image by (intro SUP_cong refl) (force simp: node_set_eq [OF d])
  also have "\<dots> = fst ` set G \<union> (\<Union>ag \<in> set G. \<Union>x \<in> fst ` set (snd ag). D x)" by blast
  finally show ?thesis by (simp add: Un_commute)
qed

text \<open>From the leaves up: when the nodes of a level are subtrees, so are the nodes above them.\<close>

lemma forest_up:
  assumes F: "forest t (fst ` set (concat (map snd G))) D (set (addrs (G # Gs)))" and hp: "heap_ok t"
    and gs: "\<forall>ag \<in> set G. group_ok t ag" and d: "distinct (map fst (concat (map snd G)) @ addrs (G # Gs))"
  shows "forest t (fst ` set G) (node_set G D) (set (addrs Gs))"
proof -
  have dG: "distinct (map fst G)" using d by simp
  have inL: "x \<in> fst ` set (concat (map snd G))" if "(a, g) \<in> set G" "x \<in> fst ` set g" for a g x using that by force
  have out: "b \<notin> D x" if "(a, g) \<in> set G" "x \<in> fst ` set g" "b \<in> set (addrs (G # Gs))" for a g x b
    using forestD(2) [OF F inL [OF that(1,2)]] that(3) by blast
  have top: "a \<in> set (addrs (G # Gs))" "a \<notin> set (addrs Gs)" if "(a, g) \<in> set G" for a g using that d by force+
  have sub: "subtree t a (node_set G D a) \<and> node_set G D a \<inter> set (addrs Gs) = {}" if ag: "(a, g) \<in> set G" for a g
  proof
    show "subtree t a (node_set G D a)" unfolding node_set_eq [OF dG ag]
    proof (rule subtree_group [OF _ hp])
      show "group_ok t (a, g)" using gs ag by blast
      show "distinct (map fst g)" using d ag by (rule group_distinct)
      show "subtree t x (D x) \<and> a \<notin> D x" if "x \<in> fst ` set g" for x
        using forestD(1) [OF F inL [OF ag that]] out [OF ag that] top(1) [OF ag] by blast
      show "D x \<inter> D y = {}" if "x \<in> fst ` set g" "y \<in> fst ` set g" "x \<noteq> y" for x y
        using forestD(3) [OF F inL [OF ag that(1)] inL [OF ag that(2)] that(3)] .
    qed
    have "D x \<inter> set (addrs Gs) = {}" if "x \<in> fst ` set g" for x using out [OF ag that] by auto
    then show "node_set G D a \<inter> set (addrs Gs) = {}" unfolding node_set_eq [OF dG ag] using top(2) [OF ag] by blast
  qed
  have dis: "node_set G D a \<inter> node_set G D b = {}" if ab: "(a, g) \<in> set G" "(b, h) \<in> set G" "a \<noteq> b" for a b g h
  proof -
    have "D x \<inter> D y = {}" if "x \<in> fst ` set g" "y \<in> fst ` set h" for x y
      using forestD(3) [OF F inL [OF ab(1) that(1)] inL [OF ab(2) that(2)]] groups_disjoint [OF ab d] that by blast
    moreover have "a \<notin> (\<Union>x \<in> fst ` set h. D x)" "b \<notin> (\<Union>x \<in> fst ` set g. D x)"
      using out [OF ab(1) _ top(1) [OF ab(2)]] out [OF ab(2) _ top(1) [OF ab(1)]] by (meson UN_E)+
    ultimately show ?thesis unfolding node_set_eq [OF dG ab(1)] node_set_eq [OF dG ab(2)] using ab(3) by blast
  qed
  show ?thesis unfolding forest_def
  proof (intro conjI ballI impI)
    fix a assume "a \<in> fst ` set G"
    then obtain g where a: "(a, g) \<in> set G" by force
    then show "subtree t a (node_set G D a)" "node_set G D a \<inter> set (addrs Gs) = {}" using sub by blast+
    fix b assume "b \<in> fst ` set G" "a \<noteq> b"
    then show "node_set G D a \<inter> node_set G D b = {}" using dis [OF a] by force
  qed
qed

lemma subtree_levels:
  assumes "levels_ok t L Gs" "heap_ok t" "distinct (map fst L @ addrs Gs)" "forest t (fst ` set L) D (set (addrs Gs))"
  shows "subtree t (root t) ((\<Union>x \<in> fst ` set L. D x) \<union> set (addrs Gs))"
  using assms
proof (induction Gs arbitrary: L D)
  case Nil
  then have "fst ` set L = {root t}" by (metis levels_ok.simps(1) list.set_map list.simps(15) set_empty2)
  then show ?case using forestD(1) [OF Nil.prems(4)] by simp
next
  case (Cons G Gs)
  have L: "L = concat (map snd G)" and lv: "levels_ok t (heads G) Gs" and gs: "\<forall>ag \<in> set G. group_ok t ag"
    using Cons.prems(1) by auto
  have hd: "fst ` set (heads G) = fst ` set G" by (metis heads_simps(4) set_map)
  have d: "distinct (map fst G)" "distinct (map fst (heads G) @ addrs Gs)" using Cons.prems(3) by simp_all
  from forest_up [OF Cons.prems(4) [unfolded L] Cons.prems(2) gs Cons.prems(3) [unfolded L]]
  have "subtree t (root t) ((\<Union>a \<in> fst ` set (heads G). node_set G D a) \<union> set (addrs Gs))"
    by (intro Cons.IH [OF lv Cons.prems(2) d(2)]) (simp add: hd)
  then show ?case unfolding hd node_set_all [OF d(1)] by (simp add: L Un_assoc)
qed


lemma tree_subtree:
  assumes "tree_inv t ls Gs"
  shows "subtree t (root t) {x. nodes t x \<noteq> None}"
proof -
  have I: "heap_ok t" "levels_ok t (leaf_level ls) Gs" "distinct (map fst ls @ addrs Gs)"
    "\<And>x. nodes t x \<noteq> None \<longleftrightarrow> x \<in> set (map fst ls @ addrs Gs)" using assms by (auto simp: tree_inv_def)
  have lf: "subtree t x {x}" if x: "x \<in> fst ` set ls" for x
  proof -
    from x obtain es ls1 ls2 where "ls = ls1 @ (x, es) # ls2" by (auto dest: split_list)
    then obtain n where "nodes t x = Some n" "n_leaf n = 1"
      using tree_inv_leaf(1) [of t ls1 x es ls2 Gs] assms by (auto simp: leaf_node_def)
    then show ?thesis by (rule subtree.leaf)
  qed
  have ll: "fst ` set (leaf_level ls) = fst ` set ls" by (metis leaf_level_simps(4) set_map)
  have "subtree t (root t) ((\<Union>x \<in> fst ` set (leaf_level ls). {x}) \<union> set (addrs Gs))"
    using I(3) by (intro subtree_levels [OF I(2,1)]) (auto simp: forest_def ll lf)
  moreover have "(\<Union>x \<in> fst ` set (leaf_level ls). {x}) \<union> set (addrs Gs) = {x. nodes t x \<noteq> None}"
    using I(4) by (auto simp: ll)
  ultimately show ?thesis by simp
qed

lemma free_rep:
  assumes "tree_rep t es"
  shows "mbptree_free t = Some (t\<lparr>nodes := Map.empty\<rparr>, 0)"
proof -
  from assms obtain ls Gs where "tree_inv t ls Gs" by (auto simp: tree_rep_def)
  then have "mbptree_free_from (without t {}) (root t) None = Some (without t ({} \<union> {x. nodes t x \<noteq> None}))"
    by (intro free_subtree tree_subtree) simp_all
  moreover have "without t {x. nodes t x \<noteq> None} = t\<lparr>nodes := Map.empty\<rparr>" by (cases t) (auto simp: without_def)
  ultimately show ?thesis by (simp add: mbptree_free_def mbptree_free_node_def)
qed

lemma root_node: "tree_rep t es \<Longrightarrow> nodes t (root t) \<noteq> None"
  unfolding tree_rep_def tree_inv_def by (metis levels_root node_parent_def option.map(1) option.distinct(1))

text \<open>C24. \<open>mbptree_free\<close> on any tree ends, frees every node, and frees no node twice: a second
  visit of a node would use a pointer that no longer points to one.\<close>

theorem mbptree_free_all:
  assumes "tree_rep t es"
  shows "\<exists>t'. mbptree_free t = Some (t', 0) \<and> (\<forall>a. nodes t' a = None)"
  using free_rep [OF assms] by simp

theorem mbptree_free_all_witness:
  "\<exists>t t'. demo_tree [(1, 10), (3, 30), (5, 50), (7, 70), (9, 90)] = Some t \<and>
     mbptree_free t = Some (t', 0) \<and> nodes t (root t) \<noteq> None \<and> nodes t' (root t) = None"
proof -
  obtain t where t: "demo_tree [(1, 10), (3, 30), (5, 50), (7, 70), (9, 90)] = Some t"
    "index_rep t [(1, 10), (3, 30), (5, 50), (7, 70), (9, 90)]"
    using demo_tree_rep [of "[(1, 10), (3, 30), (5, 50), (7, 70), (9, 90)]"] by auto
  then have r: "tree_rep t [(1, 10), (3, 30), (5, 50), (7, 70), (9, 90)]" by (simp add: index_rep_def)
  then have "nodes t (root t) \<noteq> None" by (simp add: root_node)
  then show ?thesis using mbptree_free_all [OF r] t(1) by auto
qed

end
