(* ===== verification/Mqlog_Open.thy ===== *)
theory Mqlog_Open
  imports Mqlog_Inv Mbptree_Free
begin

text \<open>
  Closing a log and opening it again. The segments of a closed log are in the files of its
  directory; loading finds each by its name, recovers its frames and enters it into a new
  index, and closing runs through the index and synchronises every segment.
\<close>

section \<open>Segments on disk\<close>

definition stored_part :: "os \<Rightarrow> string \<Rightarrow> u32 \<Rightarrow> u64 \<Rightarrow> bytes list \<Rightarrow> bool" where
  "stored_part s dir sz w ps \<longleftrightarrow> seg_stored s dir w sz ps \<and> ps \<noteq> [] \<and>
     (case (files s (data_path dir w), files s (index_path dir w)) of
        (Some fd, Some fi) \<Rightarrow> fsize fd = unat sz \<and> fsize fi = index_len sz \<and>
          length (fdisk fd) = fsize fd \<and> length (fdisk fi) = fsize fi \<and>
          (\<forall>i. 8 * length ps \<le> i \<and> i < fsize fi \<longrightarrow> fdisk fi ! i = 0)
      | _ \<Rightarrow> False)"

fun stored :: "os \<Rightarrow> string \<Rightarrow> u32 \<Rightarrow> nat \<Rightarrow> bytes list list \<Rightarrow> bool" where
  "stored s dir sz b [] = True"
| "stored s dir sz b (ps # pss) \<longleftrightarrow> stored_part s dir sz (word_of_nat b) ps \<and> stored s dir sz (b + length ps) pss"

lemma held_stored_part:
  assumes held: "seg_held s dir g ps" and ne: "ps \<noteq> []" and room: "8 * length ps + 8 \<le> index_len (sg_size g)"
  shows "stored_part s dir (sg_size g) (sg_base_offset g) ps"
  using seg_heldD(3) [OF held]
proof (rule seg_backedE)
  fix fd fi
  assume "files s (data_path dir (sg_base_offset g)) = Some fd" "files s (index_path dir (sg_base_offset g)) = Some fi"
    "fsize fd = unat (sg_size g)" "fsize fi = index_len (sg_size g)"
    "\<forall>i. 8 * length ps \<le> i \<and> i < fsize fi \<longrightarrow> fdisk fi ! i = 0" "length (fdisk fd) = fsize fd" "length (fdisk fi) = fsize fi"
  then show ?thesis using held_stored [OF held room] ne by (simp add: stored_part_def)
qed

lemma stored_part_cong:
  assumes "files s' (data_path dir w) = files s (data_path dir w)" "files s' (index_path dir w) = files s (index_path dir w)"
    "page_size s' = page_size s"
  shows "stored_part s' dir sz w ps = stored_part s dir sz w ps"
proof -
  have "opened_file s' n f = opened_file s n f" for n f by (rule opened_file_cong [OF assms(3)])
  then show ?thesis using assms(1,2) by (simp add: stored_part_def seg_stored_def)
qed

lemma open_stored_part:
  assumes env: "env_ok s dir w sz" and st: "stored_part s dir sz w ps"
  shows "\<exists>s' g. segment_open s dir w sz fl = Some (s', 0, Some g) \<and> seg_held s' dir g ps \<and>
    sg_base_offset g = w \<and> sg_size g = sz \<and> sg_flags g = fl \<and> page_size s' = page_size s \<and> map_base s' = map_base s \<and>
    outcomes s' = [] \<and> dirs s' = dirs (ensured s dir) \<and>
    (\<forall>q. q \<notin> {data_path dir w, index_path dir w} \<longrightarrow> files s' q = files s q)"
proof -
  have st': "seg_stored s dir w sz ps" "ps \<noteq> []" using st by (simp_all add: stored_part_def)
  from segment_open_recovers [OF env st'(1), of fl] obtain fd fi v where
    fd: "opened_file s (unat sz) (files s (data_path dir w)) = Some fd" and
    fi: "opened_file s (index_len sz) (files s (index_path dir w)) = Some fi" and
    run: "segment_open s dir w sz fl = Some (mapped_state s dir w fd fi, 0, Some (opened_segment dir w sz fl v))" and
    rep: "seg_rep (mapped_state s dir w fd fi) (opened_segment dir w sz fl v) ps" by blast
  let ?s = "mapped_state s dir w fd fi" and ?g = "opened_segment dir w sz fl v"
  have pos: "0 < unat sz" "0 < index_len sz" using env by (auto simp: env_ok_def index_len_def)
  from st fd fi pos have F: "files s (data_path dir w) = Some fd" "files s (index_path dir w) = Some fi"
    "fsize fd = unat sz" "fsize fi = index_len sz" "length (fdisk fd) = fsize fd" "length (fdisk fi) = fsize fi"
    "\<forall>i. 8 * length ps \<le> i \<and> i < fsize fi \<longrightarrow> fdisk fi ! i = 0"
    by (auto simp: stored_part_def opened_file_def split: option.splits if_splits)
  from st'(1) fd fi have z: "drop (8 * length ps) (take (index_len sz) (fbytes fi)) = zeros (index_len sz - 8 * length ps)"
    and l: "index_len sz \<le> length (fbytes fi)" by (simp_all add: seg_stored_def)
  have z0: "fbytes fi ! i = 0" if i: "8 * length ps \<le> i" "i < index_len sz" for i
  proof -
    have "drop (8 * length ps) (take (index_len sz) (fbytes fi)) ! (i - 8 * length ps) = 0" using i by (simp only: z) simp
    then show ?thesis using i l by (simp add: nth_drop)
  qed
  have pg: "0 < page_size s" using env by (simp add: env_ok_def)
  have "seg_backed ?s dir ?g ps"
    using F z0 l st'(2) page_round_ge [OF pg, of "index_len sz"]
    by (auto simp: seg_backed_def opened_segment_def mapped_state_def map_file_def nth_append page_round_def)
  moreover have "sync_le ?s ?g" by (simp add: sync_le_def opened_segment_def mapped_state_def)
  ultimately have "seg_held ?s dir ?g ps" using rep by (simp add: seg_held_def)
  then show ?thesis using run env
    by (intro exI [of _ ?s] exI [of _ ?g]) (simp add: env_ok_def, simp add: opened_segment_def mapped_state_def)
qed

section \<open>Loading\<close>

definition log_name :: "nat \<Rightarrow> string" where
  "log_name b = print_jd (word_of_nat b) @ ''.log''"

fun starts :: "nat \<Rightarrow> bytes list list \<Rightarrow> nat list" where
  "starts b [] = []"
| "starts b (ps # pss) = b # starts (b + length ps) pss"

definition is_log :: "string \<Rightarrow> bool" where
  "is_log n \<longleftrightarrow> suffix ''.log'' n"

lemma load_loop_filter: "load_loop s lg names = load_loop s lg (filter is_log names)"
proof (induction names arbitrary: s lg)
  case (Cons n ns)
  show ?case
  proof (cases "is_log n")
    case True
    then show ?thesis using Cons by (simp add: has_suffix_iff is_log_def Let_def split: prod.splits cong: if_cong)
  next
    case False
    then show ?thesis using Cons by (simp add: has_suffix_iff is_log_def)
  qed
qed simp


lemma stored_frame:
  assumes "stored s (lg_dir lg) sz b pss" "same_range lg b (b + length (concat pss)) s s'"
  shows "stored s' (lg_dir lg) sz b pss"
  using assms
proof (induction pss arbitrary: b)
  case (Cons ps pss)
  have ne: "ps \<noteq> []" using Cons.prems(1) by (simp add: stored_part_def)
  then have "stored_part s' (lg_dir lg) sz (word_of_nat b) ps"
    using Cons.prems by (subst stored_part_cong [where s = s]) (simp_all add: same_range_def)
  moreover have "same_range lg (b + length ps) (b + length ps + length (concat pss)) s s'"
    using Cons.prems(2) by (simp add: same_range_def)
  ultimately show ?case using Cons by simp
qed simp

lemma log_name_path:
  assumes "last dir \<noteq> CHR ''/''" "length dir \<le> 230"
  shows "fst (snprintf MAX_DIR_SIZE (dir @ ''/'' @ log_name b)) = data_path dir (word_of_nat b)"
    "fst (snprintf MAX_DIR_SIZE (log_name b)) = log_name b"
proof -
  have "length (log_name b) \<le> 24" using length_print_jd [of "word_of_nat b"] by (simp add: log_name_def)
  then show "fst (snprintf MAX_DIR_SIZE (dir @ ''/'' @ log_name b)) = data_path dir (word_of_nat b)"
    "fst (snprintf MAX_DIR_SIZE (log_name b)) = log_name b"
    using assms by (simp_all add: snprintf_def MAX_DIR_SIZE_def data_path_def path_in_def log_name_def)
qed

lemma log_name_offset: "(word_of_int (strtoll10 (log_name b)) :: u64) = word_of_nat b"
  unfolding log_name_def by (rule strtoll10_print_jd) (simp add: is_digit_def)

lemma file_size_ok:
  assumes "outcomes s = []" "p \<notin> set (dirs s)" "files s p = Some f" "fsize f < 2 ^ 32"
  shows "file_size s p = (int (fsize f), s)"
proof -
  have "unat (word_of_nat (fsize f) :: u64) = fsize f" using assms(4) by (simp add: unat_of_nat)
  then have "ssize (word_of_nat (fsize f)) = int (fsize f)" using assms(4) ssize_of_small [of "word_of_nat (fsize f)"] by simp
  then show ?thesis using assms by (simp add: file_size_def sys_stat_def)
qed

definition outside :: "mqlog \<Rightarrow> nat \<Rightarrow> nat \<Rightarrow> string \<Rightarrow> bool" where
  "outside lg b c q \<longleftrightarrow> (\<forall>m. b \<le> m \<and> m < c \<longrightarrow>
     q \<noteq> data_path (lg_dir lg) (word_of_nat m) \<and> q \<noteq> index_path (lg_dir lg) (word_of_nat m))"

lemma outside_mono: "outside lg b c q \<Longrightarrow> b \<le> b' \<Longrightarrow> c' \<le> c \<Longrightarrow> lg_dir lg' = lg_dir lg \<Longrightarrow> outside lg' b' c' q"
  by (simp add: outside_def)

text \<open>One turn of the loop.\<close>

lemma load_one:
  assumes core: "log_core s lg xs" and sp: "stored_part s (lg_dir lg) (u32_of_size (lg_size lg)) (word_of_nat (length (contents xs))) ps"
    and len: "length (contents xs) + length ps < 2 ^ 64" and sl: "last (lg_dir lg) \<noteq> CHR ''/''"
  obtains s' lg' where "load_loop s lg (log_name (length (contents xs)) # names) = load_loop s' lg' names"
    "log_core s' lg' (xs @ [(lg_next lg, ps)])" "same_log lg lg'" "page_size s' = page_size s" "map_base s' = map_base s"
    "\<And>q. outside lg (length (contents xs)) (Suc (length (contents xs))) q \<Longrightarrow> files s' q = files s q"
proof -
  let ?n = "length (contents xs)" and ?sz = "u32_of_size (lg_size lg)" and ?d = "lg_dir lg"
  let ?w = "word_of_nat ?n :: u64"
  have env: "log_env s lg" using core by (simp add: log_core_def)
  note E = env [unfolded log_env_def]
  have ne: "ps \<noteq> []" using sp by (simp add: stored_part_def)
  obtain fd where fd: "files s (data_path ?d ?w) = Some fd" "fsize fd = unat ?sz"
    using sp by (auto simp: stored_part_def split: option.splits)
  have fsz: "file_size s (data_path ?d ?w) = (int (unat ?sz), s)"
    using file_size_ok [of s "data_path ?d ?w" fd] E fd unsigned_less [of ?sz, where ?'a = nat] by simp
  from open_stored_part [OF log_env_ok(1) [OF env] sp, of "lg_flags lg"] obtain s' g where
    o: "segment_open s ?d ?w ?sz (lg_flags lg) = Some (s', 0, Some g)" "seg_held s' ?d g ps"
      "sg_base_offset g = ?w" "sg_size g = ?sz" "sg_flags g = lg_flags lg" "page_size s' = page_size s" "map_base s' = map_base s"
      "outcomes s' = []" "dirs s' = dirs (ensured s ?d)"
      "\<forall>q. q \<notin> {data_path ?d ?w, index_path ?d ?w} \<longrightarrow> files s' q = files s q" by blast
  have env': "log_env s' lg" using env o by (simp add: log_env_def ensured_def)
  have fl: "sg_flags g AND SGM_RDCMT = lg_flags lg AND MQLOG_RDCMT" by (simp add: o(5) SGM_RDCMT_def MQLOG_RDCMT_def)
  from enter_part [OF core ne len o(3,4) fl o(2) env' o(6)] o(10) obtain lg' where
    e: "append_index (lg\<lparr>lg_sgms := (lg_sgms lg)(lg_next lg \<mapsto> g), lg_next := Suc (lg_next lg)\<rparr>) ?w (lg_next lg) = Some (lg', 0)"
      "log_core s' lg' (xs @ [(lg_next lg, ps)])" "same_log lg lg'" by blast
  have "(word_of_int (int (unat ?sz)) :: u32) = ?sz" by simp
  moreover have "is_log (log_name ?n)" by (simp add: is_log_def log_name_def suffix_def)
  ultimately have "load_loop s lg (log_name ?n # names) = load_loop s' lg' names"
    using fsz o(1) e(1) log_name_path [OF sl, of ?n] E
    by (simp add: has_suffix_iff is_log_def log_name_offset open_segment_def alloc_segment_def ELIDXPC_def del: of_nat_unat)
  then show ?thesis using that e(2,3) o(6,7,10) by (auto simp: outside_def)
qed

lemma load_loop_ok:
  assumes "log_core s lg xs" "stored s (lg_dir lg) (u32_of_size (lg_size lg)) (length (contents xs)) pss"
    "length (contents xs) + length (concat pss) < 2 ^ 64" "last (lg_dir lg) \<noteq> CHR ''/''"
  shows "\<exists>s' lg' ys. load_loop s lg (map log_name (starts (length (contents xs)) pss)) = Some (s', lg', 0) \<and>
    log_core s' lg' (xs @ ys) \<and> map snd ys = pss \<and> same_log lg lg' \<and> page_size s' = page_size s \<and> map_base s' = map_base s \<and>
    (\<forall>q. outside lg (length (contents xs)) (length (contents xs) + length (concat pss)) q \<longrightarrow> files s' q = files s q)"
  using assms
proof (induction pss arbitrary: s lg xs)
  case Nil
  then show ?case by (intro exI [of _ s] exI [of _ lg] exI [of _ "[]"]) (simp add: same_log_def)
next
  case (Cons ps pss)
  let ?n = "length (contents xs)"
  have sp: "stored_part s (lg_dir lg) (u32_of_size (lg_size lg)) (word_of_nat ?n) ps" and len: "?n + length ps < 2 ^ 64"
    using Cons.prems by simp_all
  then have ne: "ps \<noteq> []" by (simp add: stored_part_def)
  obtain s1 lg1 where 1: "load_loop s lg (log_name ?n # map log_name (starts (?n + length ps) pss)) =
      load_loop s1 lg1 (map log_name (starts (?n + length ps) pss))"
    "log_core s1 lg1 (xs @ [(lg_next lg, ps)])" "same_log lg lg1" "page_size s1 = page_size s" "map_base s1 = map_base s"
    "\<And>q. outside lg ?n (Suc ?n) q \<Longrightarrow> files s1 q = files s q"
    by (rule load_one [OF Cons.prems(1) sp len Cons.prems(4)]) blast
  have lg1: "lg_dir lg1 = lg_dir lg" "lg_size lg1 = lg_size lg" using 1(3) by (simp_all add: same_log_def)
  have "files s1 (data_path (lg_dir lg) (word_of_nat m)) = files s (data_path (lg_dir lg) (word_of_nat m)) \<and>
      files s1 (index_path (lg_dir lg) (word_of_nat m)) = files s (index_path (lg_dir lg) (word_of_nat m))"
    if "?n + length ps \<le> m" "m < ?n + length ps + length (concat pss)" for m
  proof -
    have "m \<noteq> ?n" "m < 2 ^ 64" using that ne Cons.prems(3) by (auto simp: neq_Nil_conv)
    then have "(word_of_nat m :: u64) \<noteq> word_of_nat ?n" using len by (simp add: word_of_nat_eq)
    then show ?thesis by (auto intro!: 1(6) simp: outside_def less_Suc_eq_le le_antisym)
  qed
  then have "same_range lg (?n + length ps) (?n + length ps + length (concat pss)) s s1"
    using 1(4) by (simp add: same_range_def)
  then have "stored s1 (lg_dir lg1) (u32_of_size (lg_size lg1)) (length (contents (xs @ [(lg_next lg, ps)]))) pss"
    using stored_frame [of s lg _ "?n + length ps" pss s1] Cons.prems(2) lg1 by simp
  from Cons.IH [OF 1(2) this] Cons.prems(3,4) lg1 obtain s' lg' ys where
    2: "load_loop s1 lg1 (map log_name (starts (?n + length ps) pss)) = Some (s', lg', 0)"
      "log_core s' lg' ((xs @ [(lg_next lg, ps)]) @ ys)" "map snd ys = pss" "same_log lg1 lg'" "page_size s' = page_size s1"
      "map_base s' = map_base s1"
      "\<forall>q. outside lg1 (?n + length ps) (?n + length ps + length (concat pss)) q \<longrightarrow> files s' q = files s1 q" by auto
  have "files s' q = files s q" if "outside lg ?n (?n + length (concat (ps # pss))) q" for q
  proof -
    have "Suc ?n \<le> ?n + length (concat (ps # pss))" using ne by (cases ps) simp_all
    then have "outside lg1 (?n + length ps) (?n + length ps + length (concat pss)) q" "outside lg ?n (Suc ?n) q"
      using that lg1 by (auto intro: outside_mono)
    then show ?thesis using 1(6) 2(7) by simp
  qed
  then show ?case using 1(1,3,4,5) 2(1-6)
    by (intro exI [of _ s'] exI [of _ lg'] exI [of _ "(lg_next lg, ps) # ys"]) (simp add: same_log_def)
qed


section \<open>Opening\<close>

text \<open>What the directory and the size of a log have to be like.\<close>

definition dir_env :: "os \<Rightarrow> string \<Rightarrow> u64 \<Rightarrow> bool" where
  "dir_env s dir sz \<longleftrightarrow> outcomes s = [] \<and> 0 < page_size s \<and> dir \<noteq> [] \<and> last dir \<noteq> CHR ''/'' \<and> length dir \<le> 230 \<and>
     (dir \<in> set (dirs s) \<or> files s dir = None) \<and> (\<forall>w. data_path dir w \<notin> set (dirs s) \<and> index_path dir w \<notin> set (dirs s)) \<and>
     sz mod page_size s = 0 \<and> 96 \<le> unat sz \<and> unat sz < 2 ^ 32"

text \<open>The segment files of the directory, and the names that \<open>readdir\<close> delivers: the segments
  hold \<open>pss\<close>, and their names come in the order of their base offsets.\<close>

definition dir_holds :: "os \<Rightarrow> string \<Rightarrow> u64 \<Rightarrow> string list \<Rightarrow> bytes list list \<Rightarrow> bool" where
  "dir_holds s dir sz names pss \<longleftrightarrow> stored s dir (u32_of_size sz) 0 pss \<and> length (concat pss) < 2 ^ 64 \<and>
     (\<forall>m. length (concat pss) \<le> m \<and> m < 2 ^ 64 \<longrightarrow>
        files s (data_path dir (word_of_nat m)) = None \<and> files s (index_path dir (word_of_nat m)) = None) \<and>
     filter is_log names = map log_name (starts 0 pss)"

lemma paths_not_dir: "data_path dir w \<noteq> dir" "index_path dir w \<noteq> dir"
  by (simp_all add: data_path_def index_path_def path_in_def)

lemma open_ok:
  assumes env: "dir_env s dir sz" and hold: "dir_holds s dir sz names pss"
  shows "\<exists>s' lg xs. mqlog_open s names [] dir sz flags = Some (s', 0, Some lg) \<and> log_ok s' lg xs \<and> map snd xs = pss \<and>
    lg_dir lg = dir \<and> lg_size lg = sz \<and> lg_flags lg = flags \<and> page_size s' = page_size s \<and> map_base s' = map_base s"
proof -
  note E = env [unfolded dir_env_def] and H = hold [unfolded dir_holds_def]
  obtain t where t: "mbptree_init [] BRANCH_FACTOR = Some (Some t)" "index_rep t []"
    using init_rep [of BRANCH_FACTOR] by (auto simp: BRANCH_FACTOR_def)
  let ?s = "ensured s dir"
  define lg where "lg = \<lparr>lg_size = sz, lg_flags = flags, lg_dir = dir, lg_index = Some t, lg_lock = False,
    lg_sgms = Map.empty, lg_next = 1\<rparr>"
  have "log_env ?s lg" using E paths_not_dir by (auto simp: log_env_def lg_def ensured_def)
  then have core: "log_core ?s lg []" using t(2) by (simp add: log_core_def lg_def)
  have "stored ?s dir (u32_of_size sz) 0 pss" using stored_frame [of s lg _ 0 pss ?s] H by (simp add: lg_def same_range_def)
  from load_loop_ok [OF core, of pss] this H E obtain s' lg' xs where
    l: "load_loop ?s lg (map log_name (starts 0 pss)) = Some (s', lg', 0)" "log_core s' lg' xs" "map snd xs = pss"
      "same_log lg lg'" "page_size s' = page_size s" "map_base s' = map_base s"
      "\<forall>q. outside lg 0 (length (concat pss)) q \<longrightarrow> files s' q = files s q"
    by (auto simp: lg_def)
  have "dir \<in> set (dirs ?s)" using E by (auto simp: ensured_def)
  then have "load_segments ?s lg names = Some (s', lg', 0)"
    using E l(1) H load_loop_filter [of ?s lg names] by (simp add: load_segments_def lg_def)
  moreover have "fst (snprintf MAX_DIR_SIZE dir) = dir" using E by (simp add: snprintf_def MAX_DIR_SIZE_def)
  ultimately have run: "mqlog_open s names [] dir sz flags = Some (s', 0, Some lg')"
    using E t(1) by (simp add: mqlog_open_def pagesize_def ensure_directory_ok lg_def)
  have lg': "lg_dir lg' = dir" "lg_size lg' = sz" "lg_flags lg' = flags" "\<not> lg_lock lg'"
    using l(4) by (simp_all add: same_log_def lg_def)
  have n: "length (contents xs) = length (concat pss)" using l(3) by (simp add: contents_def)
  have "no_files s' lg' (length (contents xs))" unfolding no_files_def n lg'(1)
  proof (intro allI impI)
    fix m assume m: "length (concat pss) \<le> m \<and> m < 2 ^ 64"
    then have "outside lg 0 (length (concat pss)) (data_path dir (word_of_nat m))"
      "outside lg 0 (length (concat pss)) (index_path dir (word_of_nat m))"
      using H by (auto simp: outside_def lg_def word_of_nat_eq)
    then show "files s' (data_path dir (word_of_nat m)) = None \<and> files s' (index_path dir (word_of_nat m)) = None"
      using l(7) H m by simp
  qed
  then have "log_ok s' lg' xs" using l(2) lg'(4) by (simp add: log_ok_def log_rep_def)
  then show ?thesis using run l(3,5,6) lg' by blast
qed

section \<open>Closing\<close>

text \<open>The segments that a closed log leaves behind.\<close>

fun kept :: "os \<Rightarrow> string \<Rightarrow> u32 \<Rightarrow> nat \<Rightarrow> bytes list list \<Rightarrow> bool" where
  "kept s dir sz b [] = True"
| "kept s dir sz b (ps # pss) \<longleftrightarrow>
     (\<exists>g. seg_held s dir g ps \<and> sg_base_offset g = word_of_nat b \<and> sg_size g = sz \<and> ps \<noteq> []) \<and>
     kept s dir sz (b + length ps) pss"

lemma kept_stored:
  "kept s dir sz b pss \<Longrightarrow> \<forall>ps \<in> set pss. 8 * length ps + 8 \<le> index_len sz \<Longrightarrow> stored s dir sz b pss"
proof (induction pss arbitrary: b)
  case (Cons ps pss)
  then obtain g where "seg_held s dir g ps" "sg_base_offset g = word_of_nat b" "sg_size g = sz" "ps \<noteq> []" by auto
  with held_stored_part [of s dir g ps] Cons show ?case by simp
qed simp

lemma length_log_entries: "length (log_entries b xs) = length xs"
  by (induction b xs rule: log_entries.induct) simp_all

text \<open>What closing the segments of \<open>ys\<close>, the first of them at the offset \<open>b\<close>, leaves behind.\<close>

definition closed_parts :: "os \<Rightarrow> mqlog \<Rightarrow> nat \<Rightarrow> parts \<Rightarrow> os \<Rightarrow> mqlog \<Rightarrow> bool" where
  "closed_parts s lg b ys s' lg' \<longleftrightarrow>
     kept s' (lg_dir lg) (u32_of_size (lg_size lg)) b (map snd ys) \<and>
     (\<forall>a. lg_sgms lg' a = (if a \<in> fst ` set ys then None else lg_sgms lg a)) \<and>
     outcomes s' = [] \<and> page_size s' = page_size s \<and> map_base s' = map_base s \<and> dirs s' = dirs s \<and>
     (\<forall>q. outside lg b (b + length (contents ys)) q \<longrightarrow> files s' q = files s q)"

lemma closed_parts_Cons:
  assumes held: "seg_held s1 (lg_dir lg) g ps" "sg_base_offset g = word_of_nat b" "sg_size g = u32_of_size (lg_size lg)" "ps \<noteq> []"
    and same: "page_size s1 = page_size s" "map_base s1 = map_base s" "dirs s1 = dirs s"
    and fs: "\<And>q. q \<notin> {data_path (lg_dir lg) (word_of_nat b), index_path (lg_dir lg) (word_of_nat b)} \<Longrightarrow> files s1 q = files s q"
    and rest: "closed_parts s1 (lg\<lparr>lg_sgms := (lg_sgms lg)(a := None)\<rparr>) (b + length ps) ys s' lg'"
    and len: "b + length ps + length (contents ys) < 2 ^ 64"
  shows "closed_parts s lg b ((a, ps) # ys) s' lg'"
proof -
  let ?d = "data_path (lg_dir lg) (word_of_nat b)" and ?x = "index_path (lg_dir lg) (word_of_nat b)"
  let ?out = "outside lg (b + length ps) (b + length ps + length (contents ys))"
  have R: "page_size s' = page_size s1" "?out q \<Longrightarrow> files s' q = files s1 q" for q
    using rest by (simp_all add: closed_parts_def outside_def)
  have "?out ?d" "?out ?x" using len held(4) by (auto simp: outside_def word_of_nat_eq)
  then have "seg_held s' (lg_dir lg) g ps"
    using R seg_heldD(5,6) [OF held(1)] held(2) by (subst seg_held_cong [where s = s1]) (simp_all add: held(1))
  moreover have "files s' q = files s q" if "outside lg b (b + length (contents ((a, ps) # ys))) q" for q
  proof -
    have "?out q" using that by (auto intro: outside_mono)
    moreover have "q \<notin> {?d, ?x}" using that held(4) by (auto simp: outside_def)
    ultimately show ?thesis using R(2) fs by simp
  qed
  ultimately show ?thesis using rest held(2-4) same by (auto simp: closed_parts_def)
qed

text \<open>One turn of the loop.\<close>

lemma close_one:
  assumes p: "parts_ok s lg b ((a, ps) # ys)" and a: "a \<notin> fst ` set ys" and out: "outcomes s = []"
    and mp: "\<And>p. mapping_ok s k p" and sz: "unat (u32_of_size (lg_size lg)) < 2 ^ 31"
    and len: "b + length ps + length (contents ys) < 2 ^ 64"
  defines "lg1 \<equiv> lg\<lparr>lg_sgms := (lg_sgms lg)(a := None)\<rparr>"
  obtains s1 where "close_segment s lg a = Some (s1, lg1, 0)" "parts_ok s1 lg1 (b + length ps) ys" "outcomes s1 = []"
    "\<And>p. mapping_ok s1 k p"
    "\<And>s' lg'. closed_parts s1 lg1 (b + length ps) ys s' lg' \<Longrightarrow> closed_parts s lg b ((a, ps) # ys) s' lg'"
proof -
  from p obtain g where g: "lg_sgms lg a = Some g" "sg_base_offset g = word_of_nat b"
    "sg_size g = u32_of_size (lg_size lg)" "seg_held s (lg_dir lg) g ps" "ps \<noteq> []" by (auto elim!: part_okE)
  have "unat (sg_size g) < 2 ^ 31" using sz g(3) by simp
  from held_close [OF g(4) out mp mp this] obtain s1 g1 where
    c: "segment_close s g = (s1, None, 0)" "seg_held s1 (lg_dir lg) g1 ps" "g1 = g\<lparr>sg_s := sg_s g1\<rparr>" "outcomes s1 = []"
      "same_bytes s s1" "\<forall>q. q \<notin> {sg_buffer g, sg_index g} \<longrightarrow> files s1 q = files s q" by blast
  have sb: "page_size s1 = page_size s" "map_base s1 = map_base s" "dirs s1 = dirs s" using c(5) by (simp_all add: same_bytes_def)
  have g1: "sg_base_offset g1 = word_of_nat b" "sg_size g1 = u32_of_size (lg_size lg)" by (subst c(3), simp add: g)+
  have fs: "files s1 q = files s q" if "q \<notin> {data_path (lg_dir lg) (word_of_nat b), index_path (lg_dir lg) (word_of_nat b)}" for q
    using c(6) that seg_heldD(5,6) [OF g(4)] g(2) by simp
  have sr: "same_range lg (b + length ps) (b + length ps + length (contents ys)) s s1"
    using fs sb(1) len g(5) by (intro same_range_one [where n = b]) auto
  have "parts_ok s lg (b + length ps) ys" using p by simp
  then have "parts_ok s1 lg1 (b + length ps) ys" unfolding lg1_def by (rule parts_ok_frame [OF _ sr]) (use a in auto)
  moreover have "close_segment s lg a = Some (s1, lg1, 0)" using g(1) c(1) by (simp add: close_segment_def lg1_def)
  moreover have "mapping_ok s1 k p" for p using mp [of p] sb by (simp add: mapping_ok_def)
  moreover have "closed_parts s lg b ((a, ps) # ys) s' lg'" if "closed_parts s1 lg1 (b + length ps) ys s' lg'" for s' lg'
    using closed_parts_Cons [OF c(2) g1 g(5) sb fs that [unfolded lg1_def] len] by simp
  ultimately show ?thesis using c(4) by (intro that)
qed

lemma close_loop:
  assumes inv: "tree_inv t ls Gs"
    and "entries ls = log_entries 0 (xs @ ys)" "iter_at ls it (length xs)" "parts_ok s lg (length (contents xs)) ys"
      "distinct (map fst ys)" "outcomes s = []" "\<And>p. mapping_ok s k p" "unat (u32_of_size (lg_size lg)) < 2 ^ 31"
      "length (contents (xs @ ys)) < 2 ^ 64"
  shows "\<exists>s' lg'. close_segments s lg t it n = Some (s', lg', n) \<and> closed_parts s lg (length (contents xs)) ys s' lg'"
  using assms(2-)
proof (induction ys arbitrary: xs it s lg)
  case Nil
  have "length xs = length (entries ls)" using Nil.prems(1) by (simp add: length_log_entries)
  then have "mbptree_leaf_iterator_valid t it = Some False" using iter_valid [OF inv Nil.prems(2)] by simp
  then show ?case using Nil.prems(5) by (subst close_segments.simps) (simp add: closed_parts_def)
next
  case (Cons y ys)
  obtain a ps where y: "y = (a, ps)" by (cases y)
  let ?b = "length (contents xs)" and ?lg = "lg\<lparr>lg_sgms := (lg_sgms lg)(a := None)\<rparr>"
  have lt: "length xs < length (entries ls)" and at: "entries ls ! length xs = (word_of_nat ?b, a)"
    using Cons.prems(1) y by (simp_all add: length_log_entries log_entries_append nth_append)
  from iter_next [OF inv Cons.prems(2) lt] obtain it' where
    it': "mbptree_leaf_iterator_next t it = Some it'" "iter_at ls it' (length (xs @ [y]))" by auto
  have len: "?b + length ps + length (contents ys) < 2 ^ 64" and a: "a \<notin> fst ` set ys" using Cons.prems(4,8) y by simp_all
  obtain s1 where c: "close_segment s lg a = Some (s1, ?lg, 0)" "parts_ok s1 ?lg (?b + length ps) ys" "outcomes s1 = []"
    "\<And>p. mapping_ok s1 k p"
    "\<And>s' lg'. closed_parts s1 ?lg (?b + length ps) ys s' lg' \<Longrightarrow> closed_parts s lg ?b ((a, ps) # ys) s' lg'"
    by (rule close_one [OF Cons.prems(3) [unfolded y] a Cons.prems(5-7) len]) blast
  have "parts_ok s1 ?lg (length (contents (xs @ [y]))) ys" using c(2) y by simp
  from Cons.IH [OF _ it'(2) this _ c(3,4)] Cons.prems(1,4,7,8) obtain s' lg' where
    R: "close_segments s1 ?lg t it' n = Some (s', lg', n)" "closed_parts s1 ?lg (length (contents (xs @ [y]))) ys s' lg'" by auto
  have "close_segments s lg t it n = Some (s', lg', n)"
    using iter_valid [OF inv Cons.prems(2)] iter_key_value(2) [OF inv Cons.prems(2) lt] it'(1) c(1) lt at R(1)
    by (subst close_segments.simps) simp
  moreover have "closed_parts s lg ?b (y # ys) s' lg'" using c(5) R(2) y by simp
  ultimately show ?case by blast
qed


lemma first_iterator:
  assumes t: "index_rep t (log_entries 0 xs)" and p: "parts_ok s lg 0 xs" and len: "length (contents xs) < 2 ^ 64"
  obtains ls Gs it where "mbptree_leaf_first t = Some (t, 0, Some it)" "tree_inv t ls Gs" "entries ls = log_entries 0 xs" "iter_at ls it 0"
proof -
  from t obtain ls Gs where inv: "tree_inv t ls Gs" and es: "log_entries 0 xs = entries ls" by (auto simp: index_rep_def tree_rep_def)
  note U = unlocked_index [OF t]
  from leaf_floor_inv [OF inv U(2,3), of 0, folded es] obtain it where
    fl: "mbptree_leaf_floor t 0 = Some (t, 0, Some it)"
    and it: "if not_above 0 (log_entries 0 xs) = 0 then it = iter_null t else iter_at ls it (not_above 0 (log_entries 0 xs) - 1)" by blast
  have "iter_at ls it 0"
  proof (cases xs)
    case Nil
    then show ?thesis using it es by (simp add: not_above_def iter_at_def iter_null_def)
  next
    case (Cons x ys)
    obtain a ps where x: "x = (a, ps)" by (cases x)
    have "not_above 0 (log_entries (length ps) ys) = 0"
    proof (cases ys)
      case (Cons y zs)
      have "ps \<noteq> []" using p x \<open>xs = x # ys\<close> by (auto elim: part_okE)
      moreover have "length ps < 2 ^ 64" using len x \<open>xs = x # ys\<close> by simp
      ultimately have "(word_of_nat (length ps) :: u64) \<noteq> 0" using word_of_nat_eq [of "length ps" 0] by simp
      then show ?thesis using Cons by (cases y) (simp add: not_above_def)
    qed (simp add: not_above_def)
    then show ?thesis using it Cons x by (simp add: not_above_def)
  qed
  then show ?thesis using that [OF _ inv es [symmetric]] fl by (simp add: mbptree_leaf_first_def)
qed

lemma close_ok:
  assumes rep: "log_rep s lg xs" and mp: "\<And>p. mapping_ok s k p" and sm: "unat (lg_size lg) < 2 ^ 31"
  shows "\<exists>s' lg'. mqlog_close s lg = Some (s', lg', 0) \<and>
    kept s' (lg_dir lg) (u32_of_size (lg_size lg)) 0 (map snd xs) \<and> (\<forall>a \<in> fst ` set xs. lg_sgms lg' a = None) \<and>
    (\<exists>t. lg_index lg' = Some t \<and> (\<forall>a. nodes t a = None)) \<and> outcomes s' = [] \<and> page_size s' = page_size s \<and> map_base s' = map_base s \<and> dirs s' = dirs s \<and>
    (\<forall>q. outside lg 0 (length (contents xs)) q \<longrightarrow> files s' q = files s q)"
proof -
  from rep obtain t where t: "lg_index lg = Some t" "index_rep t (log_entries 0 xs)" and env: "log_env s lg"
    and p: "parts_ok s lg 0 xs" and d: "distinct (map fst xs)" and len: "length (contents xs) < 2 ^ 64"
    by (auto simp: log_rep_def log_core_def)
  have sz: "unat (u32_of_size (lg_size lg)) < 2 ^ 31" using log_env_ok(2) [OF env] sm by simp
  have out: "outcomes s = []" using env by (simp add: log_env_def)
  obtain ls Gs it where it: "mbptree_leaf_first t = Some (t, 0, Some it)" "tree_inv t ls Gs" "entries ls = log_entries 0 xs" "iter_at ls it 0"
    by (rule first_iterator [OF t(2) p len])
  from close_loop [OF it(2), of "[]" xs it s lg k 0] it(3,4) p d out mp sz len obtain s' lg' where
    c: "close_segments s lg t it 0 = Some (s', lg', 0)"
      "kept s' (lg_dir lg) (u32_of_size (lg_size lg)) 0 (map snd xs)" "\<forall>a \<in> fst ` set xs. lg_sgms lg' a = None"
      "outcomes s' = []" "page_size s' = page_size s" "map_base s' = map_base s" "dirs s' = dirs s"
      "\<forall>q. outside lg 0 (length (contents xs)) q \<longrightarrow> files s' q = files s q" by (auto simp: closed_parts_def)
  obtain t' where f: "mbptree_free t = Some (t', 0)" "\<forall>a. nodes t' a = None"
    using free_rep [OF unlocked_index(1) [OF t(2)]] by simp
  then have "mqlog_close s lg = Some (s', lg'\<lparr>lg_index := Some t'\<rparr>, 0)"
    using t(1) it(1) c(1) by (simp add: mqlog_close_def)
  then show ?thesis using c f(2) by auto
qed

lemma reopen_env:
  assumes env: "log_env s lg" and sl: "last (lg_dir lg) \<noteq> CHR ''/''"
    and s': "outcomes s' = []" "page_size s' = page_size s" "lg_dir lg \<in> set (dirs s')" "set (dirs s') \<subseteq> set (dirs s)"
  shows "dir_env s' (lg_dir lg) (lg_size lg)"
  using assms by (auto simp: log_env_def dir_env_def)

end
