(* ===== verification/Mqlog_Listing.thy ===== *)
theory Mqlog_Listing
  imports Mqlog_Open "HOL-Library.Multiset"
begin

text \<open>
  Opening a directory that lists its segments in any order (\<^verbatim>\<open>load_segments\<close> in \<^verbatim>\<open>src/src/mqlog.c\<close>).
  The loop enters the segments into the index in the order of the names, and an index refuses a
  key that is not above the last one; a segment whose index file has no free entry cannot be
  opened. So the log is restored exactly when the names come in the order of the base offsets and every
  segment has a free index entry, and in every other case the opening ends with \<open>ELLDSGM\<close>.
\<close>

section \<open>Segments without a free index entry\<close>

definition has_room :: "u32 \<Rightarrow> bytes list \<Rightarrow> bool" where
  "has_room sz ps \<longleftrightarrow> 8 * length ps + 8 \<le> index_len sz"

definition full_part :: "os \<Rightarrow> string \<Rightarrow> u32 \<Rightarrow> u64 \<Rightarrow> bytes list \<Rightarrow> bool" where
  "full_part s dir sz w ps \<longleftrightarrow> ps \<noteq> [] \<and> length (frames ps) + 12 \<le> unat sz \<and>
     (case (files s (data_path dir w), files s (index_path dir w)) of
        (Some fd, Some fi) \<Rightarrow> fsize fd = unat sz \<and> unat sz \<le> length (fbytes fd) \<and> fsize fi = index_len sz \<and>
          index_len sz \<le> length (fbytes fi) \<and> take (length (frames ps)) (fbytes fd) = frames ps \<and>
          take (index_len sz div 8 * 8) (fbytes fi) = take (index_len sz div 8 * 8) (index_bytes ps)
      | _ \<Rightarrow> False)"

text \<open>A segment as its files hold it.\<close>

definition laid :: "os \<Rightarrow> string \<Rightarrow> u32 \<Rightarrow> u64 \<Rightarrow> bytes list \<Rightarrow> bool" where
  "laid s dir sz w ps \<longleftrightarrow> (if has_room sz ps then stored_part s dir sz w ps else full_part s dir sz w ps)"

lemma laid_cong:
  assumes "files s' (data_path dir w) = files s (data_path dir w)" "files s' (index_path dir w) = files s (index_path dir w)"
    "page_size s' = page_size s"
  shows "laid s' dir sz w ps = laid s dir sz w ps"
  using stored_part_cong [OF assms] assms by (simp add: laid_def full_part_def)

lemma full_prefix:
  assumes "\<not> has_room sz ps" "take (8 * length ps) bs = index_bytes ps"
  shows "take (index_len sz div 8 * 8) bs = take (index_len sz div 8 * 8) (index_bytes ps)" "index_len sz div 8 \<le> length ps"
proof -
  show "index_len sz div 8 \<le> length ps" using assms(1) by (simp add: has_room_def)
  then have "index_len sz div 8 * 8 \<le> 8 * length ps" by simp
  then show "take (index_len sz div 8 * 8) bs = take (index_len sz div 8 * 8) (index_bytes ps)"
    by (simp only: assms(2) [symmetric] take_take min_absorb1)
qed

lemma open_full_part:
  assumes "env_ok s dir w sz" "full_part s dir sz w ps" "\<not> has_room sz ps"
  shows "\<exists>s'. segment_open s dir w sz fl = Some (s', ELWOFFS, None)"
proof -
  have "index_len sz div 8 \<le> length ps" using assms(3) by (simp add: has_room_def)
  then show ?thesis using assms(2) segment_open_index_full [OF assms(1)]
    by (auto simp: full_part_def split: option.splits)
qed

lemma held_laid:
  assumes held: "seg_held s dir g ps" and ne: "ps \<noteq> []"
  shows "laid s dir (sg_size g) (sg_base_offset g) ps"
proof (cases "has_room (sg_size g) ps")
  case True
  then show ?thesis using held_stored_part [OF held ne] by (simp add: laid_def has_room_def)
next
  case False
  note H = seg_heldD [OF held]
  from H(3) obtain fd fi where f: "files s (data_path dir (sg_base_offset g)) = Some fd" "files s (index_path dir (sg_base_offset g)) = Some fi"
      "sg_buffer g = data_path dir (sg_base_offset g)" "sg_index g = index_path dir (sg_base_offset g)"
      "fsize fd = unat (sg_size g)" "fsize fi = index_len (sg_size g)" "fsize fi \<le> length (fbytes fi)"
    by (rule seg_backedE)
  from H(1) f have fr: "length (fbytes fd) = unat (sg_size g)" "take (length (frames ps)) (fbytes fd) = frames ps"
      "length (frames ps) + 12 \<le> unat (sg_size g)" "take (8 * length ps) (fbytes fi) = index_bytes ps"
    by (auto elim!: seg_layoutE)
  show ?thesis using f fr ne False full_prefix(1) [OF False fr(4)] by (simp add: laid_def full_part_def)
qed

section \<open>Closing after a failed load\<close>

text \<open>A log whose index enters only segments that are there, in whatever state they are.\<close>

definition loading :: "mqlog \<Rightarrow> entry list \<Rightarrow> bool" where
  "loading lg es \<longleftrightarrow> (\<exists>t. lg_index lg = Some t \<and> index_rep t es) \<and> distinct (map snd es) \<and>
     (\<forall>a \<in> snd ` set es. a < lg_next lg \<and> lg_sgms lg a \<noteq> None)"

lemma close_any:
  assumes inv: "tree_inv t ls Gs"
    and "iter_at ls it p" "distinct (map snd (drop p (entries ls)))" "p \<le> length (entries ls)"
      "\<forall>a \<in> snd ` set (drop p (entries ls)). lg_sgms lg a \<noteq> None"
  shows "\<exists>s' lg' n'. close_segments s lg t it n = Some (s', lg', n')"
  using assms(2-)
proof (induction "length (entries ls) - p" arbitrary: p it s lg n)
  case 0
  then have "mbptree_leaf_iterator_valid t it = Some False" using iter_valid [OF inv 0(2)] by simp
  then show ?case by (subst close_segments.simps) simp
next
  case (Suc k)
  have lt: "p < length (entries ls)" using Suc(2) by simp
  let ?a = "snd (entries ls ! p)"
  have dr: "drop p (entries ls) = (entries ls ! p) # drop (Suc p) (entries ls)" using lt by (rule Cons_nth_drop_Suc [symmetric])
  from iter_next [OF inv Suc(3) lt] obtain it' where
    it': "mbptree_leaf_iterator_next t it = Some it'" "iter_at ls it' (Suc p)" by blast
  from Suc(6) dr obtain g where g: "lg_sgms lg ?a = Some g" by auto
  obtain s1 x rc where c: "segment_close s g = (s1, x, rc)" by (metis prod.exhaust)
  let ?lg = "lg\<lparr>lg_sgms := (lg_sgms lg)(?a := x)\<rparr>" and ?n = "if rc \<noteq> 0 then Suc n else n"
  have d: "?a \<notin> snd ` set (drop (Suc p) (entries ls))" "distinct (map snd (drop (Suc p) (entries ls)))"
    and rest: "\<forall>a \<in> snd ` set (drop (Suc p) (entries ls)). lg_sgms lg a \<noteq> None" using Suc(4,6) by (simp_all add: dr)
  have "\<forall>a \<in> snd ` set (drop (Suc p) (entries ls)). lg_sgms ?lg a \<noteq> None"
  proof
    fix a assume a: "a \<in> snd ` set (drop (Suc p) (entries ls))"
    with d(1) have "a \<noteq> ?a" by metis
    then show "lg_sgms ?lg a \<noteq> None" using a rest by auto
  qed
  moreover have "k = length (entries ls) - Suc p" using Suc(2) by simp
  ultimately obtain s' lg' n' where
    "close_segments s1 ?lg t it' ?n = Some (s', lg', n')" using Suc(1) [OF _ it'(2) d(2), of ?lg s1 ?n] lt by auto
  then have "close_segments s lg t it n = Some (s', lg', n')"
    using iter_valid [OF inv Suc(3)] iter_key_value(2) [OF inv Suc(3) lt] it'(1) c g lt
    by (subst close_segments.simps) (simp add: close_segment_def)
  then show ?case by blast
qed

lemma close_loading:
  assumes "loading lg es"
  shows "\<exists>s' lg' rc. mqlog_close s lg = Some (s', lg', rc)"
proof -
  from assms obtain t where t: "lg_index lg = Some t" "index_rep t es" and d: "distinct (map snd es)"
    and sg: "\<forall>a \<in> snd ` set es. lg_sgms lg a \<noteq> None" by (auto simp: loading_def)
  from t(2) obtain ls Gs where inv: "tree_inv t ls Gs" and es: "es = entries ls" by (auto simp: index_rep_def tree_rep_def)
  note U = unlocked_index [OF t(2)]
  from leaf_floor_inv [OF inv U(2,3), of 0, folded es] obtain it where
    fl: "mbptree_leaf_floor t 0 = Some (t, 0, Some it)"
    and it: "if not_above 0 es = 0 then it = iter_null t else iter_at ls it (not_above 0 es - 1)" by blast
  obtain p where p: "iter_at ls it p" "p \<le> length (entries ls)"
  proof (cases "not_above 0 es = 0")
    case True
    then have "iter_at ls it (length (entries ls))" using it by (simp add: iter_at_def iter_null_def)
    then show ?thesis using that by simp
  next
    case False
    moreover have "not_above 0 es \<le> length (entries ls)" by (simp add: not_above_def es length_takeWhile_le)
    ultimately show ?thesis using that [of "not_above 0 es - 1"] it by simp
  qed
  have "set (drop p (entries ls)) \<subseteq> set es" unfolding es by (rule set_drop_subset)
  moreover have "distinct (map snd (drop p (entries ls)))" using d es by (simp add: drop_map [symmetric])
  ultimately obtain s1 lg1 n where c: "close_segments s lg t it 0 = Some (s1, lg1, n)"
    using close_any [OF inv p(1) _ p(2), of lg s 0] sg by blast
  have "mbptree_free t = Some (t\<lparr>nodes := Map.empty\<rparr>, 0)" by (rule free_rep [OF U(1)])
  then show ?thesis using t(1) fl c by (simp add: mqlog_close_def mbptree_leaf_first_def)
qed

section \<open>Loading in any order\<close>

text \<open>One turn of the loop, up to the entry into the index.\<close>

lemma load_turn:
  assumes env: "log_env s lg" and sl: "last (lg_dir lg) \<noteq> CHR ''/''"
    and fd: "files s (data_path (lg_dir lg) (word_of_nat m)) = Some fd" "fsize fd = unat (u32_of_size (lg_size lg))"
  shows "load_loop s lg (log_name m # names) = do {
    (s, lg, rc, sgm) \<leftarrow> open_segment s lg (word_of_nat m) (u32_of_size (lg_size lg)) (lg_flags lg);
    if rc \<noteq> 0 then Some (s, lg, ELLDSGM) else do {
      (lg, rc) \<leftarrow> append_index lg (word_of_nat m) sgm;
      if rc = ELIDXPC then do { (s, lg, _) \<leftarrow> close_segment s lg sgm; Some (s, lg, rc) }
      else if rc \<noteq> 0 then do { (s, lg, _) \<leftarrow> close_segment s lg sgm; Some (s, lg, ELLDSGM) }
      else load_loop s lg names } }"
proof -
  let ?sz = "u32_of_size (lg_size lg)"
  note E = env [unfolded log_env_def]
  have "file_size s (data_path (lg_dir lg) (word_of_nat m)) = (int (unat ?sz), s)"
    using file_size_ok [of s _ fd] E fd unsigned_less [of ?sz, where ?'a = nat] by simp
  moreover have "(word_of_int (int (unat ?sz)) :: u32) = ?sz" by simp
  moreover have "is_log (log_name m)" by (simp add: is_log_def log_name_def suffix_def)
  ultimately show ?thesis using log_name_path [OF sl, of m] E
    by (simp add: has_suffix_iff is_log_def log_name_offset Let_def del: of_nat_unat cong: if_cong)
qed

lemma laid_file:
  assumes "laid s dir sz w ps"
  obtains fd where "files s (data_path dir w) = Some fd" "fsize fd = unat sz"
  using assms by (auto simp: laid_def stored_part_def full_part_def split: option.splits if_splits)

text \<open>The turns that end the loop: the index file of the segment is full, or its base offset is not above the last one.\<close>

lemma load_full:
  assumes env: "log_env s lg" and sl: "last (lg_dir lg) \<noteq> CHR ''/''"
    and la: "laid s (lg_dir lg) (u32_of_size (lg_size lg)) (word_of_nat m) ps" and full: "\<not> has_room (u32_of_size (lg_size lg)) ps"
  shows "\<exists>s'. load_loop s lg (log_name m # names) = Some (s', lg, ELLDSGM)"
proof -
  obtain fd where fd: "files s (data_path (lg_dir lg) (word_of_nat m)) = Some fd" "fsize fd = unat (u32_of_size (lg_size lg))"
    by (rule laid_file [OF la])
  obtain s' where "segment_open s (lg_dir lg) (word_of_nat m) (u32_of_size (lg_size lg)) (lg_flags lg) = Some (s', ELWOFFS, None)"
    using open_full_part [OF log_env_ok(1) [OF env] _ full, of "word_of_nat m" "lg_flags lg"] la full by (auto simp: laid_def)
  then show ?thesis using load_turn [OF env sl fd] by (simp add: open_segment_def ELWOFFS_def)
qed

lemma load_low:
  assumes env: "log_env s lg" and ld: "loading lg es" and sl: "last (lg_dir lg) \<noteq> CHR ''/''"
    and fd: "files s (data_path (lg_dir lg) (word_of_nat m)) = Some fd" "fsize fd = unat (u32_of_size (lg_size lg))"
    and o: "segment_open s (lg_dir lg) (word_of_nat m) (u32_of_size (lg_size lg)) (lg_flags lg) = Some (s1, 0, Some g)"
    and low: "\<not> key_above es (word_of_nat m)"
  shows "\<exists>s' lg'. load_loop s lg (log_name m # names) = Some (s', lg', ELLDSGM) \<and> loading lg' es"
proof -
  let ?lg = "lg\<lparr>lg_sgms := (lg_sgms lg)(lg_next lg \<mapsto> g), lg_next := Suc (lg_next lg)\<rparr>"
  from ld obtain t where t: "lg_index lg = Some t" "index_rep t es" and L: "distinct (map snd es)"
    "\<forall>a \<in> snd ` set es. a < lg_next lg \<and> lg_sgms lg a \<noteq> None" by (auto simp: loading_def)
  from ix.add_low [OF t(2) low, of "lg_next lg"] have "append_index ?lg (word_of_nat m) (lg_next lg) = Some (?lg, ELIDXNM)"
    using t(1) by (simp add: append_index_def)
  moreover obtain s2 x rc where "segment_close s1 g = (s2, x, rc)" by (metis prod.exhaust)
  ultimately have "load_loop s lg (log_name m # names) = Some (s2, ?lg\<lparr>lg_sgms := (lg_sgms ?lg)(lg_next lg := x)\<rparr>, ELLDSGM)"
    using load_turn [OF env sl fd] o
    by (simp add: open_segment_def alloc_segment_def close_segment_def ELIDXNM_def ELIDXPC_def)
  moreover have "loading (?lg\<lparr>lg_sgms := (lg_sgms ?lg)(lg_next lg := x)\<rparr>) es" using t L by (fastforce simp: loading_def)
  ultimately show ?thesis by blast
qed

text \<open>The turn that goes on.\<close>

lemma load_high:
  assumes env: "log_env s lg" and ld: "loading lg es" and sl: "last (lg_dir lg) \<noteq> CHR ''/''"
    and fd: "files s (data_path (lg_dir lg) (word_of_nat m)) = Some fd" "fsize fd = unat (u32_of_size (lg_size lg))"
    and o: "segment_open s (lg_dir lg) (word_of_nat m) (u32_of_size (lg_size lg)) (lg_flags lg) = Some (s1, 0, Some g)"
    and above: "key_above es (word_of_nat m)"
  obtains lg' where "load_loop s lg (log_name m # names) = load_loop s1 lg' names" "loading lg' (es @ [(word_of_nat m, lg_next lg)])"
    "same_log lg lg'"
proof -
  let ?lg = "lg\<lparr>lg_sgms := (lg_sgms lg)(lg_next lg \<mapsto> g), lg_next := Suc (lg_next lg)\<rparr>"
  from ld obtain t where t: "lg_index lg = Some t" "index_rep t es" and L: "distinct (map snd es)"
    "\<forall>a \<in> snd ` set es. a < lg_next lg \<and> lg_sgms lg a \<noteq> None" by (auto simp: loading_def)
  from ix.add_above [OF t(2) above, of "lg_next lg"] obtain t' where
    t': "mbptree_append t (word_of_nat m) (lg_next lg) = Some (t', 0)" "index_rep t' (es @ [(word_of_nat m, lg_next lg)])" by blast
  let ?lg' = "?lg\<lparr>lg_index := Some t'\<rparr>"
  have "load_loop s lg (log_name m # names) = load_loop s1 ?lg' names"
    using load_turn [OF env sl fd] o t(1) t'(1) by (simp add: open_segment_def alloc_segment_def append_index_def ELIDXPC_def)
  moreover have "loading ?lg' (es @ [(word_of_nat m, lg_next lg)])" using t'(2) L by (fastforce simp: loading_def)
  ultimately show ?thesis by (rule that) (simp add: same_log_def)
qed

lemma load_any:
  assumes "log_env s lg" "loading lg es" "last (lg_dir lg) \<noteq> CHR ''/''" "distinct (map fst zs)"
    "\<forall>z \<in> set zs. fst z < 2 ^ 64 \<and> laid s (lg_dir lg) (u32_of_size (lg_size lg)) (word_of_nat (fst z)) (snd z)"
    "\<not> ((\<forall>z \<in> set zs. has_room (u32_of_size (lg_size lg)) (snd z)) \<and> sorted_wrt (<) (map fst es @ map (\<lambda>z. word_of_nat (fst z)) zs))"
  shows "\<exists>s' lg' es'. load_loop s lg (map (\<lambda>z. log_name (fst z)) zs) = Some (s', lg', ELLDSGM) \<and> loading lg' es'"
  using assms
proof (induction zs arbitrary: s lg es)
  case Nil
  from Nil(2) obtain t where "index_rep t es" by (auto simp: loading_def)
  from ix.rep_sorted [OF this] show ?case using Nil(6) by simp
next
  case (Cons z zs)
  obtain m ps where z: "z = (m, ps)" by (cases z)
  let ?sz = "u32_of_size (lg_size lg)" and ?w = "word_of_nat m :: u64" and ?d = "lg_dir lg"
  have la: "laid s ?d ?sz ?w ps" and m: "m < 2 ^ 64" using Cons(6) z by simp_all
  obtain fd where fd: "files s (data_path ?d ?w) = Some fd" "fsize fd = unat ?sz" by (rule laid_file [OF la])
  have names: "map (\<lambda>z. log_name (fst z)) (z # zs) = log_name m # map (\<lambda>z. log_name (fst z)) zs" using z by simp
  have "\<exists>s' lg' es'. load_loop s lg (log_name m # map (\<lambda>z. log_name (fst z)) zs) = Some (s', lg', ELLDSGM) \<and> loading lg' es'"
  proof (cases "has_room ?sz ps")
    case False
    then show ?thesis using load_full [OF Cons(2,4) la False] Cons(3) by blast
  next
    case True
    then have "stored_part s ?d ?sz ?w ps" using la by (simp add: laid_def)
    from open_stored_part [OF log_env_ok(1) [OF Cons(2)] this, of "lg_flags lg"] obtain s' g where
      o: "segment_open s ?d ?w ?sz (lg_flags lg) = Some (s', 0, Some g)" "page_size s' = page_size s"
        "outcomes s' = []" "dirs s' = dirs (ensured s ?d)"
        "\<forall>q. q \<notin> {data_path ?d ?w, index_path ?d ?w} \<longrightarrow> files s' q = files s q" by blast
    show ?thesis
    proof (cases "key_above es ?w")
      case False
      then show ?thesis using load_low [OF Cons(2-4) fd o(1) False] by blast
    next
      case above: True
      obtain lg' where lg': "load_loop s lg (log_name m # map (\<lambda>z. log_name (fst z)) zs) = load_loop s' lg' (map (\<lambda>z. log_name (fst z)) zs)"
        "loading lg' (es @ [(?w, lg_next lg)])" "same_log lg lg'" by (rule load_high [OF Cons(2-4) fd o(1) above])
      have L: "lg_dir lg' = ?d" "lg_size lg' = lg_size lg" using lg'(3) by (simp_all add: same_log_def)
      have env': "log_env s' lg'" using Cons(2) o L by (simp add: log_env_def ensured_def)
      have "laid s' ?d ?sz (word_of_nat (fst y)) (snd y)" if y: "y \<in> set zs" for y
      proof -
        have "fst y \<noteq> m" "fst y < 2 ^ 64" using y Cons(5,6) z by auto
        then have "(word_of_nat (fst y) :: u64) \<noteq> ?w" using m by (simp add: word_of_nat_eq)
        then show ?thesis using Cons(6) y o(2,5) by (subst laid_cong [where s = s]) simp_all
      qed
      with Cons.IH [OF env' lg'(2)] Cons(4-7) True z L show ?thesis unfolding lg'(1) by simp
    qed
  qed
  then show ?case unfolding names .
qed

section \<open>Opening\<close>

lemma mset_map_split:
  "mset xs = mset (map f ys) \<Longrightarrow> \<exists>zs. xs = map f zs \<and> mset zs = mset ys"
proof (induction ys arbitrary: xs)
  case (Cons y ys)
  from Cons.prems have "f y \<in> set xs" by (metis list.set_intros(1) list.simps(9) mset_eq_setD)
  then obtain us vs where xs: "xs = us @ f y # vs" by (meson split_list)
  with Cons.prems have "mset (us @ vs) = mset (map f ys)" by simp
  from Cons.IH [OF this] obtain zs where zs: "us @ vs = map f zs" "mset zs = mset ys" by blast
  then obtain zs1 zs2 where "zs = zs1 @ zs2" "us = map f zs1" "vs = map f zs2" by (auto simp: append_eq_map_conv)
  then show ?case using xs zs(2) by (intro exI [of _ "zs1 @ y # zs2"]) simp
qed simp

lemma length_starts [simp]: "length (starts b pss) = length pss"
  by (induction b pss rule: starts.induct) simp_all

lemma starts_range: "\<forall>ps \<in> set pss. ps \<noteq> [] \<Longrightarrow> m \<in> set (starts b pss) \<Longrightarrow> b \<le> m \<and> m < b + length (concat pss)"
  by (induction b pss rule: starts.induct) (fastforce simp: Suc_le_eq)+

lemma starts_sorted: "\<forall>ps \<in> set pss. ps \<noteq> [] \<Longrightarrow> sorted_wrt (<) (starts b pss)"
proof (induction b pss rule: starts.induct)
  case (2 b ps pss)
  then have "b < m" if "m \<in> set (starts (b + length ps) pss)" for m
    using starts_range [OF _ that] by (cases ps) auto
  then show ?case using 2 by auto
qed simp

text \<open>The segments with their base offsets.\<close>

definition segments :: "bytes list list \<Rightarrow> (nat \<times> bytes list) list" where
  "segments pss = zip (starts 0 pss) pss"

lemma segments_map: "map fst (segments pss) = starts 0 pss" "map snd (segments pss) = pss"
  by (simp_all add: segments_def)

lemma stored_zip: "stored s dir sz b pss \<longleftrightarrow> (\<forall>z \<in> set (zip (starts b pss) pss). stored_part s dir sz (word_of_nat (fst z)) (snd z))"
  by (induction s dir sz b pss rule: stored.induct) simp_all

text \<open>A directory that holds the files of the segments and lists each of them, in some order.\<close>

definition all_laid :: "os \<Rightarrow> string \<Rightarrow> u32 \<Rightarrow> bytes list list \<Rightarrow> bool" where
  "all_laid s dir sz pss \<longleftrightarrow> (\<forall>z \<in> set (segments pss). laid s dir sz (word_of_nat (fst z)) (snd z))"

definition listed :: "string list \<Rightarrow> bytes list list \<Rightarrow> bool" where
  "listed names pss \<longleftrightarrow> mset (filter is_log names) = mset (map log_name (starts 0 pss))"

definition dir_lists :: "os \<Rightarrow> string \<Rightarrow> u64 \<Rightarrow> string list \<Rightarrow> bytes list list \<Rightarrow> bool" where
  "dir_lists s dir sz names pss \<longleftrightarrow> all_laid s dir (u32_of_size sz) pss \<and> length (concat pss) < 2 ^ 64 \<and>
     (\<forall>m. length (concat pss) \<le> m \<and> m < 2 ^ 64 \<longrightarrow>
        files s (data_path dir (word_of_nat m)) = None \<and> files s (index_path dir (word_of_nat m)) = None) \<and>
     listed names pss"

text \<open>When it can be opened: the names come in the order of the base offsets, and no index file is full.\<close>

definition loadable :: "u64 \<Rightarrow> string list \<Rightarrow> bytes list list \<Rightarrow> bool" where
  "loadable sz names pss \<longleftrightarrow> filter is_log names = map log_name (starts 0 pss) \<and> (\<forall>ps \<in> set pss. has_room (u32_of_size sz) ps)"

lemma all_laid_ne: "all_laid s dir sz pss \<Longrightarrow> ps \<in> set pss \<Longrightarrow> ps \<noteq> []"
proof -
  assume A: "all_laid s dir sz pss" and "ps \<in> set pss"
  then obtain z where "z \<in> set (segments pss)" "snd z = ps" using segments_map(2) [of pss] by (metis imageE list.set_map)
  with A have "laid s dir sz (word_of_nat (fst z)) ps" by (auto simp: all_laid_def)
  then show "ps \<noteq> []" by (auto simp: laid_def stored_part_def full_part_def split: if_splits)
qed

lemma lists_holds: "dir_lists s dir sz names pss \<Longrightarrow> loadable sz names pss \<Longrightarrow> dir_holds s dir sz names pss"
  by (fastforce simp: dir_lists_def loadable_def dir_holds_def all_laid_def laid_def stored_zip segments_def dest: set_zip_rightD split: if_splits)

lemma sorted_words:
  assumes "sorted_wrt (<) (map (\<lambda>m. word_of_nat m :: u64) ms)" "\<forall>m \<in> set ms. m < 2 ^ 64"
  shows "sorted_wrt (<) ms"
  using assms by (auto simp: sorted_wrt_iff_nth_less word_less_nat_alt unat_of_nat)

lemma load_segments_fails:
  assumes env: "log_env s lg" and ld: "loading lg []" and sl: "last (lg_dir lg) \<noteq> CHR ''/''"
    and hold: "dir_lists s (lg_dir lg) (lg_size lg) names pss" and bad: "\<not> loadable (lg_size lg) names pss"
  shows "\<exists>s' lg' es'. load_segments s lg names = Some (s', lg', ELLDSGM) \<and> loading lg' es'"
proof -
  let ?sz = "u32_of_size (lg_size lg)"
  note H = hold [unfolded dir_lists_def listed_def]
  have ne: "\<forall>ps \<in> set pss. ps \<noteq> []" using all_laid_ne H by blast
  have "mset (filter is_log names) = mset (map (\<lambda>z. log_name (fst z)) (segments pss))"
    using H by (simp add: segments_map(1) [symmetric] comp_def)
  from mset_map_split [OF this] obtain zs where zs: "filter is_log names = map (\<lambda>z. log_name (fst z)) zs" "mset zs = mset (segments pss)"
    by blast
  have S: "set zs = set (segments pss)" using zs(2) by (rule mset_eq_setD)
  have sd: "sorted_wrt (<) (starts 0 pss)" by (rule starts_sorted [OF ne])
  have "mset (map fst zs) = mset (starts 0 pss)" using zs(2) by (simp add: segments_map(1) [symmetric])
  then have d: "distinct (map fst zs)" and ms: "set (map fst zs) = set (starts 0 pss)"
    using sd by (metis mset_eq_imp_distinct_iff strict_sorted_iff, metis mset_eq_setD)
  have lt: "\<forall>m \<in> set (map fst zs). m < 2 ^ 64" using starts_range [OF ne, of _ 0] H ms by fastforce
  have "\<not> ((\<forall>z \<in> set zs. has_room ?sz (snd z)) \<and> sorted_wrt (<) (map fst [] @ map (\<lambda>z. word_of_nat (fst z) :: u64) zs))"
  proof
    assume A: "(\<forall>z \<in> set zs. has_room ?sz (snd z)) \<and> sorted_wrt (<) (map fst [] @ map (\<lambda>z. word_of_nat (fst z) :: u64) zs)"
    then have "sorted_wrt (<) (map fst zs)" using lt by (intro sorted_words) (simp_all add: comp_def)
    then have "map fst zs = starts 0 pss" using sd ms by (simp add: strict_sorted_equal)
    then have "filter is_log names = map log_name (starts 0 pss)" using zs(1) by (metis (no_types, lifting) list.map_comp map_eq_conv comp_apply)
    moreover have "set pss = snd ` set zs" using S segments_map(2) [of pss] by (metis list.set_map)
    ultimately show False using bad A by (auto simp: loadable_def)
  qed
  from load_any [OF env ld sl d _ this] lt S H obtain s' lg' es' where
    "load_loop s lg (map (\<lambda>z. log_name (fst z)) zs) = Some (s', lg', ELLDSGM)" "loading lg' es'"
    by (auto simp: all_laid_def)
  then show ?thesis using env load_loop_filter [of s lg names] zs(1) by (auto simp: load_segments_def log_env_def)
qed

lemma open_listed:
  assumes env: "dir_env s dir sz" and hold: "dir_lists s dir sz names pss"
  shows "if loadable sz names pss
    then \<exists>s' lg xs. mqlog_open s names [] dir sz flags = Some (s', 0, Some lg) \<and> log_ok s' lg xs \<and> map snd xs = pss \<and>
      lg_dir lg = dir \<and> lg_size lg = sz \<and> lg_flags lg = flags \<and> page_size s' = page_size s \<and> map_base s' = map_base s
    else \<exists>s'. mqlog_open s names [] dir sz flags = Some (s', ELLDSGM, None)"
proof (cases "loadable sz names pss")
  case True
  then show ?thesis using open_ok [OF env lists_holds [OF hold]] by simp
next
  case False
  note E = env [unfolded dir_env_def]
  obtain t where t: "mbptree_init [] BRANCH_FACTOR = Some (Some t)" "index_rep t []"
    using init_rep [of BRANCH_FACTOR] by (auto simp: BRANCH_FACTOR_def)
  let ?s = "ensured s dir"
  define lg where "lg = \<lparr>lg_size = sz, lg_flags = flags, lg_dir = dir, lg_index = Some t, lg_lock = False,
    lg_sgms = Map.empty, lg_next = 1\<rparr>"
  have le: "log_env ?s lg" using E paths_not_dir by (auto simp: log_env_def lg_def ensured_def)
  have "loading lg []" using t(2) by (simp add: loading_def lg_def)
  moreover have "dir_lists ?s (lg_dir lg) (lg_size lg) names pss"
    using hold laid_cong [of ?s dir _ s] by (simp add: dir_lists_def all_laid_def lg_def)
  ultimately obtain s' lg' es' where l: "load_segments ?s lg names = Some (s', lg', ELLDSGM)" "loading lg' es'"
    using load_segments_fails [OF le, of names pss] E False by (auto simp: lg_def)
  from close_loading [OF l(2), of s'] obtain s'' lg'' rc where "mqlog_close s' lg' = Some (s'', lg'', rc)" by blast
  moreover have "fst (snprintf MAX_DIR_SIZE dir) = dir" using E by (simp add: snprintf_def MAX_DIR_SIZE_def)
  ultimately have "mqlog_open s names [] dir sz flags = Some (s'', ELLDSGM, None)"
    using E t(1) l(1) by (simp add: mqlog_open_def pagesize_def ensure_directory_ok lg_def ELLDSGM_def)
  then show ?thesis using False by simp
qed

section \<open>The directory of a closed log\<close>

lemma kept_laid: "kept s dir sz b pss \<Longrightarrow> z \<in> set (zip (starts b pss) pss) \<Longrightarrow> laid s dir sz (word_of_nat (fst z)) (snd z)"
proof (induction s dir sz b pss rule: kept.induct)
  case (2 s dir sz b ps pss)
  then show ?case using held_laid [of s dir _ ps] by fastforce
qed simp

lemma reopen_lists:
  assumes ok: "log_ok s lg xs" and la: "all_laid s' (lg_dir lg) (u32_of_size (lg_size lg)) (map snd xs)"
    and none: "\<And>q. outside lg 0 (length (contents xs)) q \<Longrightarrow> files s q = None \<Longrightarrow> files s' q = None"
    and names: "listed names (map snd xs)"
  shows "dir_lists s' (lg_dir lg) (lg_size lg) names (map snd xs)"
proof -
  have n: "length (contents xs) = length (concat (map snd xs))" by (simp add: contents_def)
  have len: "length (contents xs) < 2 ^ 64" and nf: "no_files s lg (length (contents xs))"
    using ok by (simp_all add: log_ok_def log_rep_def log_core_def)
  have "files s' (data_path (lg_dir lg) (word_of_nat m)) = None \<and> files s' (index_path (lg_dir lg) (word_of_nat m)) = None"
    if m: "length (contents xs) \<le> m" "m < 2 ^ 64" for m
  proof -
    have "outside lg 0 (length (contents xs)) (data_path (lg_dir lg) (word_of_nat m))"
      "outside lg 0 (length (contents xs)) (index_path (lg_dir lg) (word_of_nat m))"
      using m len by (auto simp: outside_def word_of_nat_eq)
    then show ?thesis using none nf m by (simp add: no_files_def)
  qed
  then show ?thesis using la len names unfolding dir_lists_def n by blast
qed

end
