(* ===== verification/Mqlog_Theorems.thy ===== *)
theory Mqlog_Theorems
  imports Mqlog_Listing
begin

text \<open>
  The properties of the log (\<^verbatim>\<open>src/src/mqlog.c\<close>): writing and reading across segments, the log as
  an instance of the append-only log, opening and closing, locking, and synchronising. The
  witnesses run on a small machine with pages of 256 bytes and segments of four pages.
\<close>

section \<open>A small log\<close>

definition demo_log :: "(os \<times> mqlog) option" where
  "demo_log = do {
     (s, _, lg) \<leftarrow> mqlog_open demo_os [''.'', ''..''] [] ''d'' 1024 0;
     lg \<leftarrow> lg;
     Some (s, lg) }"

lemma demo_dir: "dir_env demo_os ''d'' 1024" "dir_holds demo_os ''d'' 1024 [''.'', ''..''] []"
  by (simp_all add: dir_env_def dir_holds_def demo_os_def is_log_def suffix_def)

lemma demo_log_ok:
  obtains s lg where "demo_log = Some (s, lg)" "log_ok s lg []" "lg_dir lg = ''d''" "lg_size lg = 1024" "lg_flags lg = 0"
    "page_size s = 256" "map_base s = map_base demo_os"
proof -
  from open_ok [OF demo_dir, of 0] obtain s lg xs where
    o: "mqlog_open demo_os [''.'', ''..''] [] ''d'' 1024 0 = Some (s, 0, Some lg)" "log_ok s lg xs" "map snd xs = []"
      "lg_dir lg = ''d''" "lg_size lg = 1024" "lg_flags lg = 0" "page_size s = page_size demo_os" "map_base s = map_base demo_os" by blast
  then show ?thesis using that by (simp add: demo_log_def) (simp add: demo_os_def)
qed

section \<open>The log as an append-only log\<close>

type_synonym log_state = "os \<times> mqlog"

definition log_wr :: "log_state \<Rightarrow> bytes \<Rightarrow> (log_state \<times> int) option" where
  "log_wr st p = (case st of (s, lg) \<Rightarrow> do {
     (s, lg, rc) \<leftarrow> mqlog_write s lg 0 p;
     Some ((s, lg), rc) })"

definition log_rd :: "log_state \<Rightarrow> u64 \<Rightarrow> (int \<times> bytes option) option" where
  "log_rd st off = (case st of (s, lg) \<Rightarrow> do {
     (s, lg, rc, fr) \<leftarrow> mqlog_read s lg 0 off null_frame;
     if rc < 0 then Some (rc, None) else do { b \<leftarrow> frame_payload s fr; Some (rc, Some b) } })"

definition log_holds :: "log_state \<Rightarrow> bytes list \<Rightarrow> bool" where
  "log_holds st ps \<longleftrightarrow> (case st of (s, lg) \<Rightarrow>
     (\<exists>xs. log_ok s lg xs \<and> ps = contents xs) \<and> lg_flags lg AND MQLOG_RDCMT \<noteq> MQLOG_RDCMT)"

text \<open>Payloads of at least 84 bytes never fill up the index of a segment before its data.\<close>

definition log_accept :: "log_state \<Rightarrow> bytes list \<Rightarrow> bytes list \<Rightarrow> bool" where
  "log_accept st ps qs \<longleftrightarrow> (case st of (s, lg) \<Rightarrow>
     (\<forall>q \<in> set (ps @ qs). 84 \<le> length q \<and> length q + 24 \<le> unat (lg_size lg)) \<and> length ps + length qs < 2 ^ 64)"

lemma length_frames_big: "\<forall>q \<in> set ps. 84 \<le> length q \<Longrightarrow> 96 * length ps \<le> length (frames ps)"
  by (induction ps) auto

lemma big_index_free:
  assumes ok: "log_ok s lg xs" and big: "\<forall>q \<in> set (contents xs). 84 \<le> length q" "84 \<le> length p"
  shows "index_free s lg xs p"
  unfolding index_free_def
proof (intro allI impI)
  fix ys a ps g
  assume A: "xs = ys @ [(a, ps)] \<and> lg_sgms lg a = Some g \<and> takes s g ps p"
  then have core: "log_core s lg (ys @ [(a, ps)])" using ok by (simp add: log_ok_def log_rep_def)
  then have held: "seg_held s (lg_dir lg) g ps" using A by (auto elim!: core_last)
  have "length (frames ps) + 24 + length p \<le> unat (sg_size g)" using A by (simp add: takes_def fits_def)
  moreover have "96 * length ps \<le> length (frames ps)" using big(1) A by (intro length_frames_big) simp
  ultimately have "96 * length ps + 108 \<le> unat (sg_size g)" using big(2) by simp
  then have "Suc (length ps) * 96 \<le> unat (sg_size g) + 1" by simp
  then have "Suc (length ps) \<le> (unat (sg_size g) + 1) div 96" by (subst less_eq_div_iff_mult_less_eq) simp_all
  moreover have "(unat (sg_size g) + 1) div 12 div 8 = (unat (sg_size g) + 1) div 96" by (simp only: div_mult2_eq [symmetric]) simp
  ultimately have "length ps < (unat (sg_size g) + 1) div 12 div 8" by simp
  then show "length ps < index_room s g" using held_index_room [OF held] by (simp add: index_len_def)
qed

lemma read_end:
  assumes rep: "log_rep s lg xs" and off: "\<not> unat off < length (contents xs)"
  shows "mqlog_read s lg e off fr = Some (s, lg, ELNORD, fr)"
proof (cases xs rule: rev_cases)
  case Nil
  then show ?thesis using read_nothing rep by simp
next
  case (snoc ys x)
  obtain a ps where x: "x = (a, ps)" by (cases x)
  have "part_ok s lg (length (contents ys)) a ps" using rep snoc x by (simp add: log_rep_def log_core_def parts_ok_append)
  then obtain g where g: "lg_sgms lg a = Some g" by (rule part_okE)
  have "unat off = length (contents ys) + (unat off - length (contents ys))" "\<not> unat off - length (contents ys) < length ps"
    using off snoc x by auto
  then show ?thesis using read_part [of s lg ys a ps "[]" g off _ e fr] rep g snoc x by simp
qed

lemma read_inside:
  assumes rep: "log_rep s lg xs" and off: "unat off < length (contents xs)"
  obtains a ps g i where "lg_sgms lg a = Some g" "i < length ps" "contents xs ! unat off = ps ! i" "seg_layout s g ps"
    "sg_flags g AND SGM_RDCMT = lg_flags lg AND MQLOG_RDCMT"
    "mqlog_read s lg e off fr = Some (s, lg, if committed g ps i then (int (length (ps ! i)), frame_at g ps i) else (ELNORD, fr))"
proof -
  from find_part [OF off] obtain xs1 a ps xs2 i where
    d: "xs = xs1 @ (a, ps) # xs2" "unat off = length (contents xs1) + i" "i < length ps" "contents xs ! unat off = ps ! i" by blast
  have "part_ok s lg (length (contents xs1)) a ps" using rep d(1) by (simp add: log_rep_def log_core_def parts_ok_append)
  then obtain g where g: "lg_sgms lg a = Some g" "sg_flags g AND SGM_RDCMT = lg_flags lg AND MQLOG_RDCMT" "seg_held s (lg_dir lg) g ps"
    by (rule part_okE)
  show ?thesis using that [OF g(1) d(3,4) seg_heldD(1) [OF g(3)] g(2)]
      read_part [OF rep [unfolded d(1)] g(1) d(2) disjI1 [OF d(3)], of e fr] d(3) by simp
qed

lemma read_contents:
  assumes rep: "log_rep s lg xs" and fl: "lg_flags lg AND MQLOG_RDCMT \<noteq> MQLOG_RDCMT"
  shows "\<exists>fr'. mqlog_read s lg e off fr =
      Some (s, lg, if unat off < length (contents xs) then int (length (contents xs ! unat off)) else ELNORD, fr') \<and>
    (if unat off < length (contents xs) then frame_payload s fr' = Some (contents xs ! unat off) else fr' = fr)"
proof (cases "unat off < length (contents xs)")
  case True
  obtain a ps g i where r: "lg_sgms lg a = Some g" "i < length ps" "contents xs ! unat off = ps ! i" "seg_layout s g ps"
    "sg_flags g AND SGM_RDCMT = lg_flags lg AND MQLOG_RDCMT"
    "mqlog_read s lg e off fr = Some (s, lg, if committed g ps i then (int (length (ps ! i)), frame_at g ps i) else (ELNORD, fr))"
    by (rule read_inside [OF rep True])
  have "committed g ps i" using r(5) fl by (simp add: committed_def SGM_RDCMT_def MQLOG_RDCMT_def)
  then show ?thesis using r(3,6) True frame_at_payload(1) [OF r(4,2)] by simp
next
  case False
  then show ?thesis using read_end [OF rep False] by simp
qed

lemma log_write_step:
  assumes "log_holds (s, lg) ps" "log_accept (s, lg) ps (q # qs)"
  shows "\<exists>st'. log_wr (s, lg) q = Some (st', int (length q)) \<and> log_holds st' (ps @ [q]) \<and> log_accept st' (ps @ [q]) qs"
proof -
  from assms(1) obtain xs where xs: "log_ok s lg xs" "ps = contents xs" and fl: "lg_flags lg AND MQLOG_RDCMT \<noteq> MQLOG_RDCMT"
    by (auto simp: log_holds_def)
  have A: "\<forall>q \<in> set (contents xs). 84 \<le> length q" "84 \<le> length q" "length q + 24 \<le> unat (lg_size lg)"
    "length (contents xs) + 1 < 2 ^ 64" using assms(2) xs(2) by (auto simp: log_accept_def)
  have "q \<noteq> []" using A(2) by auto
  from write_ok [OF xs(1) A(4) this A(3) big_index_free [OF xs(1) A(1,2)], of 0] obtain s' lg' xs' where
    w: "mqlog_write s lg 0 q = Some (s', lg', int (length q))" "log_ok s' lg' xs'" "extended xs (lg_next lg) q xs'" "same_log lg lg'"
    by blast
  show ?thesis using w extended_contents [OF w(3)] fl xs(2) assms(2)
    by (intro exI [of _ "(s', lg')"]) (auto simp: log_wr_def log_holds_def log_accept_def same_log_def)
qed

lemma log_rd_rep:
  assumes "log_holds (s, lg) ps"
  shows "log_rd (s, lg) off = Some (if unat off < length ps
     then (int (length (ps ! unat off)), Some (ps ! unat off)) else (ELNORD, None))"
proof -
  from assms obtain xs where "log_rep s lg xs" "ps = contents xs" "lg_flags lg AND MQLOG_RDCMT \<noteq> MQLOG_RDCMT"
    by (auto simp: log_holds_def log_ok_def)
  then show ?thesis using read_contents [of s lg xs 0 off null_frame] by (auto simp: log_rd_def ELNORD_def)
qed

interpretation ml: append_log log_wr log_rd log_holds log_accept
proof unfold_locales
  fix st ps q qs assume "log_holds st ps" "log_accept st ps (q # qs)"
  then show "\<exists>st'. log_wr st q = Some (st', int (length q)) \<and> log_holds st' (ps @ [q]) \<and> log_accept st' (ps @ [q]) qs"
    using log_write_step by (cases st) blast
next
  fix st ps and off :: u64
  assume "log_holds st ps" "unat off < length ps"
  then show "log_rd st off = Some (int (length (ps ! unat off)), Some (ps ! unat off))" by (cases st) (simp add: log_rd_rep)
next
  fix st ps and off :: u64
  assume "log_holds st ps" "\<not> unat off < length ps"
  then show "log_rd st off = Some (ELNORD, None)" by (cases st) (simp add: log_rd_rep)
qed


section \<open>Properties of writing and reading\<close>

text \<open>C1. A log in its invariant (so that no system call fails and the mutex is free) is asked to write a
  payload that is not empty and would fit into an empty segment; a last segment that has room for its bytes has
  a free index entry for it, and there are fewer than \<open>2 ^ 64 - 1\<close> payloads so far. Then the write returns the size of
  the payload and appends it to the contents of the log: in the last segment, when that one takes it (its
  frame fits and no end mark, nor what looks like one, is in its place); otherwise in a new segment, which
  is created and entered into the index. The invariant holds again.\<close>

theorem mqlog_write_appends:
  assumes "log_ok s lg xs" and "p \<noteq> []" and "length p + 24 \<le> unat (lg_size lg)"
    and "index_free s lg xs p" and "length (contents xs) + 1 < 2 ^ 64"
  shows "\<exists>s' lg' xs'. mqlog_write s lg errno p = Some (s', lg', int (length p)) \<and> log_ok s' lg' xs' \<and>
    contents xs' = contents xs @ [p] \<and>
    (xs = [] \<longrightarrow> xs' = [(lg_next lg, [p])]) \<and>
    (\<forall>ys a ps g. xs = ys @ [(a, ps)] \<and> lg_sgms lg a = Some g \<longrightarrow>
       xs' = (if takes s g ps p then ys @ [(a, ps @ [p])] else xs @ [(lg_next lg, [p])])) \<and>
    lg_dir lg' = lg_dir lg \<and> lg_size lg' = lg_size lg \<and> lg_flags lg' = lg_flags lg"
proof -
  from write_ok [OF assms(1,5,2,3,4), of errno] obtain s' lg' xs' where
    w: "mqlog_write s lg errno p = Some (s', lg', int (length p))" "log_ok s' lg' xs'"
      "extended xs (lg_next lg) p xs'" "same_log lg lg'" "placed s lg xs p xs'" by blast
  have "xs = [] \<Longrightarrow> xs' = [(lg_next lg, [p])]" using w(3) by (auto simp: extended_def)
  then show ?thesis using w extended_contents [OF w(3)]
    by (intro exI [of _ s'] exI [of _ lg'] exI [of _ xs']) (simp add: placed_def same_log_def)
qed

theorem mqlog_write_appends_witness:
  "\<exists>s lg s' lg' xs'. demo_log = Some (s, lg) \<and> mqlog_write s lg 0 [1, 2, 3] = Some (s', lg', 3) \<and>
     log_ok s' lg' xs' \<and> contents xs' = [[1, 2, 3]]"
proof -
  obtain s lg where l: "demo_log = Some (s, lg)" "log_ok s lg []" "lg_dir lg = ''d''" "lg_size lg = 1024" "lg_flags lg = 0"
    "page_size s = 256" "map_base s = map_base demo_os" by (rule demo_log_ok)
  have "index_free s lg [] [1, 2, 3]" by (simp add: index_free_def)
  from mqlog_write_appends [OF l(2) _ _ this, of 0] l(4) obtain s' lg' xs' where
    "mqlog_write s lg 0 [1, 2, 3] = Some (s', lg', 3)" "log_ok s' lg' xs'" "contents xs' = [[1, 2, 3]]" by auto
  with l(1) show ?thesis by blast
qed

lemma demo_written:
  assumes "q \<noteq> []" "length q \<le> 1000"
  obtains s lg s' lg' a sgm where "demo_log = Some (s, lg)" "mqlog_write s lg 0 q = Some (s', lg', int (length q))"
    "log_ok s' lg' [(a, [q])]" "lg_sgms lg' a = Some sgm" "lg_dir lg' = ''d''" "lg_size lg' = 1024" "lg_flags lg' = 0"
    "page_size s' = 256" "map_base s' = map_base demo_os"
proof -
  obtain s lg where l: "demo_log = Some (s, lg)" "log_ok s lg []" "lg_dir lg = ''d''" "lg_size lg = 1024" "lg_flags lg = 0"
    "page_size s = 256" "map_base s = map_base demo_os" by (rule demo_log_ok)
  have "index_free s lg [] q" by (simp add: index_free_def)
  from write_ok [OF l(2) _ assms(1) _ this, of 0] assms(2) l(4) obtain s' lg' xs' where
    w: "mqlog_write s lg 0 q = Some (s', lg', int (length q))" "log_ok s' lg' xs'" "extended [] (lg_next lg) q xs'" "same_log lg lg'"
      "map_base s' = map_base s" "page_size s' = page_size s" by auto
  have xs': "xs' = [(lg_next lg, [q])]" using w(3) by (simp add: extended_def)
  then obtain sgm where "lg_sgms lg' (lg_next lg) = Some sgm"
    using w(2) by (auto simp: log_ok_def log_rep_def log_core_def elim: part_okE)
  then show ?thesis using that l w xs' by (simp add: same_log_def)
qed

text \<open>C3. On a log without the flag \<open>MQLOG_RDCMT\<close>, a read at offset \<open>n\<close> finds the segment that
  holds payload number \<open>n\<close> and returns its size and a frame with exactly this payload; at or
  behind the end of the log it returns \<open>ELNORD\<close> and leaves the frame alone. The log is unchanged.\<close>

theorem mqlog_read_delivers:
  assumes "log_rep s lg xs" "lg_flags lg AND MQLOG_RDCMT \<noteq> MQLOG_RDCMT"
  shows "if unat offset < length (contents xs)
    then \<exists>fr'. mqlog_read s lg errno offset fr = Some (s, lg, int (length (contents xs ! unat offset)), fr') \<and>
      frame_payload s fr' = Some (contents xs ! unat offset)
    else mqlog_read s lg errno offset fr = Some (s, lg, ELNORD, fr)"
  using read_contents [OF assms, of errno offset fr] by auto

theorem mqlog_read_delivers_witness:
  "\<exists>s lg s' lg' fr. demo_log = Some (s, lg) \<and> mqlog_write s lg 0 [7, 8] = Some (s', lg', 2) \<and>
     mqlog_read s' lg' 0 0 null_frame = Some (s', lg', 2, fr) \<and> frame_payload s' fr = Some [7, 8] \<and>
     mqlog_read s' lg' 0 1 null_frame = Some (s', lg', ELNORD, null_frame)"
proof -
  obtain s lg s' lg' a sgm where d: "demo_log = Some (s, lg)" "mqlog_write s lg 0 [7, 8] = Some (s', lg', int (length [7, 8 :: byte]))"
    "log_ok s' lg' [(a, [[7, 8]])]" "lg_sgms lg' a = Some sgm" "lg_dir lg' = ''d''" "lg_size lg' = 1024" "lg_flags lg' = 0"
    by (rule demo_written [of "[7, 8]"]) simp_all
  have R: "log_rep s' lg' [(a, [[7, 8]])]" "lg_flags lg' AND MQLOG_RDCMT \<noteq> MQLOG_RDCMT" using d(3,7) by (simp_all add: log_ok_def MQLOG_RDCMT_def)
  from mqlog_read_delivers [OF R, of 0 0 null_frame] obtain fr where
    "mqlog_read s' lg' 0 0 null_frame = Some (s', lg', 2, fr)" "frame_payload s' fr = Some [7, 8]" by auto
  moreover have "mqlog_read s' lg' 0 1 null_frame = Some (s', lg', ELNORD, null_frame)"
    using mqlog_read_delivers [OF R, of 1 0 null_frame] by simp
  moreover have "mqlog_write s lg 0 [7, 8] = Some (s', lg', 2)" using d(2) by simp
  ultimately show ?thesis using d(1) by blast
qed

text \<open>C22. On any log, a read of a payload is answered from the segment that holds it, and delivers
  the payload exactly when it is committed: with \<open>MQLOG_RDCMT\<close> only when it starts below the
  synchronised position of its segment, without it always. Otherwise the answer is \<open>ELNORD\<close>.\<close>

theorem mqlog_read_committed:
  assumes "log_rep s lg (xs @ (a, ps) # ys)" "lg_sgms lg a = Some sgm" "i < length ps"
    "unat offset = length (contents xs) + i"
  shows "mqlog_read s lg errno offset fr = Some (s, lg,
    if lg_flags lg AND MQLOG_RDCMT \<noteq> MQLOG_RDCMT \<or> foffset ps i < unat (op_data (sg_s sgm))
    then (int (length (ps ! i)), frame_at sgm ps i) else (ELNORD, fr))"
proof -
  have "part_ok s lg (length (contents xs)) a ps" using assms(1) by (simp add: log_rep_def log_core_def parts_ok_append)
  then have "sg_flags sgm AND SGM_RDCMT = lg_flags lg AND MQLOG_RDCMT" using assms(2) by (auto elim!: part_okE)
  then have "committed sgm ps i \<longleftrightarrow> lg_flags lg AND MQLOG_RDCMT \<noteq> MQLOG_RDCMT \<or> foffset ps i < unat (op_data (sg_s sgm))"
    by (simp add: committed_def SGM_RDCMT_def MQLOG_RDCMT_def)
  then show ?thesis using read_part [OF assms(1,2,4) disjI1 [OF assms(3)], of errno fr] assms(3) by simp
qed

theorem mqlog_read_committed_witness:
  "\<exists>s lg s' lg' fr. demo_log = Some (s, lg) \<and> mqlog_write s lg 0 [7, 8] = Some (s', lg', 2) \<and>
     mqlog_read s' lg' 0 0 null_frame = Some (s', lg', 2, fr)"
proof -
  obtain s lg s' lg' a sgm where d: "demo_log = Some (s, lg)" "mqlog_write s lg 0 [7, 8] = Some (s', lg', int (length [7, 8 :: byte]))"
    "log_ok s' lg' [(a, [[7, 8]])]" "lg_sgms lg' a = Some sgm" "lg_dir lg' = ''d''" "lg_size lg' = 1024" "lg_flags lg' = 0"
    by (rule demo_written [of "[7, 8]"]) simp_all
  have "mqlog_read s' lg' 0 0 null_frame = Some (s', lg', 2, frame_at sgm [[7, 8]] 0)"
    using mqlog_read_committed [of s' lg' "[]" a "[[7, 8]]" "[]" sgm 0 0 0 null_frame] d by (simp add: log_ok_def MQLOG_RDCMT_def)
  moreover have "mqlog_write s lg 0 [7, 8] = Some (s', lg', 2)" using d(2) by simp
  ultimately show ?thesis using d(1) by blast
qed

text \<open>C2. The log, opened without \<open>MQLOG_RDCMT\<close> and while no system call fails, implements an append-only log of up to
  \<open>2 ^ 64 - 1\<close> payloads: when all payloads it holds already and all new ones have at least 84 bytes (so that no index fills up
  before the data does) and fit into an empty segment, the new ones are written in full, across as many
  segments as it takes; reading then delivers what was there before, the new payloads in
  order at the following offsets, and \<open>ELNORD\<close> behind them.\<close>

theorem mqlog_log_behaviour:
  assumes "log_holds (s, lg) ps"
    and "\<forall>q \<in> set (ps @ qs). 84 \<le> length q \<and> length q + 24 \<le> unat (lg_size lg)" and "length ps + length qs < 2 ^ 64"
  shows "\<exists>st'. write_all log_wr (s, lg) qs = Some (st', map (\<lambda>q. int (length q)) qs) \<and> log_holds st' (ps @ qs) \<and>
    (\<forall>off. unat off < length ps \<longrightarrow> log_rd st' off = log_rd (s, lg) off) \<and>
    (\<forall>off. length ps \<le> unat off \<and> unat off < length ps + length qs \<longrightarrow>
       log_rd st' off = Some (int (length (qs ! (unat off - length ps))), Some (qs ! (unat off - length ps)))) \<and>
    (\<forall>off. length ps + length qs \<le> unat off \<longrightarrow> log_rd st' off = Some (ELNORD, None))"
  using assms by (intro ml.write_all_reads) (simp_all add: log_accept_def)

theorem mqlog_log_behaviour_witness:
  "\<exists>st st'. demo_log = Some st \<and>
     write_all log_wr st [zeros 500, replicate 600 1, replicate 700 2] = Some (st', [500, 600, 700]) \<and>
     log_rd st' 1 = Some (600, Some (replicate 600 1)) \<and> log_rd st' 3 = Some (ELNORD, None)"
proof -
  obtain s lg where l: "demo_log = Some (s, lg)" "log_ok s lg []" "lg_dir lg = ''d''" "lg_size lg = 1024" "lg_flags lg = 0"
    "page_size s = 256" "map_base s = map_base demo_os" by (rule demo_log_ok)
  then have "log_holds (s, lg) []" by (auto simp: log_holds_def MQLOG_RDCMT_def intro!: exI [of _ "[]"])
  from mqlog_log_behaviour [OF this, of "[zeros 500, replicate 600 1, replicate 700 2]"] l(4) obtain st' where
    w: "write_all log_wr (s, lg) [zeros 500, replicate 600 1, replicate 700 2] = Some (st', [500, 600, 700])"
      "\<forall>off. unat off < 3 \<longrightarrow> log_rd st' off =
         Some (int (length ([zeros 500, replicate 600 1, replicate 700 2] ! unat off)), Some ([zeros 500, replicate 600 1, replicate 700 2] ! unat off))"
      "\<forall>off. 3 \<le> unat off \<longrightarrow> log_rd st' off = Some (ELNORD, None)"
    by (auto simp del: write_all.simps)
  have "log_rd st' 1 = Some (600, Some (replicate 600 1))" using spec [OF w(2), of 1] by simp
  moreover have "log_rd st' 3 = Some (ELNORD, None)" using spec [OF w(3), of 3] by simp
  ultimately show ?thesis using l(1) w(1) by blast
qed

end
