(* ===== verification/Mqlog_Lifecycle.thy ===== *)
theory Mqlog_Lifecycle
  imports Mqlog_Theorems
begin

text \<open>
  The life of a log (\<^verbatim>\<open>src/src/mqlog.c\<close>): opening it, the states its operations lead to,
  synchronising, closing, and opening it again.
\<close>

section \<open>Opening and closing\<close>

text \<open>C4. A log in its invariant, with segments of less than 2 GiB in a directory whose name does not
  end in a slash, is closed and its directory opened again, while no system call fails. Closing returns 0. When
  \<open>readdir\<close> lists every segment file once, in whatever order, there are two cases: if the names come in the
  order of the base offsets and every index file has a free entry, opening returns a log with the same segments and
  so the same contents; otherwise it returns \<open>ELLDSGM\<close> and no log.\<close>

theorem mqlog_reopen:
  assumes ok: "log_ok s lg xs" and mp: "\<And>p. mapping_ok s k p" and sm: "unat (lg_size lg) < 2 ^ 31"
    and sl: "last (lg_dir lg) \<noteq> CHR ''/''"
    and names: "mset (filter is_log names) = mset (map log_name (starts 0 (map snd xs)))"
  shows "\<exists>s1 lg1. mqlog_close s lg = Some (s1, lg1, 0) \<and>
    (if filter is_log names = map log_name (starts 0 (map snd xs)) \<and>
        (\<forall>ps \<in> set (map snd xs). 8 * length ps + 8 \<le> index_len (u32_of_size (lg_size lg)))
     then \<exists>s2 lg2 xs2. mqlog_open s1 names [] (lg_dir lg) (lg_size lg) flags = Some (s2, 0, Some lg2) \<and>
       log_ok s2 lg2 xs2 \<and> map snd xs2 = map snd xs \<and> contents xs2 = contents xs
     else \<exists>s2. mqlog_open s1 names [] (lg_dir lg) (lg_size lg) flags = Some (s2, ELLDSGM, None))"
proof -
  have rep: "log_rep s lg xs" and env: "log_env s lg" using ok by (simp_all add: log_ok_def log_rep_def log_core_def)
  from close_ok [OF rep mp sm] obtain s1 lg1 where
    c: "mqlog_close s lg = Some (s1, lg1, 0)" "kept s1 (lg_dir lg) (u32_of_size (lg_size lg)) 0 (map snd xs)"
      "outcomes s1 = []" "page_size s1 = page_size s" "dirs s1 = dirs s"
      "\<forall>q. outside lg 0 (length (contents xs)) q \<longrightarrow> files s1 q = files s q" by blast
  have "all_laid s1 (lg_dir lg) (u32_of_size (lg_size lg)) (map snd xs)"
    using kept_laid [OF c(2)] by (simp add: all_laid_def segments_def)
  then have hold: "dir_lists s1 (lg_dir lg) (lg_size lg) names (map snd xs)"
    using c(6) names by (intro reopen_lists [OF ok]) (simp_all add: listed_def)
  have "lg_dir lg \<in> set (dirs s1)" "set (dirs s1) \<subseteq> set (dirs s)" using env c(5) by (simp_all add: log_env_def)
  note L = open_listed [OF reopen_env [OF env sl c(3,4) this] hold, of flags]
  show ?thesis
  proof (cases "loadable (lg_size lg) names (map snd xs)")
    case True
    with L obtain s2 lg2 xs2 where "mqlog_open s1 names [] (lg_dir lg) (lg_size lg) flags = Some (s2, 0, Some lg2)"
      "log_ok s2 lg2 xs2" "map snd xs2 = map snd xs" by auto
    moreover from this(3) have "contents xs2 = contents xs" by (simp add: contents_def)
    ultimately show ?thesis using c(1) True by (auto simp: loadable_def has_room_def)
  next
    case False
    then show ?thesis using c(1) L by (auto simp: loadable_def has_room_def)
  qed
qed

lemma demo_name: "log_name 0 = ''0.log''"
  by code_simp

theorem mqlog_reopen_witness:
  "\<exists>s lg s' lg' s1 lg1 s2 lg2 xs2. demo_log = Some (s, lg) \<and> mqlog_write s lg 0 [5, 6] = Some (s', lg', 2) \<and>
     mqlog_close s' lg' = Some (s1, lg1, 0) \<and>
     mqlog_open s1 [''.'', ''..'', ''0.idx'', ''0.log''] [] ''d'' 1024 0 = Some (s2, 0, Some lg2) \<and>
     log_ok s2 lg2 xs2 \<and> contents xs2 = [[5, 6]]"
proof -
  obtain s lg s' lg' a sgm where d: "demo_log = Some (s, lg)" "mqlog_write s lg 0 [5, 6] = Some (s', lg', int (length [5, 6 :: byte]))"
    "log_ok s' lg' [(a, [[5, 6]])]" "lg_sgms lg' a = Some sgm" "lg_dir lg' = ''d''" "lg_size lg' = 1024" "lg_flags lg' = 0"
    "page_size s' = 256" "map_base s' = map_base demo_os"
    by (rule demo_written [of "[5, 6]"]) simp_all
  have names: "filter is_log [''.'', ''..'', ''0.idx'', ''0.log''] = map log_name (starts 0 (map snd [(a, [[5, 6]])]))"
    by (simp add: demo_name is_log_def suffix_def append_eq_Cons_conv)
  have "8 \<le> index_len (u32_of_size (lg_size lg'))" "unat (lg_size lg') < 2 ^ 31" "last (lg_dir lg') \<noteq> CHR ''/''"
    using d(5,6) by (simp_all add: index_len_def u32_of_size_def)
  from mqlog_reopen [OF d(3) demo_mapping [OF d(8,9)] this(2,3) arg_cong [where f = mset, OF names], of 0] this(1) d names
  obtain s1 lg1 s2 lg2 xs2 where "mqlog_close s' lg' = Some (s1, lg1, 0)"
     "mqlog_open s1 [''.'', ''..'', ''0.idx'', ''0.log''] [] ''d'' 1024 0 = Some (s2, 0, Some lg2)"
     "log_ok s2 lg2 xs2" "contents xs2 = [[5, 6]]" by (auto simp: index_len_def u32_of_size_def)
  moreover have "mqlog_write s lg 0 [5, 6] = Some (s', lg', 2)" using d(2) by simp
  ultimately show ?thesis using d(1) by blast
qed

text \<open>C23. Closing a log in its invariant, with segments of less than 2 GiB and while no system call
  fails, ends and returns 0: every segment of the index is closed and its memory released, every node of the index is
  freed, and no file is touched but those of the segments.\<close>

theorem mqlog_close_releases:
  assumes "log_rep s lg xs" "\<And>p. mapping_ok s k p" "unat (lg_size lg) < 2 ^ 31"
  shows "\<exists>s' lg' t. mqlog_close s lg = Some (s', lg', 0) \<and> (\<forall>a \<in> fst ` set xs. lg_sgms lg' a = None) \<and>
    lg_index lg' = Some t \<and> (\<forall>a. nodes t a = None) \<and>
    (\<forall>q. outside lg 0 (length (contents xs)) q \<longrightarrow> files s' q = files s q)"
  using close_ok [OF assms] by blast

theorem mqlog_close_releases_witness:
  "\<exists>s lg s' lg' t a g s1 lg1 t1. demo_log = Some (s, lg) \<and> mqlog_write s lg 0 [5, 6] = Some (s', lg', 2) \<and>
     lg_index lg' = Some t \<and> nodes t (root t) \<noteq> None \<and> lg_sgms lg' a = Some g \<and>
     mqlog_close s' lg' = Some (s1, lg1, 0) \<and> lg_sgms lg1 a = None \<and> lg_index lg1 = Some t1 \<and> (\<forall>a. nodes t1 a = None)"
proof -
  obtain s lg s' lg' a sgm where d: "demo_log = Some (s, lg)" "mqlog_write s lg 0 [5, 6] = Some (s', lg', int (length [5, 6 :: byte]))"
    "log_ok s' lg' [(a, [[5, 6]])]" "lg_sgms lg' a = Some sgm" "lg_dir lg' = ''d''" "lg_size lg' = 1024" "lg_flags lg' = 0"
    "page_size s' = 256" "map_base s' = map_base demo_os"
    by (rule demo_written [of "[5, 6]"]) simp_all
  from d(3) obtain t where t: "lg_index lg' = Some t" "tree_rep t (log_entries 0 [(a, [[5, 6]])])"
    by (auto simp: log_ok_def log_rep_def log_core_def index_rep_def)
  have "nodes t (root t) \<noteq> None" by (rule root_node [OF t(2)])
  moreover obtain s1 lg1 t1 where "mqlog_close s' lg' = Some (s1, lg1, 0)" "lg_sgms lg1 a = None" "lg_index lg1 = Some t1"
    "\<forall>a. nodes t1 a = None"
    using mqlog_close_releases [OF _ demo_mapping [OF d(8,9)], of lg' "[(a, [[5, 6]])]"] d(3,6) by (auto simp: log_ok_def)
  moreover have "mqlog_write s lg 0 [5, 6] = Some (s', lg', 2)" using d(2) by simp
  ultimately show ?thesis using d(1,4) t(1) by blast
qed

section \<open>The states of a log\<close>

text \<open>The states that a program reaches from opening an empty directory by writing payloads of
  at least 84 bytes that fit into a segment, and by reading and synchronising.\<close>

inductive mqlog_reachable :: "os \<Rightarrow> string list \<Rightarrow> string \<Rightarrow> u64 \<Rightarrow> u32 \<Rightarrow> os \<Rightarrow> mqlog \<Rightarrow> nat \<Rightarrow> bool"
  for s0 names dir sz flags where
  op: "mqlog_open s0 names [] dir sz flags = Some (s, 0, Some lg) \<Longrightarrow> mqlog_reachable s0 names dir sz flags s lg 0"
| wr: "mqlog_reachable s0 names dir sz flags s lg n \<Longrightarrow> 84 \<le> length p \<Longrightarrow> length p + 24 \<le> unat sz \<Longrightarrow> n + 1 < 2 ^ 64 \<Longrightarrow>
    mqlog_write s lg errno p = Some (s', lg', rc) \<Longrightarrow> mqlog_reachable s0 names dir sz flags s' lg' (Suc n)"
| rd: "mqlog_reachable s0 names dir sz flags s lg n \<Longrightarrow>
    mqlog_read s lg errno off fr = Some (s', lg', rc, fr') \<Longrightarrow> mqlog_reachable s0 names dir sz flags s' lg' n"
| sy: "mqlog_reachable s0 names dir sz flags s lg n \<Longrightarrow>
    mqlog_sync s lg = Some (s', lg', rc) \<Longrightarrow> mqlog_reachable s0 names dir sz flags s' lg' n"

lemma read_same:
  assumes rep: "log_rep s lg xs" and run: "mqlog_read s lg e off fr = Some (s', lg', rc, fr')"
  shows "s' = s \<and> lg' = lg"
proof (cases "unat off < length (contents xs)")
  case True
  then show ?thesis by (rule read_inside [OF rep, of off e fr]) (use run in auto)
next
  case False
  then show ?thesis using read_end [OF rep False, of e fr] run by simp
qed

lemma read_defined:
  assumes rep: "log_rep s lg xs"
  shows "\<exists>rc fr'. mqlog_read s lg e off fr = Some (s, lg, rc, fr')"
proof (cases "unat off < length (contents xs)")
  case True
  show ?thesis by (rule read_inside [OF rep True, of e fr]) auto
next
  case False
  then show ?thesis using read_end [OF rep False, of e fr] by blast
qed

text \<open>Synchronising keeps the contents of the log and touches only files of its last segment.\<close>

lemma sync_ok:
  assumes ok: "log_ok s lg xs" and mp: "\<And>p. mapping_ok s k p" and run: "mqlog_sync s lg = Some (s', lg', rc)"
  shows "log_ok s' lg' xs \<and> same_log lg lg' \<and> page_size s' = page_size s \<and> map_base s' = map_base s"
proof (cases xs rule: rev_cases)
  case Nil
  from ok obtain t where t: "lg_index lg = Some t" "index_rep t []" by (auto simp: log_ok_def log_rep_def log_core_def Nil)
  show ?thesis using run t ok ix.last_val [OF t(2)] by (simp add: mqlog_sync_def same_log_def)
next
  case (snoc ys x)
  obtain a ps where x: "x = (a, ps)" by (cases x)
  have core: "log_core s lg (ys @ [(a, ps)])" and nf: "no_files s lg (length (contents (ys @ [(a, ps)])))" and nl: "\<not> lg_lock lg"
    using ok snoc x by (simp_all add: log_ok_def log_rep_def)
  from core obtain t g where G: "lg_index lg = Some t" "mbptree_last_value t = Some (0, Some a)" "lg_sgms lg a = Some g"
    "sg_base_offset g = word_of_nat (length (contents ys))" "sg_size g = u32_of_size (lg_size lg)"
    "sg_flags g AND SGM_RDCMT = lg_flags lg AND MQLOG_RDCMT" "seg_held s (lg_dir lg) g ps" "ps \<noteq> []" by (rule core_last)
  have out: "outcomes s = []" and tot: "length (contents (ys @ [(a, ps)])) < 2 ^ 64"
    using core by (simp_all add: log_core_def log_env_def)
  obtain g' where sy: "segment_sync s g = (s', g', rc)" and lg': "lg' = lg\<lparr>lg_sgms := (lg_sgms lg)(a \<mapsto> g')\<rparr>"
    using run G by (auto simp: mqlog_sync_def split: prod.splits)
  note S = held_sync [OF G(7) out mp mp sy]
  have g': "sg_base_offset g' = sg_base_offset g" "sg_size g' = sg_size g" "sg_flags g' = sg_flags g" by (subst S(4), simp)+
  have sb: "page_size s' = page_size s" "dirs s' = dirs s" "outcomes s' = outcomes s" "map_base s' = map_base s"
    using S(2,3) out by (simp_all add: same_bytes_def)
  have fs: "\<forall>q. q \<notin> {sg_buffer g, sg_index g} \<longrightarrow> files s' q = files s q" using segment_sync_files [OF sy] by blast
  note U = update_last [OF core G(3) S(1) G(8) g' fs sb(1-3) tot]
  have "no_files s' lg' (length (contents (ys @ [(a, ps)])))" using U(3) [OF nf] G(8) lg' by simp
  then show ?thesis using U(1) lg' nl sb snoc x by (simp add: log_ok_def log_rep_def same_log_def)
qed

definition log_fine :: "u64 \<Rightarrow> os \<Rightarrow> mqlog \<Rightarrow> nat \<Rightarrow> bool" where
  "log_fine sz s lg n \<longleftrightarrow> (\<exists>xs. log_ok s lg xs \<and> length (contents xs) = n \<and> (\<forall>q \<in> set (contents xs). 84 \<le> length q)) \<and>
     lg_size lg = sz"

lemma reachable_fine:
  assumes "mqlog_reachable s0 names dir sz flags s lg n"
    and env: "dir_env s0 dir sz" "dir_holds s0 dir sz names []" and mp: "\<And>p. mapping_ok s0 k p"
  shows "log_fine sz s lg n \<and> page_size s = page_size s0 \<and> map_base s = map_base s0"
  using assms(1)
proof (induction rule: mqlog_reachable.induct)
  case (op s lg)
  from open_ok [OF env, of flags] op show ?case by (auto simp: log_fine_def)
next
  case (wr s lg n p errno s' lg' rc)
  then obtain xs where xs: "log_ok s lg xs" "length (contents xs) = n" "\<forall>q \<in> set (contents xs). 84 \<le> length q" "lg_size lg = sz"
    by (auto simp: log_fine_def)
  have "p \<noteq> []" using wr.hyps(2) by auto
  from write_ok [OF xs(1) _ this _ big_index_free [OF xs(1,3) wr.hyps(2)], of errno] wr.hyps xs(2,4) obtain xs' where
    "log_ok s' lg' xs'" "extended xs (lg_next lg) p xs'" "same_log lg lg'" "page_size s' = page_size s" "map_base s' = map_base s" by auto
  moreover from this(2) have "contents xs' = contents xs @ [p]" by (rule extended_contents)
  ultimately have "log_ok s' lg' xs' \<and> length (contents xs') = Suc n \<and> (\<forall>q \<in> set (contents xs'). 84 \<le> length q)" "lg_size lg' = sz"
    "page_size s' = page_size s" "map_base s' = map_base s"
    using xs wr.hyps(2) by (auto simp: same_log_def)
  then show ?case using wr.IH unfolding log_fine_def by auto
next
  case (rd s lg n errno off fr s' lg' rc fr')
  then show ?case using read_same [of s lg _ errno off fr s' lg' rc fr'] by (auto simp: log_fine_def log_ok_def)
next
  case (sy s lg n s' lg' rc)
  then obtain xs where xs: "log_ok s lg xs" "length (contents xs) = n" "\<forall>q \<in> set (contents xs). 84 \<le> length q" "lg_size lg = sz"
    by (auto simp: log_fine_def)
  have "mapping_ok s k p" for p using mp [of p] sy.IH by (simp add: mapping_ok_def)
  from sync_ok [OF xs(1) this sy.hyps(2)] xs sy.IH show ?case by (auto simp: log_fine_def same_log_def)
qed

text \<open>C5. In every state that a program reaches by opening an empty directory, writing payloads of at
  least 84 bytes that fit into an empty segment, fewer than \<open>2 ^ 64 - 1\<close> of them, reading and synchronising, all this while no system
  call fails, the invariant of the log holds: the index has an entry for every segment, the base offsets count the payloads before
  it, every segment holds its frames, and the log is unlocked. So the next such write is accepted.\<close>

theorem mqlog_reachable_inv:
  assumes "mqlog_reachable s0 names dir sz flags s lg n" "dir_env s0 dir sz" "dir_holds s0 dir sz names []"
    "\<And>p. mapping_ok s0 k p" "n + 1 < 2 ^ 64" "84 \<le> length p" "length p + 24 \<le> unat sz"
  shows "\<exists>xs s' lg'. log_ok s lg xs \<and> length (contents xs) = n \<and> mqlog_write s lg errno p = Some (s', lg', int (length p))"
proof -
  from reachable_fine [OF assms(1-4)] obtain xs where
    xs: "log_ok s lg xs" "length (contents xs) = n" "\<forall>q \<in> set (contents xs). 84 \<le> length q" "lg_size lg = sz"
    by (auto simp: log_fine_def)
  have "p \<noteq> []" using assms(6) by auto
  from write_ok [OF xs(1) _ this _ big_index_free [OF xs(1,3) assms(6)], of errno] assms(5,7) xs(2,4) show ?thesis
    using xs(1) by auto
qed

theorem mqlog_reachable_inv_witness:
  "\<exists>s lg xs s' lg'. mqlog_reachable demo_os [''.'', ''..''] ''d'' 1024 0 s lg 1 \<and> log_ok s lg xs \<and> length (contents xs) = 1 \<and>
     mqlog_write s lg 0 (replicate 700 2) = Some (s', lg', 700)"
proof -
  let ?r = "mqlog_reachable demo_os [''.'', ''..''] ''d'' 1024 0"
  have mp: "mapping_ok demo_os 8 p" for p by (rule demo_mapping) (simp_all add: demo_os_def)
  from open_ok [OF demo_dir, of 0] obtain s lg where
    "mqlog_open demo_os [''.'', ''..''] [] ''d'' 1024 0 = Some (s, 0, Some lg)" by blast
  then have r: "?r s lg 0" by (rule mqlog_reachable.op)
  from mqlog_reachable_inv [OF this demo_dir mp, of "zeros 500" 0] obtain s1 lg1 where
    w: "mqlog_write s lg 0 (zeros 500) = Some (s1, lg1, 500)" by auto
  have r1: "?r s1 lg1 1" using mqlog_reachable.wr [OF r _ _ _ w] by simp
  from reachable_fine [OF r1 demo_dir mp] obtain xs where "log_rep s1 lg1 xs" "length (contents xs) = 1" by (auto simp: log_fine_def log_ok_def)
  from read_defined [OF this(1), of 0 0 null_frame] obtain rc fr where "mqlog_read s1 lg1 0 0 null_frame = Some (s1, lg1, rc, fr)" by blast
  then have r2: "?r s1 lg1 1" by (rule mqlog_reachable.rd [OF r1])
  from mqlog_reachable_inv [OF r2 demo_dir mp, of "replicate 700 2" 0] r2 show ?thesis by fastforce
qed

end
