(* ===== verification/Mqlog_Failures.thy ===== *)
theory Mqlog_Failures
  imports Mqlog_Lifecycle
begin

text \<open>
  What the log (\<^verbatim>\<open>src/src/mqlog.c\<close>) does when an operation cannot be carried out: the mutex is
  held, an allocation fails, a payload is larger than a segment, the index or the directory
  is not as expected.
\<close>

section \<open>The mutex\<close>

lemma mutex_busy:
  assumes "lg_lock lg" "outcomes s = []"
  shows "p \<noteq> [] \<Longrightarrow> mqlog_write s lg e p = Some (s, lg, ELLOCK)" "mqlog_read s lg e off fr = Some (s, lg, ELLOCK, fr)"
  using mutex_ok(3) [OF assms(2,1)] by (simp_all add: mqlog_write_def mqlog_read_def mqlog_tryread_def EBUSY_def)

text \<open>While another thread holds the mutex, writing a payload and reading return \<open>ELLOCK\<close> without
  waiting and without any effect; writing nothing returns 0 in any case. A mutex that fails
  for another reason gives \<open>ELLCKOP\<close>, or \<open>ELLOCK\<close> when \<open>errno\<close> happens to be \<open>EBUSY\<close>.\<close>

theorem mqlog_locked:
  assumes "outcomes s = (if broken then [False] else [])" "lg_lock lg \<or> broken" "p \<noteq> []"
  shows "mqlog_write s lg errno p = Some (s\<lparr>outcomes := []\<rparr>, lg, if broken \<and> errno \<noteq> EBUSY then ELLCKOP else ELLOCK) \<and>
    mqlog_read s lg errno off fr = Some (s\<lparr>outcomes := []\<rparr>, lg, if broken \<and> errno \<noteq> EBUSY then ELLCKOP else ELLOCK, fr) \<and>
    mqlog_write s lg errno [] = Some (s, lg, 0)"
proof (cases broken)
  case True
  then show ?thesis using assms
    by (simp add: mqlog_write_def mqlog_read_def mqlog_tryread_def pthread_mutex_trylock_def sys_call_def EINVAL_def EBUSY_def)
next
  case False
  then have "s\<lparr>outcomes := []\<rparr> = s" using assms(1) by (cases s) simp
  then show ?thesis using False assms mutex_busy [of lg s] by (simp add: mqlog_write_def)
qed

theorem mqlog_locked_witness:
  "\<exists>s lg. demo_log = Some (s, lg) \<and> mqlog_write s (lg\<lparr>lg_lock := True\<rparr>) 0 [1] = Some (s, lg\<lparr>lg_lock := True\<rparr>, ELLOCK)"
proof -
  obtain s lg where l: "demo_log = Some (s, lg)" "log_ok s lg []" "lg_dir lg = ''d''" "lg_size lg = 1024" "lg_flags lg = 0"
    "page_size s = 256" "map_base s = map_base demo_os" by (rule demo_log_ok)
  then have o: "outcomes s = []" by (simp add: log_ok_def log_rep_def log_core_def log_env_def)
  then have "s\<lparr>outcomes := []\<rparr> = s" by (cases s) simp
  then have "mqlog_write s (lg\<lparr>lg_lock := True\<rparr>) 0 [1] = Some (s, lg\<lparr>lg_lock := True\<rparr>, ELLOCK)"
    using mqlog_locked [of s False "lg\<lparr>lg_lock := True\<rparr>" "[1]" 0 0 null_frame] o by simp
  with l(1) show ?thesis by blast
qed

text \<open>C32. When the iterator for a read cannot be allocated, \<open>mqlog_read\<close> returns \<open>ELALLC\<close> and
  leaves the mutex locked: from then on every write of a payload and every read return
  \<open>ELLOCK\<close>, and no operation releases the mutex.\<close>

theorem mqlog_read_keeps_mutex:
  assumes "outcomes s = []" "\<not> lg_lock lg" "lg_index lg = Some t" "allocs t = False # bs" "p \<noteq> []"
  shows "\<exists>lg'. mqlog_read s lg errno off fr = Some (s, lg', ELALLC, fr) \<and>
    mqlog_write s lg' errno p = Some (s, lg', ELLOCK) \<and> mqlog_read s lg' errno off' fr = Some (s, lg', ELLOCK, fr)"
proof -
  let ?lg = "lg\<lparr>lg_lock := True, lg_index := Some (t\<lparr>allocs := bs\<rparr>)\<rparr>"
  have "mqlog_read s lg errno off fr = Some (s, ?lg, ELALLC, fr)"
    using assms mutex_ok(1) [OF assms(1,2)]
    by (simp add: mqlog_read_def mqlog_tryread_def mbptree_leaf_floor_def alloc_outcome_def EBUSY_def ELALLC_def)
  moreover have "lg_lock ?lg" by simp
  ultimately show ?thesis using mutex_busy [of ?lg s] assms(1,5) by blast
qed

theorem mqlog_read_keeps_mutex_witness:
  "\<exists>s lg t lg'. demo_log = Some (s, lg) \<and> lg_index lg = Some t \<and>
     mqlog_read s (lg\<lparr>lg_index := Some (t\<lparr>allocs := [False]\<rparr>)\<rparr>) 0 0 null_frame = Some (s, lg', ELALLC, null_frame) \<and>
     mqlog_write s lg' 0 [1] = Some (s, lg', ELLOCK)"
proof -
  obtain s lg where l: "demo_log = Some (s, lg)" "log_ok s lg []" "lg_dir lg = ''d''" "lg_size lg = 1024" "lg_flags lg = 0"
    "page_size s = 256" "map_base s = map_base demo_os" by (rule demo_log_ok)
  then obtain t where o: "outcomes s = []" "\<not> lg_lock lg" "lg_index lg = Some t"
    by (auto simp: log_ok_def log_rep_def log_core_def log_env_def)
  with mqlog_read_keeps_mutex [of s "lg\<lparr>lg_index := Some (t\<lparr>allocs := [False]\<rparr>)\<rparr>" "t\<lparr>allocs := [False]\<rparr>" "[]" "[1]" 0 0 null_frame 0]
  obtain lg' where "mqlog_read s (lg\<lparr>lg_index := Some (t\<lparr>allocs := [False]\<rparr>)\<rparr>) 0 0 null_frame = Some (s, lg', ELALLC, null_frame)"
    "mqlog_write s lg' 0 [1] = Some (s, lg', ELLOCK)" by auto
  with l(1) o(3) show ?thesis by blast
qed


section \<open>Payloads larger than a segment\<close>

text \<open>The files of a segment that got an end mark before any frame.\<close>

definition spoiled :: "os \<Rightarrow> mqlog \<Rightarrow> u64 \<Rightarrow> bool" where
  "spoiled s lg w \<longleftrightarrow> (let d = data_path (lg_dir lg) w; x = index_path (lg_dir lg) w in
     map_option fsize (files s d) = Some (unat (lg_size lg)) \<and> unat (lg_size lg) \<le> length (bytes_of s d) \<and>
     map_option fsize (files s x) = Some (index_len (u32_of_size (lg_size lg))) \<and>
     index_len (u32_of_size (lg_size lg)) \<le> length (bytes_of s x) \<and>
     ld_u16 s d 0 = Some HEADER_FLAGS_EOS \<and> ld_u32 s d 4 = Some 12 \<and> ld_u64 s x 0 = Some 0 \<and> ld_u64 s x 8 = Some 0)"

lemma loads_prefix:
  assumes "files s p = Some f" "files s' p = Some f'" "n \<le> length (fbytes f)" "take n (fbytes f') = take n (fbytes f)" "off + k \<le> n"
  shows "mem_load s' p off k = mem_load s p off k"
proof -
  have "n \<le> length (fbytes f')" using assms(3,4) by (metis length_take min.absorb_iff2 min_def)
  moreover have "slice (fbytes f') off k = slice (fbytes f) off k"
    using slice_take [OF assms(5), of "fbytes f'"] slice_take [OF assms(5), of "fbytes f"] assms(4) by simp
  ultimately show ?thesis using assms by (simp add: mem_load_def)
qed

lemma spoiled_keep:
  assumes sp: "spoiled s lg w" and big: "192 \<le> unat (lg_size lg)" "unat (lg_size lg) < 2 ^ 32"
    and fd: "files s' (data_path (lg_dir lg) w) = Some fd'" "fsize fd' = unat (lg_size lg)"
      "unat (lg_size lg) \<le> length (fbytes fd')"
      "take (unat (lg_size lg)) (fbytes fd') = take (unat (lg_size lg)) (bytes_of s (data_path (lg_dir lg) w))"
    and fi: "files s' (index_path (lg_dir lg) w) = Some fi'" "fsize fi' = index_len (u32_of_size (lg_size lg))"
      "index_len (u32_of_size (lg_size lg)) \<le> length (fbytes fi')"
      "take (index_len (u32_of_size (lg_size lg))) (fbytes fi') =
       take (index_len (u32_of_size (lg_size lg))) (bytes_of s (index_path (lg_dir lg) w))"
    and lg': "lg_dir lg' = lg_dir lg" "lg_size lg' = lg_size lg"
  shows "spoiled s' lg' w"
proof -
  let ?d = "data_path (lg_dir lg) w" and ?x = "index_path (lg_dir lg) w" and ?n = "index_len (u32_of_size (lg_size lg))"
  have "16 \<le> (unat (lg_size lg) + 1) div 12" using big(1) by presburger
  then have n: "16 \<le> ?n" using unat_u32_of_size [OF big(2)] by (simp add: index_len_def)
  from sp obtain fd f where f: "files s ?d = Some fd" "files s ?x = Some f"
    and l: "unat (lg_size lg) \<le> length (fbytes fd)" "?n \<le> length (fbytes f)" by (auto simp: spoiled_def bytes_of_def Let_def)
  have D: "mem_load s' ?d off k = mem_load s ?d off k" if "off + k \<le> 12" for off k
    using that big(1) f l fd by (intro loads_prefix [OF f(1) fd(1) l(1)]) (simp_all add: bytes_of_def)
  have X: "mem_load s' ?x off k = mem_load s ?x off k" if "off + k \<le> 16" for off k
    using that n f l fi by (intro loads_prefix [OF f(2) fi(1) l(2)]) (simp_all add: bytes_of_def)
  show ?thesis using sp fd fi lg' D [of 0 2] D [of 4 4] X [of 0 8] X [of 8 8]
    by (simp add: spoiled_def bytes_of_def ld_u16_def ld_u32_def ld_u64_def Let_def)
qed

lemma spoiled_create:
  assumes env: "log_env s lg" and sp: "spoiled s lg w" and big: "192 \<le> unat (lg_size lg)"
  shows "\<exists>s' g. create_segment s lg w =
      Some (s', lg\<lparr>lg_sgms := (lg_sgms lg)(lg_next lg \<mapsto> g), lg_next := Suc (lg_next lg)\<rparr>, 0, lg_next lg) \<and>
    (\<forall>p. segment_write s' g p = Some (s', g, ELEOS)) \<and> spoiled s' lg w \<and> sg_buffer g = data_path (lg_dir lg) w \<and>
    sg_index g = index_path (lg_dir lg) w \<and> dirs s' = dirs s \<and> outcomes s' = outcomes s \<and> page_size s' = page_size s \<and>
    (\<forall>q. q \<notin> {data_path (lg_dir lg) w, index_path (lg_dir lg) w} \<longrightarrow> files s' q = files s q)"
proof -
  let ?d = "data_path (lg_dir lg) w" and ?x = "index_path (lg_dir lg) w" and ?sz = "u32_of_size (lg_size lg)"
  let ?fl = "if lg_flags lg AND MQLOG_RDCMT = MQLOG_RDCMT then SGM_RDCMT else SGM_RDDRT"
  note E = log_env_ok [OF env]
  have sz: "unat (lg_size lg) < 2 ^ 32" and dirs: "ensured s (lg_dir lg) = s" using env by (simp_all add: log_env_def ensured_def)
  have "16 \<le> (unat (lg_size lg) + 1) div 12" using big by presburger
  then have n: "16 \<le> index_len ?sz" using E(2) by (simp add: index_len_def)
  from sp obtain fd fi where f: "files s ?d = Some fd" "files s ?x = Some fi" "fsize fd = unat (lg_size lg)" "fsize fi = index_len ?sz"
    and l: "unat (lg_size lg) \<le> length (fbytes fd)" "index_len ?sz \<le> length (fbytes fi)" by (auto simp: spoiled_def bytes_of_def Let_def)
  let ?s = "mapped_state s (lg_dir lg) w fd fi"
  have op: "opened_file s (unat ?sz) (files s ?d) = Some fd" "opened_file s (index_len ?sz) (files s ?x) = Some fi"
    using f E(2) big n by (simp_all add: opened_file_def)
  have sp': "spoiled ?s lg w"
    by (rule spoiled_keep [OF sp big sz, of ?s "map_file s fd" "map_file s fi"]) (use f l in \<open>simp_all add: mapped_state_def map_file_def bytes_of_def\<close>)
  then have L: "ld_u16 ?s ?d 0 = Some HEADER_FLAGS_EOS" "ld_u32 ?s ?d 4 = Some 12" "ld_u64 ?s ?x 0 = Some 0" "ld_u64 ?s ?x 8 = Some 0"
    by (simp_all add: spoiled_def Let_def)
  have h: "prot_is_header ?s ?d 0 = Some 1" using L(1) by (simp add: prot_is_header_def)
  define v where "v = \<lparr>op_index = word_of_nat (Suc 0), op_data = u32_of_size (0 + size_of_u32 12)\<rparr>"
  have "find_w_loop ?s ?d ?x (index_len ?sz div 8) (Suc 0) 0 = Some (0, Some v)"
    using L n by (subst find_w_loop.simps) (simp add: v_def)
  then have "find_w_loop ?s ?d ?x (index_len ?sz div 8) 0 0 = Some (0, Some v)"
    using L h n by (subst find_w_loop.simps) simp
  then have open_run: "segment_open s (lg_dir lg) w ?sz ?fl = Some (?s, 0, Some (opened_segment (lg_dir lg) w ?sz ?fl v))"
    using segment_open_scan [OF E(1) op] by simp
  let ?g = "opened_segment (lg_dir lg) w ?sz ?fl v"
  have "unat (op_data v) = 12" by (simp add: v_def u32_of_size_def size_of_u32_def)
  then have "marked_eos ?s ?g = Some True"
    using L(1) by (simp add: marked_eos_def opened_segment_def word_less_nat_alt unat_sub_if' Let_def)
  then have "\<forall>p. segment_write ?s ?g p = Some (?s, ?g, ELEOS)" by (simp add: segment_write_def)
  then show ?thesis using open_run sp' dirs
    by (intro exI [of _ ?s] exI [of _ ?g])
      (simp add: create_segment_def open_segment_def alloc_segment_def, simp add: opened_segment_def mapped_state_def)
qed


lemma eos_spoiled:
  assumes ok: "seg_ok s (lg_dir lg) g []" and g: "sg_base_offset g = w" "sg_size g = u32_of_size (lg_size lg)"
    and eos: "seg_eos s' g' []" and g': "g' = g\<lparr>sg_w := sg_w g'\<rparr>" and s': "s' = set_bytes s (sg_buffer g) bs"
    and big: "192 \<le> unat (lg_size lg)" "unat (lg_size lg) < 2 ^ 32"
  shows "spoiled s' lg w"
proof -
  let ?d = "data_path (lg_dir lg) w" and ?x = "index_path (lg_dir lg) w" and ?n = "index_len (u32_of_size (lg_size lg))"
  have "seg_backed s (lg_dir lg) g []" using ok by (simp add: seg_ok_def)
  then obtain fd fi where f: "files s ?d = Some fd" "files s ?x = Some fi" "sg_buffer g = ?d" "sg_index g = ?x"
    "fsize fd = unat (lg_size lg)" "fsize fi = ?n" "?n \<le> length (fbytes fi)" "\<forall>i < length (fbytes fi). fbytes fi ! i = 0"
    using unat_u32_of_size [OF big(2)] g by (auto elim!: seg_backedE)
  have "16 \<le> (unat (lg_size lg) + 1) div 12" using big(1) by presburger
  then have n: "16 \<le> ?n" using unat_u32_of_size [OF big(2)] by (simp add: index_len_def)
  have keep: "sg_buffer g' = ?d" "sg_size g' = sg_size g" by (subst g', simp add: f)+
  from eos obtain fd' where fd': "files s' ?d = Some fd'" "length (fbytes fd') = unat (lg_size lg)"
    using keep g(2) unat_u32_of_size [OF big(2)] by (auto simp: seg_eos_def elim!: seg_layoutE)
  let ?h = "header_of_bytes (slice (fbytes fd') 0 12)"
  have h: "hflags ?h = HEADER_FLAGS_EOS" "hsize ?h = 12" using eos keep fd' by (simp_all add: seg_eos_def bytes_of_def Let_def)
  have "header_bytes ?h = slice (fbytes fd') 0 12" using fd'(2) big(1) by (intro header_bytes_of_bytes) (simp add: length_slice)
  from header_slice [OF this [symmetric] _ fd'(1)] h fd'(2) big(1)
  have D: "ld_u16 s' ?d 0 = Some HEADER_FLAGS_EOS" "ld_u32 s' ?d 4 = Some 12" by simp_all
  have fi': "files s' ?x = Some fi" "fsize fd' = unat (lg_size lg)" using s' f fd' by auto
  have "slice (fbytes fi) k 8 = zeros 8" if "k \<le> 8" for k
    using that f(7,8) n by (auto simp: slice_def list_eq_iff_nth_eq)
  then have X: "ld_u64 s' ?x 0 = Some 0" "ld_u64 s' ?x 8 = Some 0" using fi' f(7) n by (simp_all add: ld_u64_eq)
  show ?thesis using D X fi' fd' f(6,7) by (simp add: spoiled_def bytes_of_def Let_def)
qed

text \<open>A log that takes no more payloads: its last segment is at its end, and the files of the
  next one are spoiled.\<close>

definition poisoned :: "os \<Rightarrow> mqlog \<Rightarrow> parts \<Rightarrow> bool" where
  "poisoned s lg xs \<longleftrightarrow> log_core s lg xs \<and> 192 \<le> unat (lg_size lg) \<and> spoiled s lg (word_of_nat (length (contents xs))) \<and>
     (\<forall>ys a ps g. xs = ys @ [(a, ps)] \<and> lg_sgms lg a = Some g \<longrightarrow> ended s g ps)"

lemma core_keep:
  assumes core: "log_core s lg xs"
    and fs: "\<And>q. q \<notin> {data_path (lg_dir lg) (word_of_nat (length (contents xs))),
      index_path (lg_dir lg) (word_of_nat (length (contents xs)))} \<Longrightarrow> files s' q = files s q"
    and s': "page_size s' = page_size s" "dirs s' = dirs s" "outcomes s' = []"
    and lg': "lg_dir lg' = lg_dir lg" "lg_size lg' = lg_size lg" "lg_flags lg' = lg_flags lg" "lg_index lg' = lg_index lg"
      "lg_next lg \<le> lg_next lg'" "\<forall>a. a < lg_next lg \<longrightarrow> lg_sgms lg' a = lg_sgms lg a"
  shows "log_core s' lg' xs"
    and "xs = ys @ [(a, ps)] \<Longrightarrow> lg_sgms lg' a = Some g \<Longrightarrow> ended s' g ps = ended s g ps"
proof -
  let ?n = "length (contents xs)"
  have p: "parts_ok s lg 0 xs" and lt: "\<forall>a \<in> fst ` set xs. a < lg_next lg" and len: "?n < 2 ^ 64"
    using core by (auto simp: log_core_def)
  have sr: "same_range lg 0 ?n s s'" using fs s'(1) len by (intro same_range_one [where n = ?n]) auto
  have "parts_ok s' lg' 0 xs" by (rule parts_ok_frame [OF p, of s']) (use sr lg' lt in auto)
  then show "log_core s' lg' xs" using core lg' s' by (auto simp: log_core_def log_env_def)
  assume xs: "xs = ys @ [(a, ps)]" and "lg_sgms lg' a = Some g"
  then have g: "lg_sgms lg a = Some g" using lt lg'(6) by auto
  have "part_ok s lg (length (contents ys)) a ps" using p xs by (simp add: parts_ok_append)
  then have G: "sg_base_offset g = word_of_nat (length (contents ys))" "seg_held s (lg_dir lg) g ps" "ps \<noteq> []"
    using g by (auto elim!: part_okE)
  then show "ended s' g ps = ended s g ps"
    using sr xs seg_heldD(5,6) [OF G(2)] by (intro ended_cong) (simp_all add: same_range_def)
qed

lemma flushed_trans: "flushed f g \<Longrightarrow> flushed g h \<Longrightarrow> flushed f h"
  unfolding flushed_def by metis

lemma same_bytes_trans: "same_bytes s s1 \<Longrightarrow> same_bytes s1 s2 \<Longrightarrow> same_bytes s s2"
  unfolding same_bytes_def using flushed_trans by (auto intro: option.rel_transp [unfolded transp_def, rule_format])

lemma close_keeps_bytes:
  assumes "segment_close s g = (s', r, rc)" "outcomes s = []"
  shows "same_bytes s s'" "outcomes s' = []" "\<forall>q. q \<notin> {sg_buffer g, sg_index g} \<longrightarrow> files s' q = files s q"
proof -
  obtain g' rc' where run: "segment_sync s g = (s', g', rc')"
    using assms(1) by (auto simp: segment_close_def split: prod.splits if_splits)
  then show "\<forall>q. q \<notin> {sg_buffer g, sg_index g} \<longrightarrow> files s' q = files s q" using segment_sync_files by blast
  have m: "same_bytes t (snd (sys_msync t p a n)) \<and> outcomes (snd (sys_msync t p a n)) = []" if "outcomes t = []" for t p a n
    using that by (auto simp: sys_msync_def same_bytes_def Let_def split: option.splits)
  have d: "same_bytes t u \<and> outcomes u = []" if "sync_data t g1 = (u, g2, k)" "outcomes t = []" for t u g1 g2 k
    using that m [OF that(2)] by (auto simp: sync_data_def Let_def split: prod.splits if_splits) (metis snd_conv)+
  have i: "same_bytes t u \<and> outcomes u = []" if "sync_index t g1 = (u, g2, k)" "outcomes t = []" for t u g1 g2 k
    using that m [OF that(2)] by (auto simp: sync_index_def Let_def split: prod.splits if_splits) (metis snd_conv)+
  obtain s1 g1 k where 1: "sync_data s g = (s1, g1, k)" by (metis prod.exhaust)
  have "same_bytes s s' \<and> outcomes s' = []"
    using run 1 d [OF 1 assms(2)] i [of s1 g1] same_bytes_trans by (auto simp: segment_sync_def split: if_splits)
  then show "same_bytes s s'" "outcomes s' = []" by simp_all
qed


lemma spoiled_same_bytes:
  assumes sp: "spoiled s lg w" and sb: "same_bytes s s'" and lg': "lg_dir lg' = lg_dir lg" "lg_size lg' = lg_size lg"
  shows "spoiled s' lg' w"
proof -
  have F: "map_option fsize (files s' q) = map_option fsize (files s q)" "bytes_of s' q = bytes_of s q"
    "mem_load s' q off k = mem_load s q off k" for q off k
  proof -
    have "rel_option flushed (files s q) (files s' q)" using sb by (simp add: same_bytes_def)
    then show "map_option fsize (files s' q) = map_option fsize (files s q)" "bytes_of s' q = bytes_of s q"
      "mem_load s' q off k = mem_load s q off k"
      by (cases "files s q"; cases "files s' q"; simp add: flushed_def bytes_of_def mem_load_def)+
  qed
  show ?thesis using sp lg' by (simp add: spoiled_def F ld_u16_def ld_u32_def ld_u64_def)
qed

lemma close_spoiled:
  assumes core: "log_core s lg xs" and en: "\<forall>ys a ps g. xs = ys @ [(a, ps)] \<and> lg_sgms lg a = Some g \<longrightarrow> ended s g ps"
    and big: "192 \<le> unat (lg_size lg)" and sp: "spoiled s1 lg (word_of_nat (length (contents xs)))"
    and s1: "page_size s1 = page_size s" "dirs s1 = dirs s" "outcomes s1 = []"
      "\<forall>q. q \<notin> {data_path (lg_dir lg) (word_of_nat (length (contents xs))),
        index_path (lg_dir lg) (word_of_nat (length (contents xs)))} \<longrightarrow> files s1 q = files s q"
    and g: "sg_buffer g = data_path (lg_dir lg) (word_of_nat (length (contents xs)))"
      "sg_index g = index_path (lg_dir lg) (word_of_nat (length (contents xs)))"
  shows "\<exists>s2 lg2 rc. close_segment s1 (lg\<lparr>lg_next := Suc (lg_next lg), lg_sgms := (lg_sgms lg)(lg_next lg \<mapsto> g)\<rparr>) (lg_next lg) =
      Some (s2, lg2, rc) \<and> poisoned s2 lg2 xs \<and> same_log lg lg2"
proof -
  obtain s2 r rc where c: "segment_close s1 g = (s2, r, rc)" by (metis prod.exhaust)
  note K = close_keeps_bytes [OF c s1(3)]
  let ?lg = "lg\<lparr>lg_next := Suc (lg_next lg), lg_sgms := (lg_sgms lg)(lg_next lg := r)\<rparr>"
  have pd: "page_size s2 = page_size s" "dirs s2 = dirs s" using K(1) s1 by (simp_all add: same_bytes_def)
  have fs: "files s2 q = files s q" if "q \<notin> {data_path (lg_dir lg) (word_of_nat (length (contents xs))),
      index_path (lg_dir lg) (word_of_nat (length (contents xs)))}" for q
    using K(3) s1(4) that g by simp
  note C = core_keep [OF core fs pd K(2), of ?lg]
  have en2: "ended s2 g' ps" if x: "xs = ys @ [(a, ps)]" "lg_sgms ?lg a = Some g'" for ys a ps g'
  proof -
    have "a < lg_next lg" using core x(1) by (simp add: log_core_def)
    then have "lg_sgms lg a = Some g'" using x(2) by simp
    then show ?thesis using C(2) [of ys a ps g'] x en by simp
  qed
  have "spoiled s2 ?lg (word_of_nat (length (contents xs)))" by (rule spoiled_same_bytes [OF sp K(1)]) simp_all
  then have "poisoned s2 ?lg xs" using C(1) big en2 unfolding poisoned_def by simp
  then show ?thesis using c by (auto simp: close_segment_def same_log_def)
qed

text \<open>Every write to such a log fails and leaves it as bad as it was.\<close>

lemma poisoned_trywrite:
  assumes ps: "poisoned s lg xs"
  shows "\<exists>s' lg'. mqlog_trywrite s lg p = Some (s', lg', ELNOWCP) \<and> poisoned s' lg' xs \<and> same_log lg lg'"
proof -
  have core: "log_core s lg xs" and big: "192 \<le> unat (lg_size lg)" and sp: "spoiled s lg (word_of_nat (length (contents xs)))"
    and en: "\<forall>ys a ps g. xs = ys @ [(a, ps)] \<and> lg_sgms lg a = Some g \<longrightarrow> ended s g ps"
    using ps unfolding poisoned_def by blast+
  have env: "log_env s lg" using core by (simp add: log_core_def)
  from spoiled_create [OF env sp big] obtain s1 g where
    c: "create_segment s lg (word_of_nat (length (contents xs))) =
        Some (s1, lg\<lparr>lg_sgms := (lg_sgms lg)(lg_next lg \<mapsto> g), lg_next := Suc (lg_next lg)\<rparr>, 0, lg_next lg)"
      "\<forall>p. segment_write s1 g p = Some (s1, g, ELEOS)" "spoiled s1 lg (word_of_nat (length (contents xs)))"
      "sg_buffer g = data_path (lg_dir lg) (word_of_nat (length (contents xs)))"
      "sg_index g = index_path (lg_dir lg) (word_of_nat (length (contents xs)))"
      "dirs s1 = dirs s" "outcomes s1 = outcomes s" "page_size s1 = page_size s"
      "\<forall>q. q \<notin> {data_path (lg_dir lg) (word_of_nat (length (contents xs))),
        index_path (lg_dir lg) (word_of_nat (length (contents xs)))} \<longrightarrow> files s1 q = files s q" by blast
  have out: "outcomes s1 = []" using c(7) env by (simp add: log_env_def)
  from close_spoiled [OF core en big c(3,8,6) out c(9,4,5)] obtain s2 lg2 rc where
    f: "close_segment s1 (lg\<lparr>lg_next := Suc (lg_next lg), lg_sgms := (lg_sgms lg)(lg_next lg \<mapsto> g)\<rparr>) (lg_next lg) = Some (s2, lg2, rc)"
      "poisoned s2 lg2 xs" "same_log lg lg2" by blast
  have w1: "write_segment s1 (lg\<lparr>lg_sgms := (lg_sgms lg)(lg_next lg \<mapsto> g), lg_next := Suc (lg_next lg)\<rparr>) (lg_next lg) p =
      Some (s1, lg\<lparr>lg_next := Suc (lg_next lg), lg_sgms := (lg_sgms lg)(lg_next lg \<mapsto> g)\<rparr>, ELEOS)"
    using c(2) by (simp add: write_segment_def)
  show ?thesis
  proof (cases xs rule: rev_cases)
    case Nil
    from core obtain t where t: "lg_index lg = Some t" "index_rep t []" by (auto simp: log_core_def Nil)
    show ?thesis using c(1) w1 f t ix.last_val [OF t(2)] Nil by (auto simp: mqlog_trywrite_def)
  next
    case (snoc ys x)
    obtain a pl where x: "x = (a, pl)" by (cases x)
    have xs: "xs = ys @ [(a, pl)]" using snoc x by simp
    from core [unfolded xs] obtain t h where G: "lg_index lg = Some t" "mbptree_last_value t = Some (0, Some a)" "lg_sgms lg a = Some h"
      "sg_base_offset h = word_of_nat (length (contents ys))" "sg_size h = u32_of_size (lg_size lg)"
      "sg_flags h AND SGM_RDCMT = lg_flags lg AND MQLOG_RDCMT" "seg_held s (lg_dir lg) h pl" "pl \<noteq> []" by (rule core_last)
    have "segment_write s h p = Some (s, h, ELEOS)" using en xs G(3) ended_write by blast
    moreover have "lg\<lparr>lg_sgms := (lg_sgms lg)(a \<mapsto> h)\<rparr> = lg" using G(3) by (cases lg) (auto simp: fun_upd_idem)
    ultimately have w: "write_segment s lg a p = Some (s, lg, ELEOS)" using G(3) by (simp add: write_segment_def)
    have "segment_write_offset h = word_of_nat (length (contents xs))"
      using held_write_offset [OF G(7,4)] core xs by (simp add: log_core_def)
    then show ?thesis using c(1) w1 f G(1-3) w by (auto simp: mqlog_trywrite_def)
  qed
qed


lemma poisoned_lock [simp]: "poisoned s (lg\<lparr>lg_lock := l\<rparr>) xs = poisoned s lg xs"
  by (simp add: poisoned_def spoiled_def)

lemma poisoned_write:
  assumes ps: "poisoned s lg xs" and nl: "\<not> lg_lock lg" and ne: "p \<noteq> []"
  shows "\<exists>s' lg'. mqlog_write s lg e p = Some (s', lg', ELNOWCP) \<and> poisoned s' lg' xs \<and> \<not> lg_lock lg'"
proof -
  have o: "outcomes s = []" if "poisoned s lg xs" for s lg using that by (simp add: poisoned_def log_core_def log_env_def)
  from poisoned_trywrite [of s "lg\<lparr>lg_lock := True\<rparr>" xs p] ps obtain s' lg' where
    w: "mqlog_trywrite s (lg\<lparr>lg_lock := True\<rparr>) p = Some (s', lg', ELNOWCP)" "poisoned s' lg' xs" by auto
  show ?thesis
    using w ne mutex_ok(1) [OF o [OF ps] nl] mutex_ok(2) [OF o [OF w(2)], of lg']
    by (intro exI [of _ s'] exI [of _ "lg'\<lparr>lg_lock := False\<rparr>"]) (simp add: mqlog_write_def EBUSY_def)
qed

text \<open>A payload that does not fit into any segment spoils the next segment.\<close>

lemma spoil_next:
  assumes core: "log_core s lg xs" and nf: "no_files s lg (length (contents xs))" and big: "192 \<le> unat (lg_size lg)"
    and over: "unat (lg_size lg) < length p + 24" "length p + 24 < 2 ^ 64"
    and en: "\<forall>ys a ps g. xs = ys @ [(a, ps)] \<and> lg_sgms lg a = Some g \<longrightarrow> ended s g ps"
  shows "\<exists>s1 lg1 s2 lg2 s3 lg3 rc. create_segment s lg (word_of_nat (length (contents xs))) = Some (s1, lg1, 0, lg_next lg) \<and>
    write_segment s1 lg1 (lg_next lg) p = Some (s2, lg2, ELEOS) \<and> close_segment s2 lg2 (lg_next lg) = Some (s3, lg3, rc) \<and>
    poisoned s3 lg3 xs \<and> same_log lg lg3"
proof -
  let ?w = "word_of_nat (length (contents xs)) :: u64"
  have env: "log_env s lg" and len: "length (contents xs) < 2 ^ 64" using core by (simp_all add: log_core_def)
  have sz: "unat (lg_size lg) < 2 ^ 32" using env by (simp add: log_env_def)
  have none: "files s (data_path (lg_dir lg) ?w) = None" "files s (index_path (lg_dir lg) ?w) = None"
    using nf len by (simp_all add: no_files_def)
  from create_segment_ok [OF env none] obtain s1 g where
    c: "create_segment s lg ?w = Some (s1, lg\<lparr>lg_sgms := (lg_sgms lg)(lg_next lg \<mapsto> g), lg_next := Suc (lg_next lg)\<rparr>, 0, lg_next lg)"
      "seg_ok s1 (lg_dir lg) g []" "sg_base_offset g = ?w" "sg_size g = u32_of_size (lg_size lg)" "log_env s1 lg" "dirs s1 = dirs s"
      "page_size s1 = page_size s" "\<forall>q. q \<notin> {data_path (lg_dir lg) ?w, index_path (lg_dir lg) ?w} \<longrightarrow> files s1 q = files s q" by blast
  have rep: "seg_rep s1 g []" by (rule seg_okD [OF c(2)])
  have "\<not> fits g [] p" using over(1) c(4) log_env_ok(2) [OF env] by (simp add: fits_def)
  from segment_write_eos [OF rep _ this over(2)] obtain s2 g2 X where
    w: "segment_write s1 g p = Some (s2, g2, ELEOS)" "seg_eos s2 g2 []" "same_but {sg_buffer g} s1 s2" "g2 = g\<lparr>sg_w := sg_w g2\<rparr>"
      "s2 = set_bytes s1 (sg_buffer g) (splice (bytes_of s1 (sg_buffer g)) (length (frames [])) X)" by (auto simp: looks_eos_def)
  have sp: "spoiled s2 lg ?w" by (rule eos_spoiled [OF c(2-4) w(2,4,5) big sz])
  note H = seg_heldD [OF seg_ok_held [OF c(2)]]
  have g2: "sg_buffer g2 = data_path (lg_dir lg) ?w" "sg_index g2 = index_path (lg_dir lg) ?w"
    by (subst w(4), simp add: H(5,6) c(3))+
  have fs: "\<forall>q. q \<notin> {data_path (lg_dir lg) ?w, index_path (lg_dir lg) ?w} \<longrightarrow> files s2 q = files s q"
    using w(3) c(3,8) H(5) by (simp add: same_but_def)
  have s2: "page_size s2 = page_size s" "dirs s2 = dirs s" "outcomes s2 = []"
    using w(3) c(5-7) by (simp_all add: same_but_def log_env_def)
  from close_spoiled [OF core en big sp s2 fs g2] c(1) w(1) show ?thesis by (auto simp: write_segment_def)
qed

lemma oversized_trywrite:
  assumes core: "log_core s lg xs" and nf: "no_files s lg (length (contents xs))" and big: "192 \<le> unat (lg_size lg)"
    and over: "unat (lg_size lg) < length p + 24" "length p + 24 < 2 ^ 64"
  shows "\<exists>s' lg'. mqlog_trywrite s lg p = Some (s', lg', ELNOWCP) \<and> poisoned s' lg' xs \<and> same_log lg lg'"
proof (cases xs rule: rev_cases)
  case Nil
  from core obtain t where t: "lg_index lg = Some t" "index_rep t []" by (auto simp: log_core_def Nil)
  from spoil_next [OF core nf big over] Nil t ix.last_val [OF t(2)] show ?thesis by (auto simp: mqlog_trywrite_def)
next
  case (snoc ys x)
  obtain a pl where x: "x = (a, pl)" by (cases x)
  have xs: "xs = ys @ [(a, pl)]" using snoc x by simp
  from core [unfolded xs] obtain t h where G: "lg_index lg = Some t" "mbptree_last_value t = Some (0, Some a)" "lg_sgms lg a = Some h"
    "sg_base_offset h = word_of_nat (length (contents ys))" "sg_size h = u32_of_size (lg_size lg)"
    "sg_flags h AND SGM_RDCMT = lg_flags lg AND MQLOG_RDCMT" "seg_held s (lg_dir lg) h pl" "pl \<noteq> []" by (rule core_last)
  have "log_env s lg" using core by (simp add: log_core_def)
  then have "unat (sg_size h) = unat (lg_size lg)" using G(5) log_env_ok(2) by simp
  then have "\<not> takes s h pl p" using over(1) by (simp add: takes_def fits_def)
  from write_last_end [OF core [unfolded xs] G(3) this nf [unfolded xs] over(2)] obtain s1 h1 where
    W: "write_segment s lg a p = Some (s1, lg\<lparr>lg_sgms := (lg_sgms lg)(a \<mapsto> h1)\<rparr>, ELEOS)"
      "log_core s1 (lg\<lparr>lg_sgms := (lg_sgms lg)(a \<mapsto> h1)\<rparr>) xs"
      "no_files s1 (lg\<lparr>lg_sgms := (lg_sgms lg)(a \<mapsto> h1)\<rparr>) (length (contents xs))"
      "segment_write_offset h1 = word_of_nat (length (contents xs))" "ended s1 h1 pl" unfolding xs by blast
  have en: "\<forall>ys a' ps g. xs = ys @ [(a', ps)] \<and> lg_sgms (lg\<lparr>lg_sgms := (lg_sgms lg)(a \<mapsto> h1)\<rparr>) a' = Some g \<longrightarrow> ended s1 g ps"
    using xs W(5) by auto
  have big': "192 \<le> unat (lg_size (lg\<lparr>lg_sgms := (lg_sgms lg)(a \<mapsto> h1)\<rparr>))" using big by simp
  from spoil_next [OF W(2,3) big' _ over(2) en] over(1) G W(1,4) show ?thesis
    by (auto simp: mqlog_trywrite_def same_log_def)
qed



end
