(* ===== verification/Mqlog_Durability.thy ===== *)
theory Mqlog_Durability
  imports Mqlog_Lifecycle
begin

text \<open>
  What a power failure leaves of a log (\<^verbatim>\<open>mqlog_sync\<close> in \<^verbatim>\<open>src/src/mqlog.c\<close>): what \<open>mqlog_sync\<close> reports
  as synchronised survives and is there when the directory is opened again, as far as it is in the last segment.
\<close>

section \<open>Segments on stable storage\<close>

text \<open>Every frame of these parts has been synchronised.\<close>

definition on_stable :: "os \<Rightarrow> mqlog \<Rightarrow> parts \<Rightarrow> bool" where
  "on_stable s lg xs \<longleftrightarrow> (\<forall>ap \<in> set xs. case lg_sgms lg (fst ap) of
     Some g \<Rightarrow> synced s g \<and> length (frames (snd ap)) \<le> unat (op_data (sg_s g)) \<and> length (snd ap) \<le> unat (op_index (sg_s g))
   | None \<Rightarrow> False)"

lemma on_stable_append [simp]: "on_stable s lg (xs @ ys) \<longleftrightarrow> on_stable s lg xs \<and> on_stable s lg ys"
  by (auto simp: on_stable_def)

lemma crash_stored_part:
  assumes held: "seg_held s dir g ps" and ne: "ps \<noteq> []" and room: "8 * length ps + 8 \<le> index_len (sg_size g)"
    and sy: "synced s g" "length (frames ps) \<le> unat (op_data (sg_s g))" "length ps \<le> unat (op_index (sg_s g))"
    and cr: "crash s s'" and kp: "entry_kept s s' (data_path dir (sg_base_offset g))" "entry_kept s s' (index_path dir (sg_base_offset g))"
    and pg: "0 < page_size s"
  shows "stored_part s' dir (sg_size g) (sg_base_offset g) ps"
proof -
  note H = seg_heldD [OF held]
  have st: "seg_stored s' dir (sg_base_offset g) (sg_size g) ps"
    by (rule crash_recovers_stored [OF H(1,3) sy room cr kp pg])
  from H(3) obtain fd fi where f: "files s (data_path dir (sg_base_offset g)) = Some fd"
    "files s (index_path dir (sg_base_offset g)) = Some fi" and sz: "fsize fd = unat (sg_size g)" "fsize fi = index_len (sg_size g)"
    and l: "fsize fi \<le> length (fbytes fi)"
    and z: "\<forall>i. 8 * length ps \<le> i \<and> i < length (fbytes fi) \<longrightarrow> fbytes fi ! i = 0"
      "\<forall>i. 8 * length ps \<le> i \<and> i < fsize fi \<longrightarrow> fdisk fi ! i = 0" by (rule seg_backedE)
  from crash_fileD [OF cr kp(1) f(1)] crash_fileD [OF cr kp(2) f(2)] obtain gd gi where
    g: "files s' (data_path dir (sg_base_offset g)) = Some gd" "files s' (index_path dir (sg_base_offset g)) = Some gi"
    and c: "crash_file s fd gd" "crash_file s fi gi" by blast
  have len: "length (fdisk f') = fsize f" "fsize f' = fsize f" if "crash_file s f f'" for f f'
    using that page_round_ge [OF pg, of "fsize f"] by (auto simp: crash_file_def)
  have "fdisk gi ! i = 0" if i: "8 * length ps \<le> i" "i < fsize gi" for i
  proof -
    have "fbytes gi ! i = fdisk fi ! i \<or> fbytes gi ! i = fbytes fi ! i" "fdisk gi = take (fsize fi) (fbytes gi)"
      using c(2) i by (auto simp: crash_file_def)
    moreover have "i < fsize fi" using i(2) len(2) [OF c(2)] by simp
    ultimately show ?thesis using z i(1) l by auto
  qed
  then show ?thesis using st ne g sz len [OF c(1)] len [OF c(2)] by (simp add: stored_part_def)
qed

lemma crash_full_part:
  assumes held: "seg_held s dir g ps" and ne: "ps \<noteq> []" and full: "\<not> has_room (sg_size g) ps"
    and sy: "synced s g" "length (frames ps) \<le> unat (op_data (sg_s g))" "length ps \<le> unat (op_index (sg_s g))"
    and cr: "crash s s'" and kp: "entry_kept s s' (data_path dir (sg_base_offset g))" "entry_kept s s' (index_path dir (sg_base_offset g))"
    and pg: "0 < page_size s"
  shows "full_part s' dir (sg_size g) (sg_base_offset g) ps"
proof -
  let ?d = "data_path dir (sg_base_offset g)" and ?x = "index_path dir (sg_base_offset g)" and ?n = "index_len (sg_size g) div 8 * 8"
  note H = seg_heldD [OF held]
  from H(3) obtain fd fi where f: "files s ?d = Some fd" "files s ?x = Some fi" "sg_buffer g = ?d" "sg_index g = ?x"
    "fsize fd = unat (sg_size g)" "fsize fi = index_len (sg_size g)" "fsize fi \<le> length (fbytes fi)" by (rule seg_backedE)
  from H(1) f have fr: "length (fbytes fd) = unat (sg_size g)" "take (length (frames ps)) (fbytes fd) = frames ps"
      "length (frames ps) + 12 \<le> unat (sg_size g)" "take (8 * length ps) (fbytes fi) = index_bytes ps"
    by (auto elim!: seg_layoutE)
  note P = full_prefix [OF full fr(4)]
  have od: "on_disk (length (frames ps)) fd" "on_disk ?n fi"
    using sy f P(2) by (auto simp: synced_def on_disk_def)
  obtain gd where gd: "files s' ?d = Some gd" "fsize gd = fsize fd" "length (fbytes gd) = page_round s (fsize fd)"
    "\<And>i. i < fsize fd \<Longrightarrow> fbytes gd ! i = fdisk fd ! i \<or> fbytes gd ! i = fbytes fd ! i"
    using crashE [OF cr kp(1) f(1)] by blast
  obtain gi where gi: "files s' ?x = Some gi" "fsize gi = fsize fi" "length (fbytes gi) = page_round s (fsize fi)"
    "\<And>i. i < fsize fi \<Longrightarrow> fbytes gi ! i = fdisk fi ! i \<or> fbytes gi ! i = fbytes fi ! i"
    using crashE [OF cr kp(2) f(2)] by blast
  have ge: "fsize fd \<le> length (fbytes gd)" "fsize fi \<le> length (fbytes gi)"
    using gd(3) gi(3) page_round_ge [OF pg] by simp_all
  have "?n \<le> index_len (sg_size g)" by simp
  then have "take ?n (fbytes gi) = take ?n (fbytes fi)"
    using ge f(6,7) by (intro crash_prefix [OF gi(4) od(2)]) simp_all
  moreover have "take (length (frames ps)) (fbytes gd) = take (length (frames ps)) (fbytes fd)"
    using ge fr f(5) by (intro crash_prefix [OF gd(4) od(1)]) simp_all
  ultimately show ?thesis using ne fr(2,3) P(1) gd(1,2) gi(1,2) ge f(5,6) by (simp add: full_part_def)
qed

text \<open>The names and the lengths of the segment files of a directory have survived.\<close>

definition entries_kept :: "os \<Rightarrow> os \<Rightarrow> string \<Rightarrow> bool" where
  "entries_kept s s' dir \<longleftrightarrow> dir \<in> set (dirs s') \<and> (\<forall>w. entry_kept s s' (data_path dir w) \<and> entry_kept s s' (index_path dir w))"

lemma crash_laid:
  assumes "parts_ok s lg b xs" "on_stable s lg xs" "crash s s'" "entries_kept s s' (lg_dir lg)" "0 < page_size s"
    "z \<in> set (zip (starts b (map snd xs)) (map snd xs))"
  shows "laid s' (lg_dir lg) (u32_of_size (lg_size lg)) (word_of_nat (fst z)) (snd z)"
  using assms
proof (induction s lg b xs rule: parts_ok.induct)
  case (2 s lg b a ps xs)
  from 2(2) obtain g where g: "lg_sgms lg a = Some g" "sg_base_offset g = word_of_nat b" "sg_size g = u32_of_size (lg_size lg)"
    "seg_held s (lg_dir lg) g ps" "ps \<noteq> []" by (auto elim!: part_okE)
  have st: "synced s g" "length (frames ps) \<le> unat (op_data (sg_s g))" "length ps \<le> unat (op_index (sg_s g))"
    using 2(3) g(1) by (simp_all add: on_stable_def)
  have kp: "entry_kept s s' (data_path (lg_dir lg) (sg_base_offset g))" "entry_kept s s' (index_path (lg_dir lg) (sg_base_offset g))"
    using 2(5) by (simp_all add: entries_kept_def)
  have "laid s' (lg_dir lg) (u32_of_size (lg_size lg)) (word_of_nat b) ps"
    using crash_stored_part [OF g(4,5) _ st 2(4) kp 2(6)] crash_full_part [OF g(4,5) _ st 2(4) kp 2(6)] g(2,3)
    by (simp add: laid_def has_room_def)
  then show ?case using 2 by (auto simp: on_stable_def)
qed simp

text \<open>A log on stable storage after a power failure.\<close>

lemma crash_open:
  assumes ok: "log_ok s lg xs" and st: "on_stable s lg xs" and cr: "crash s s'" and kp: "entries_kept s s' (lg_dir lg)"
    and out: "outcomes s' = []" and sl: "last (lg_dir lg) \<noteq> CHR ''/''" and names: "listed names (map snd xs)"
  shows "if loadable (lg_size lg) names (map snd xs)
    then \<exists>s2 lg2 xs2. mqlog_open s' names [] (lg_dir lg) (lg_size lg) flags = Some (s2, 0, Some lg2) \<and>
      log_ok s2 lg2 xs2 \<and> map snd xs2 = map snd xs
    else \<exists>s2. mqlog_open s' names [] (lg_dir lg) (lg_size lg) flags = Some (s2, ELLDSGM, None)"
proof -
  have env: "log_env s lg" and p: "parts_ok s lg 0 xs" using ok by (simp_all add: log_ok_def log_rep_def log_core_def)
  have pg: "0 < page_size s" using env by (simp add: log_env_def)
  have sb: "page_size s' = page_size s" "lg_dir lg \<in> set (dirs s')" "set (dirs s') \<subseteq> set (dirs s)"
    using cr kp by (simp_all add: crash_def entries_kept_def)
  have "all_laid s' (lg_dir lg) (u32_of_size (lg_size lg)) (map snd xs)"
    using crash_laid [OF p st cr kp pg] by (simp add: all_laid_def segments_def)
  then have "dir_lists s' (lg_dir lg) (lg_size lg) names (map snd xs)"
    by (rule reopen_lists [OF ok _ crash_none [OF cr] names])
  from open_listed [OF reopen_env [OF env sl out sb] this, of flags] show ?thesis by (auto split: if_splits)
qed

section \<open>Synchronising the last segment\<close>

lemma synced_same_bytes:
  assumes sy: "synced s g" and same: "same_bytes s s'"
  shows "synced s' g"
proof -
  from sy obtain fd fi where f: "files s (sg_buffer g) = Some fd" "files s (sg_index g) = Some fi"
    by (auto simp: synced_def split: option.splits)
  from same_bytesD [OF same f(1)] same_bytesD [OF same f(2)] obtain gd gi where
    "files s' (sg_buffer g) = Some gd" "flushed fd gd" "files s' (sg_index g) = Some gi" "flushed fi gi" by blast
  moreover have "on_disk n f \<Longrightarrow> flushed f f' \<Longrightarrow> on_disk n f'" for n f f'
    unfolding on_disk_def flushed_def by (metis min_less_iff_conj)
  ultimately show ?thesis using sy f by (auto simp: synced_def)
qed

lemma sync_stable:
  assumes ok: "log_ok s lg (xs @ [(a, ps)])" and st: "on_stable s lg xs" and sy: "log_synced s lg [(a, ps)]"
    and mp: "\<And>p. mapping_ok s k p" and run: "mqlog_sync s lg = Some (s', lg', rc)" and rc: "0 < rc"
  shows "on_stable s' lg' (xs @ [(a, ps)])"
proof -
  have core: "log_core s lg (xs @ [(a, ps)])" using ok by (simp add: log_ok_def log_rep_def)
  from core obtain t g where G: "lg_index lg = Some t" "mbptree_last_value t = Some (0, Some a)" "lg_sgms lg a = Some g"
    "sg_base_offset g = word_of_nat (length (contents xs))" "sg_size g = u32_of_size (lg_size lg)"
    "sg_flags g AND SGM_RDCMT = lg_flags lg AND MQLOG_RDCMT" "seg_held s (lg_dir lg) g ps" "ps \<noteq> []" by (rule core_last)
  have out: "outcomes s = []" and d: "a \<notin> fst ` set xs" using core by (auto simp: log_core_def log_env_def)
  obtain g' where sg: "segment_sync s g = (s', g', rc)" and lg': "lg' = lg\<lparr>lg_sgms := (lg_sgms lg)(a \<mapsto> g')\<rparr>"
    using run G by (auto simp: mqlog_sync_def split: prod.splits)
  note H = seg_heldD [OF G(7)]
  have ne: "sg_buffer g \<noteq> sg_index g" using H(1) by (auto elim: seg_layoutE)
  note R = segment_sync_run [OF out H(4) rep_in_mapping [OF H(2)] ne mp mp sg]
  have "synced s' g'" using R sy G(3) by simp
  moreover have "length (frames ps) \<le> unat (op_data (sg_s g'))" "length ps \<le> unat (op_index (sg_s g'))"
    using R rc H(2,7) by (auto simp: seg_rep_def seg_eos_def)
  moreover have "on_stable s' lg' xs"
  proof -
    have "lg_sgms lg' (fst ap) = lg_sgms lg (fst ap)" if "ap \<in> set xs" for ap using d that lg' by auto
    then show ?thesis using st R synced_same_bytes [of s _ s'] unfolding on_stable_def by (fastforce split: option.splits)
  qed
  ultimately show ?thesis using lg' by (simp add: on_stable_def)
qed


section \<open>Earlier segments\<close>

text \<open>Synchronising reaches the files of the last segment only.\<close>

lemma sync_last_files:
  assumes ok: "log_ok s lg (xs @ [(a, ps)])" and run: "mqlog_sync s lg = Some (s', lg', rc)"
    and q: "q \<notin> {data_path (lg_dir lg) (word_of_nat (length (contents xs))), index_path (lg_dir lg) (word_of_nat (length (contents xs)))}"
  shows "files s' q = files s q"
proof -
  have core: "log_core s lg (xs @ [(a, ps)])" using ok by (simp add: log_ok_def log_rep_def)
  from core obtain t g where G: "lg_index lg = Some t" "mbptree_last_value t = Some (0, Some a)" "lg_sgms lg a = Some g"
    "sg_base_offset g = word_of_nat (length (contents xs))" "sg_size g = u32_of_size (lg_size lg)"
    "sg_flags g AND SGM_RDCMT = lg_flags lg AND MQLOG_RDCMT" "seg_held s (lg_dir lg) g ps" "ps \<noteq> []" by (rule core_last)
  from run G obtain g' where "segment_sync s g = (s', g', rc)" by (auto simp: mqlog_sync_def split: prod.splits)
  from segment_sync_files [OF this] seg_heldD(5,6) [OF G(7)] G(4) q show ?thesis by simp
qed

lemma disk_empty_lost:
  assumes e: "disk_empty s dir w sz" and env: "env_ok (power_loss s) dir w sz" and pg: "0 < page_size s"
    and sz: "12 \<le> unat sz" "8 \<le> index_len sz"
  shows "\<exists>s' g. segment_open (power_loss s) dir w sz fl = Some (s', 0, Some g) \<and> seg_rep s' g []"
proof -
  from e obtain fd fi where f: "files s (data_path dir w) = Some fd" "files s (index_path dir w) = Some fi"
    "fsize fd = unat sz" "fsize fi = index_len sz" "slice (fdisk fd) 0 2 = zeros 2" "fdisk fi = zeros (fsize fi)"
    by (auto simp: disk_empty_def split: option.splits)
  have z: "slice (fbytes (lose_file s fd)) 0 2 = zeros 2"
    using slice_zerosD [OF f(5)] f(3) sz page_round_ge [OF pg, of "fsize fd"]
    by (subst slice_zeros_iff) (auto simp: lose_file_def Let_def nth_append)
  have i: "take (index_len sz) (fbytes (lose_file s fi)) = zeros (index_len sz)"
    using f(4,6) by (auto simp: lose_file_def Let_def intro!: nth_equalityI)
  have l: "fsize f' \<le> length (fbytes (lose_file s f'))" "fsize (lose_file s f') = fsize f'" for f'
    using page_round_ge [OF pg, of "fsize f'"] by (simp_all add: lose_file_def Let_def)
  have "seg_stored (power_loss s) dir w sz []"
    using f(1-4) z i l [of fd] l [of fi] sz
    by (simp add: seg_stored_def power_loss_def opened_file_def HEADER_FLAGS_READY_def HEADER_FLAGS_EOS_def index_bytes_def)
  from segment_open_recovers [OF env this, of fl] show ?thesis by blast
qed

text \<open>C33. \<open>mqlog_sync\<close> synchronises the last segment only: when no frame of the first segment has
  reached the disk before a roll-over, \<open>mqlog_sync\<close> may report success, and still a power failure can leave the first segment
  empty.\<close>

theorem mqlog_sync_last_only:
  assumes ok: "log_ok s lg ((a, ps) # xs)" and xs: "xs \<noteq> []"
    and e: "disk_empty s (lg_dir lg) 0 (u32_of_size (lg_size lg))"
    and mp: "\<And>p. mapping_ok s k p" and run: "mqlog_sync s lg = Some (s', lg', rc)"
  shows "\<exists>s3 g. segment_open (power_loss s') (lg_dir lg) 0 (u32_of_size (lg_size lg)) flags = Some (s3, 0, Some g) \<and> seg_rep s3 g []"
proof -
  from xs obtain ys b qs where y: "(a, ps) # xs = ((a, ps) # ys) @ [(b, qs)]" by (metis append_Cons rev_exhaust surj_pair)
  note ok' = ok [unfolded y]
  have S: "log_env s' lg" and env: "log_env s lg"
  proof -
    have "log_env s' lg'" "same_log lg lg'" using sync_ok [OF ok mp run] by (simp_all add: log_ok_def log_rep_def log_core_def)
    then show "log_env s' lg" by (simp add: log_env_def same_log_def)
    show "log_env s lg" using ok by (simp add: log_ok_def log_rep_def log_core_def)
  qed
  have "ps \<noteq> []" and len: "length (contents ((a, ps) # ys)) < 2 ^ 64"
    using ok' by (auto simp: log_ok_def log_rep_def log_core_def elim: part_okE)
  then have "(0 :: u64) \<noteq> word_of_nat (length (contents ((a, ps) # ys)))"
    using word_of_nat_eq [of 0 "length (contents ((a, ps) # ys))"] by simp
  then have "files s' q = files s q" if "q \<in> {data_path (lg_dir lg) 0, index_path (lg_dir lg) 0}" for q
    using that by (intro sync_last_files [OF ok' run]) auto
  then have "disk_empty s' (lg_dir lg) 0 (u32_of_size (lg_size lg))" using e by (simp add: disk_empty_def)
  moreover have "env_ok (power_loss s') (lg_dir lg) 0 (u32_of_size (lg_size lg))"
    using log_env_ok(1) [of "power_loss s'" lg] S by (simp add: log_env_def power_loss_def)
  moreover have "12 \<le> unat (u32_of_size (lg_size lg))" "8 \<le> index_len (u32_of_size (lg_size lg))"
    using env log_env_ok(2) [OF env] index_len_ge [OF env] by (simp_all add: log_env_def)
  ultimately show ?thesis using S by (intro disk_empty_lost) (simp_all add: log_env_def)
qed

section \<open>Examples\<close>

lemma sync_never:
  assumes ok: "log_ok s lg (xs @ [(a, ps)])" and ns: "never_synced lg a" and mp: "\<And>p. mapping_ok s k p"
    and sm: "unat (lg_size lg) < 2 ^ 31"
  obtains s' lg' rc where "mqlog_sync s lg = Some (s', lg', rc)" "0 < rc"
proof -
  have core: "log_core s lg (xs @ [(a, ps)])" using ok by (simp add: log_ok_def log_rep_def)
  from core obtain t g where G: "lg_index lg = Some t" "mbptree_last_value t = Some (0, Some a)" "lg_sgms lg a = Some g"
    "sg_base_offset g = word_of_nat (length (contents xs))" "sg_size g = u32_of_size (lg_size lg)"
    "sg_flags g AND SGM_RDCMT = lg_flags lg AND MQLOG_RDCMT" "seg_held s (lg_dir lg) g ps" "ps \<noteq> []" by (rule core_last)
  have env: "log_env s lg" using core by (simp add: log_core_def)
  note H = seg_heldD [OF G(7)]
  have ne: "sg_buffer g \<noteq> sg_index g" using H(1) by (auto elim: seg_layoutE)
  obtain s' g' rc where sg: "segment_sync s g = (s', g', rc)" by (metis prod.exhaust)
  have sm': "unat (sg_size g) < 2 ^ 31" using sm G(5) log_env_ok(2) [OF env] by simp
  have "0 < length ps" "12 \<le> length (frames ps)" using G(8) length_frames_ge [of ps] by (cases ps; simp)+
  then have w: "op_data (sg_s g) < op_data (sg_w g)" "op_index (sg_s g) < op_index (sg_w g)"
    using ns G(3) H(2,7) by (auto simp: never_synced_def seg_rep_def seg_eos_def word_less_nat_alt)
  have "outcomes s = []" using env by (simp add: log_env_def)
  from segment_sync_rc(2) [OF this H(4) rep_in_mapping [OF H(2)] ne mp mp held_small [OF G(7) sm'] sg w] have "0 < rc" .
  then show ?thesis using that G sg by (simp add: mqlog_sync_def)
qed

lemma demo_first:
  assumes "q \<noteq> []" "length q \<le> 1000"
  obtains s lg s1 lg1 a where "demo_log = Some (s, lg)" "mqlog_write s lg 0 q = Some (s1, lg1, int (length q))"
    "log_ok s1 lg1 [(a, [q])]" "log_synced s1 lg1 [(a, [q])]" "never_synced lg1 a" "disk_empty s1 ''d'' 0 1024"
    "lg_dir lg1 = ''d''" "lg_size lg1 = 1024" "page_size s1 = 256" "map_base s1 = map_base demo_os"
proof -
  obtain s lg where l: "demo_log = Some (s, lg)" "log_ok s lg []" "lg_dir lg = ''d''" "lg_size lg = 1024" "lg_flags lg = 0"
    "page_size s = 256" "map_base s = map_base demo_os" by (rule demo_log_ok)
  have "index_free s lg [] q" by (simp add: index_free_def)
  from write_ok [OF l(2) _ assms(1) _ this, of 0] assms(2) l(4) obtain s1 lg1 xs where
    w: "mqlog_write s lg 0 q = Some (s1, lg1, int (length q))" "log_ok s1 lg1 xs" "extended [] (lg_next lg) q xs" "same_log lg lg1"
      "map_base s1 = map_base s" "page_size s1 = page_size s" "log_synced s1 lg1 xs"
      "xs = [(lg_next lg, [q])] \<longrightarrow> never_synced lg1 (lg_next lg) \<and> disk_empty s1 (lg_dir lg) 0 (u32_of_size (lg_size lg))"
    by auto
  have xs: "xs = [(lg_next lg, [q])]" using w(3) by (simp add: extended_def)
  show ?thesis
    using w(8) xs l w(4-6) by (intro that [OF l(1) w(1) w(2,7) [unfolded xs]]) (simp_all add: same_log_def u32_of_size_def)
qed


text \<open>Two payloads of 700 bytes take two segments.\<close>

theorem mqlog_sync_last_only_witness:
  "\<exists>s lg s1 lg1 s2 lg2 s3 lg3 rc s4 g. demo_log = Some (s, lg) \<and> mqlog_write s lg 0 (zeros 700) = Some (s1, lg1, 700) \<and>
     mqlog_write s1 lg1 0 (zeros 700) = Some (s2, lg2, 700) \<and> mqlog_sync s2 lg2 = Some (s3, lg3, rc) \<and> 0 < rc \<and>
     segment_open (power_loss s3) ''d'' 0 1024 0 = Some (s4, 0, Some g) \<and> seg_rep s4 g []"
proof -
  let ?q = "zeros 700"
  have q: "?q \<noteq> []" "length ?q = 700" by (simp_all add: zeros_def)
  obtain s lg s1 lg1 a where d: "demo_log = Some (s, lg)" "mqlog_write s lg 0 ?q = Some (s1, lg1, int (length ?q))"
    "log_ok s1 lg1 [(a, [?q])]" "log_synced s1 lg1 [(a, [?q])]" "never_synced lg1 a" "disk_empty s1 ''d'' 0 1024"
    "lg_dir lg1 = ''d''" "lg_size lg1 = 1024" "page_size s1 = 256" "map_base s1 = map_base demo_os"
    by (rule demo_first [OF q(1)]) (simp_all add: q(2))
  have len: "length (frames [?q]) = 712" "length (frames [?q, ?q]) = 1424" by (simp_all add: q(2) frames_def)
  have big: "\<not> seg_layout s' g [?q, ?q]" if "sg_size g = 1024" for s' g
    using len(2) that by (auto elim!: seg_layoutE)
  have held: "\<exists>g. lg_sgms lg' c = Some g \<and> sg_size g = 1024 \<and> seg_held s' ''d'' g ps"
    if "log_ok s' lg' [(c, ps)]" "lg_dir lg' = ''d''" "lg_size lg' = 1024" for s' lg' c ps
    using that by (auto simp: log_ok_def log_rep_def log_core_def u32_of_size_def elim!: part_okE)
  have "index_free s1 lg1 [(a, [?q])] ?q"
    using held [OF d(3,7,8)] len(1) q(2) by (auto simp: index_free_def takes_def fits_def)
  from write_ok [OF d(3) _ q(1) _ this, of 0] d(7,8) q(2) obtain s2 lg2 xs where
    w: "mqlog_write s1 lg1 0 ?q = Some (s2, lg2, int (length ?q))" "log_ok s2 lg2 xs" "extended [(a, [?q])] (lg_next lg1) ?q xs"
      "same_log lg1 lg2" "map_base s2 = map_base s1" "page_size s2 = page_size s1" "disk_kept s1 s2"
      "xs = [(a, [?q]), (lg_next lg1, [?q])] \<longrightarrow> never_synced lg2 (lg_next lg1)" by auto
  have L: "lg_dir lg2 = ''d''" "lg_size lg2 = 1024" using w(4) d(7,8) by (simp_all add: same_log_def)
  have "xs \<noteq> [(a, [?q, ?q])]"
    using held [of s2 lg2 a "[?q, ?q]"] w(2) L big seg_heldD(1) by blast
  then have xs: "xs = [(a, [?q]), (lg_next lg1, [?q])]" using w(3) by (auto simp: extended_def Cons_eq_append_conv)
  have ns: "never_synced lg2 (lg_next lg1)" using w(8) xs by simp
  have mp: "mapping_ok s2 8 p" for p using demo_mapping [of s2 p] w(5,6) d(9,10) by simp
  have ok2: "log_ok s2 lg2 ([(a, [?q])] @ [(lg_next lg1, [?q])])" using w(2) xs by simp
  obtain s3 lg3 rc where sy: "mqlog_sync s2 lg2 = Some (s3, lg3, rc)" "0 < rc"
    by (rule sync_never [OF ok2 ns mp]) (simp_all add: L)
  have "disk_empty s2 (lg_dir lg2) 0 (u32_of_size (lg_size lg2))"
    using disk_empty_kept [OF d(6) w(7)] L by (simp add: u32_of_size_def)
  from mqlog_sync_last_only [OF w(2) [unfolded xs] _ this mp sy(1), of 0] L
  have "\<exists>s4 g. segment_open (power_loss s3) ''d'' 0 1024 0 = Some (s4, 0, Some g) \<and> seg_rep s4 g []" by (simp add: u32_of_size_def)
  moreover have "mqlog_write s lg 0 ?q = Some (s1, lg1, 700)" "mqlog_write s1 lg1 0 ?q = Some (s2, lg2, 700)"
    using d(2) w(1) q(2) by simp_all
  ultimately show ?thesis using d(1) sy by blast
qed

end
