(* ===== verification/Bench.thy ===== *)
theory Bench
  imports Mqlog_Lifecycle
begin

text \<open>
  The producer benchmark (\<^verbatim>\<open>src/bench/src/producer_bench.c\<close>, with \<open>random_block\<close> of \<^verbatim>\<open>bench_util.c\<close>), a
  program that uses the library: it writes one block many times into a new log. The
  numbers that \<open>rand\<close> yields, the two times that \<open>clock_gettime\<close> tells, the listings of the
  directory and \<open>errno\<close> are arguments; whether \<open>calloc\<close> and \<open>clock_gettime\<close> succeed is read from
  \<open>outcomes\<close>. What \<open>print_report\<close> is called with is part of the result; the throughput it
  computes from that in \<open>long double\<close> and prints is not modelled.
\<close>

section \<open>The program\<close>

fun block_loop :: "(nat \<Rightarrow> u32) \<Rightarrow> bytes \<Rightarrow> nat list \<Rightarrow> bytes" where
  "block_loop rand block [] = block"
| "block_loop rand block (i # is) = block_loop rand (block[i := ucast (rand i)]) is"

definition random_block :: "os \<Rightarrow> (nat \<Rightarrow> u32) \<Rightarrow> u64 \<Rightarrow> os \<times> bytes option" where
  "random_block s rand sz = (let (ok, s) = sys_call s in
     if \<not> ok then (s, None) else (s, Some (block_loop rand (zeros (unat sz)) [0..<unat sz])))"

fun write_loop :: "os \<Rightarrow> mqlog \<Rightarrow> int \<Rightarrow> bytes \<Rightarrow> u64 \<Rightarrow> nat \<Rightarrow> (os \<times> mqlog \<times> bool) option" where
  "write_loop s lg errno block sz 0 = Some (s, lg, True)"
| "write_loop s lg errno block sz (Suc n) = do {
     (s, lg, written) \<leftarrow> mqlog_write s lg errno block;
     if (word_of_int written :: u64) \<noteq> sz then Some (s, lg, False) else write_loop s lg errno block sz n }"

definition bench_dir :: string where
  "bench_dir = ''/tmp/producer_bench''"

record timespec =
  tv_sec :: int
  tv_nsec :: int

record report =
  rp_bench :: string
  rp_ts :: timespec
  rp_ops :: u64
  rp_size :: u64

definition producer_bench ::
  "os \<Rightarrow> (nat \<Rightarrow> u32) \<Rightarrow> timespec \<times> timespec \<Rightarrow> string list \<Rightarrow> string list \<Rightarrow> bool list \<Rightarrow> int \<Rightarrow>
   u64 \<Rightarrow> u64 \<Rightarrow> u64 \<Rightarrow> (os \<times> int \<times> report option) option" where
  "producer_bench s rand clock walk names outs errno segment_size num sz =
     (let (s, block) = random_block s rand sz in
      case block of None \<Rightarrow> Some (s, - 1, None) | Some block \<Rightarrow>
        (let (_, s) = delete_directory s walk bench_dir in do {
           (s, rc, lg) \<leftarrow> mqlog_open s names outs bench_dir segment_size 0;
           if rc \<noteq> 0 then Some (s, - 1, None) else do {
             lg \<leftarrow> lg;
             let (ok, s) = sys_call s;
             let tsb = fst clock;
             if \<not> ok then Some (s, - 1, None) else do {
               (s, lg, done) \<leftarrow> write_loop s lg errno block sz (unat num);
               if \<not> done then Some (s, - 1, None) else do {
                 let (ok, s) = sys_call s;
                 let tse = snd clock;
                 if \<not> ok then Some (s, - 1, None) else do {
                   let tsr = \<lparr>tv_sec = tv_sec tse - tv_sec tsb, tv_nsec = tv_nsec tse - tv_nsec tsb\<rparr>;
                   let report = \<lparr>rp_bench = ''producer_bench'', rp_ts = tsr, rp_ops = num, rp_size = num * sz\<rparr>;
                   (s, lg, _) \<leftarrow> mqlog_close s lg;
                   Some (s, 0, Some report) } } } } }))"

section \<open>What it does\<close>

lemma block_loop_length [simp]: "length (block_loop rand block is) = length block"
  by (induction rand block "is" rule: block_loop.induct) simp_all

lemma write_loop_ok:
  assumes "log_ok s lg xs" "length (contents xs) + n < 2 ^ 64" "84 \<le> length p" "length p + 24 \<le> unat (lg_size lg)"
    "\<forall>q \<in> set (contents xs). 84 \<le> length q"
  shows "\<exists>s' lg' xs'. write_loop s lg errno p (size_of p) n = Some (s', lg', True) \<and> log_ok s' lg' xs' \<and>
    contents xs' = contents xs @ replicate n p \<and> same_log lg lg' \<and> map_base s' = map_base s \<and> page_size s' = page_size s"
  using assms
proof (induction n arbitrary: s lg xs)
  case (Suc n)
  have ne: "p \<noteq> []" using Suc.prems(3) by auto
  have "length (contents xs) + 1 < 2 ^ 64" using Suc.prems(2) by simp
  from write_ok [OF Suc.prems(1) this ne Suc.prems(4) big_index_free [OF Suc.prems(1,5,3)], of errno]
  obtain s1 lg1 xs1 where w: "mqlog_write s lg errno p = Some (s1, lg1, int (length p))" "log_ok s1 lg1 xs1"
    "extended xs (lg_next lg) p xs1" "same_log lg lg1" "map_base s1 = map_base s" "page_size s1 = page_size s" by blast
  have c: "contents xs1 = contents xs @ [p]" by (rule extended_contents [OF w(3)])
  have "lg_size lg1 = lg_size lg" using w(4) by (simp add: same_log_def)
  with Suc.IH [OF w(2)] c Suc.prems(2-5) obtain s' lg' xs' where
    "write_loop s1 lg1 errno p (size_of p) n = Some (s', lg', True)" "log_ok s' lg' xs'"
    "contents xs' = contents xs1 @ replicate n p" "same_log lg1 lg'" "map_base s' = map_base s1" "page_size s' = page_size s1" by auto
  then show ?case using w c by (intro exI [of _ s'] exI [of _ lg'] exI [of _ xs']) (simp add: size_of_def same_log_def)
qed (auto simp: same_log_def)

text \<open>Payloads of at least 85 bytes leave an index entry free in a segment of at least 9120 bytes, so that
  it can be opened again.\<close>

lemma frames_ge: "\<forall>q \<in> set ps. k \<le> length q \<Longrightarrow> (k + 12) * length ps \<le> length (frames ps)"
  by (induction ps) auto

lemma held_index_free:
  assumes held: "seg_held s dir g ps" and big: "\<forall>q \<in> set ps. 85 \<le> length q" and sz: "9120 \<le> unat (sg_size g)"
  shows "8 * length ps + 8 \<le> index_len (sg_size g)"
proof -
  have "length (frames ps) \<le> unat (sg_size g)" using seg_heldD(1) [OF held] by (auto elim!: seg_layoutE)
  with frames_ge [OF big] sz have "(8 * length ps + 8) * 12 \<le> unat (sg_size g) + 1" by (cases "length ps \<le> 94") simp_all
  then show ?thesis by (simp only: index_len_def less_eq_div_iff_mult_less_eq zero_less_numeral)
qed

lemma log_index_free:
  assumes "log_ok s lg xs" "\<forall>q \<in> set (contents xs). 85 \<le> length q" "9120 \<le> unat (u32_of_size (lg_size lg))" "ps \<in> set (map snd xs)"
  shows "8 * length ps + 8 \<le> index_len (u32_of_size (lg_size lg))"
proof -
  have p: "parts_ok s lg 0 xs" using assms(1) by (simp add: log_ok_def log_rep_def log_core_def)
  from assms(4) obtain a where "(a, ps) \<in> set xs" by auto
  with parts_ok_mem [OF p this] obtain g where "sg_size g = u32_of_size (lg_size lg)" "seg_held s (lg_dir lg) g ps" by blast
  moreover have "\<forall>q \<in> set ps. 85 \<le> length q" using assms(2,4) by (auto simp: contents_def)
  ultimately show ?thesis using held_index_free [of s "lg_dir lg" g ps] assms(3) by simp
qed

text \<open>When nothing fails, the benchmark reports \<open>num\<close> operations and leaves a log with \<open>num\<close> copies of
  its block: whoever opens the directory afterwards finds them, when \<open>readdir\<close> lists the segment files in the order of
  their base offsets, and gets \<open>ELLDSGM\<close> when it lists them in another order.\<close>

definition holds_copies :: "os \<Rightarrow> u64 \<Rightarrow> nat \<Rightarrow> bytes \<Rightarrow> bool" where
  "holds_copies s seg n block \<longleftrightarrow> (\<exists>pss. concat pss = replicate n block \<and>
     (\<forall>names flags. mset (filter is_log names) = mset (map log_name (starts 0 pss)) \<longrightarrow>
       (if filter is_log names = map log_name (starts 0 pss)
        then \<exists>s' lg xs. mqlog_open s names [] bench_dir seg flags = Some (s', 0, Some lg) \<and> log_ok s' lg xs \<and>
          contents xs = replicate n block
        else \<exists>s'. mqlog_open s names [] bench_dir seg flags = Some (s', ELLDSGM, None))))"

lemma closed_log_reopens:
  assumes ok: "log_ok s lg xs" and mp: "\<And>p. mapping_ok s k p" and dir: "lg_dir lg = bench_dir" "lg_size lg = seg"
    and seg: "9120 \<le> unat seg" "unat seg < 2 ^ 31" and cs: "contents xs = replicate n block" and big: "85 \<le> length block"
  shows "\<exists>s' lg'. mqlog_close s lg = Some (s', lg', 0) \<and> holds_copies s' seg n block"
proof -
  have rep: "log_rep s lg xs" and env: "log_env s lg" using ok by (simp_all add: log_ok_def log_rep_def log_core_def)
  from close_ok [OF rep mp] seg(2) dir obtain s' lg' where
    c: "mqlog_close s lg = Some (s', lg', 0)" "kept s' (lg_dir lg) (u32_of_size (lg_size lg)) 0 (map snd xs)"
      "outcomes s' = []" "page_size s' = page_size s" "dirs s' = dirs s"
      "\<forall>q. outside lg 0 (length (contents xs)) q \<longrightarrow> files s' q = files s q" by blast
  have "9120 \<le> unat (u32_of_size (lg_size lg))" using seg dir log_env_ok(2) [OF env] by simp
  then have room: "\<forall>ps \<in> set (map snd xs). has_room (u32_of_size (lg_size lg)) ps"
    using log_index_free [OF ok] cs big by (auto simp: has_room_def)
  have E: "dir_env s' (lg_dir lg) (lg_size lg)"
    using env c(3-5) by (intro reopen_env [OF env]) (simp_all add: dir bench_dir_def log_env_def)
  have la: "all_laid s' (lg_dir lg) (u32_of_size (lg_size lg)) (map snd xs)"
    using kept_laid [OF c(2)] by (simp add: all_laid_def segments_def)
  have n: "contents ys = replicate n block" if "map snd ys = map snd xs" for ys using that cs by (simp add: contents_def)
  have "if filter is_log names = map log_name (starts 0 (map snd xs))
      then \<exists>s'' lg xs. mqlog_open s' names [] bench_dir seg flags = Some (s'', 0, Some lg) \<and> log_ok s'' lg xs \<and> contents xs = replicate n block
      else \<exists>s''. mqlog_open s' names [] bench_dir seg flags = Some (s'', ELLDSGM, None)"
    if ls: "mset (filter is_log names) = mset (map log_name (starts 0 (map snd xs)))" for names flags
  proof -
    have "dir_lists s' (lg_dir lg) (lg_size lg) names (map snd xs)"
      using c(6) ls by (intro reopen_lists [OF ok la]) (simp_all add: listed_def)
    from open_listed [OF E this, of flags] n room show ?thesis unfolding loadable_def dir by metis
  qed
  moreover have "concat (map snd xs) = replicate n block" using cs by (simp add: contents_def)
  ultimately show ?thesis using c(1) unfolding holds_copies_def by blast
qed

lemma producer_bench_writes:
  assumes out: "outcomes s = []" and del: "delete_directory s walk bench_dir = (rc, s0)"
    and env: "dir_env s0 bench_dir seg" "dir_holds s0 bench_dir seg names []" and mp: "\<And>p. mapping_ok s0 k p"
    and seg: "9120 \<le> unat seg" "unat seg < 2 ^ 31" and size: "85 \<le> unat sz" "unat sz + 24 \<le> unat seg"
  shows "\<exists>s' report block. producer_bench s rand clock walk names [] errno seg num sz = Some (s', 0, Some report) \<and>
    rp_ops report = num \<and> rp_size report = num * sz \<and> length block = unat sz \<and> holds_copies s' seg (unat num) block"
proof -
  define block where "block = block_loop rand (zeros (unat sz)) [0..<unat sz]"
  have b: "length block = unat sz" "size_of block = sz" "85 \<le> length block" using size by (simp_all add: block_def size_of_def)
  have s0: "outcomes s0 = []" using env(1) by (simp add: dir_env_def)
  from open_ok [OF env, of 0] obtain s1 lg1 xs1 where
    o: "mqlog_open s0 names [] bench_dir seg 0 = Some (s1, 0, Some lg1)" "log_ok s1 lg1 xs1" "map snd xs1 = []"
      "lg_dir lg1 = bench_dir" "lg_size lg1 = seg" "page_size s1 = page_size s0" "map_base s1 = map_base s0" by blast
  have xs1: "contents xs1 = []" using o(3) by (simp add: contents_def)
  have "unat num < 2 ^ 64" using unsigned_less [of num, where ?'a = nat] by simp
  with write_loop_ok [OF o(2), of "unat num" block errno] xs1 b size o(5) obtain s2 lg2 xs2 where
    w: "write_loop s1 lg1 errno block sz (unat num) = Some (s2, lg2, True)" "log_ok s2 lg2 xs2"
      "contents xs2 = replicate (unat num) block" "same_log lg1 lg2" "map_base s2 = map_base s1" "page_size s2 = page_size s1" by auto
  have mp2: "mapping_ok s2 k p" for p using mp [of p] o(6,7) w(5,6) by (simp add: mapping_ok_def)
  have lg2: "lg_dir lg2 = bench_dir" "lg_size lg2 = seg" using w(4) o(4,5) by (simp_all add: same_log_def)
  from closed_log_reopens [OF w(2) mp2 lg2 seg w(3) b(3)] obtain s3 lg3 where
    c: "mqlog_close s2 lg2 = Some (s3, lg3, 0)" "holds_copies s3 seg (unat num) block" by blast
  have outs: "outcomes s1 = []" "outcomes s2 = []" using o(2) w(2) by (simp_all add: log_ok_def log_rep_def log_core_def log_env_def)
  have "\<exists>report. producer_bench s rand clock walk names [] errno seg num sz = Some (s3, 0, Some report) \<and>
      rp_ops report = num \<and> rp_size report = num * sz"
    using out outs del o(1) w(1) c(1) by (simp add: producer_bench_def random_block_def Let_def block_def [symmetric])
  then show ?thesis using c(2) b(1) by blast
qed

end
