(* ===== verification/Bench_Main.thy ===== *)
theory Bench_Main
  imports Bench
begin

text \<open>
  \<^verbatim>\<open>src/bench/src/bench.c\<close>: the command line of the benchmarks. The C library parses it with
  \<open>getopt\<close>, of which the part for options that all take an argument is modelled; whether it stops at the first
  argument that is not an option (POSIX) or skips it (GNU) is the argument \<open>posix\<close>, and whether the type
  \<open>char\<close> is signed, which C leaves to the compiler, the argument \<open>char_signed\<close>. \<open>atoi\<close> is undefined on a number
  that does not fit into an \<open>int\<close>, and \<open>fprintf\<close> on a format with a conversion for
  which its argument has the wrong type; both are \<^const>\<open>None\<close>. The result has what
  goes to the standard error stream and the exit status.
\<close>

section \<open>The C library\<close>

definition atoi :: "string \<Rightarrow> int option" where
  "atoi str = (let n = strtoll10 str in if - (2 ^ 31) \<le> n \<and> n < 2 ^ 31 then Some n else None)"

definition optchars :: string where
  "optchars = ''bns''"

text \<open>The next option of the remaining arguments, its argument and the arguments behind it; the characters
  as their codes, \<open>- 1\<close> at the end. Behind an invalid option the program ends.\<close>

fun getopt :: "bool \<Rightarrow> string list \<Rightarrow> int \<times> string option \<times> string list" where
  "getopt posix [] = (- 1, None, [])"
| "getopt posix (arg # args) =
     (if arg = ''--'' then (- 1, None, [])
      else if length arg < 2 \<or> hd arg \<noteq> CHR ''-'' then if posix then (- 1, None, []) else getopt posix args
      else if arg ! 1 \<notin> set optchars then (of_char CHR ''?'', None, args)
      else if length arg > 2 then (of_char (arg ! 1), Some (drop 2 arg), args)
      else case args of
        [] \<Rightarrow> (of_char CHR ''?'', None, [])
      | optarg # args \<Rightarrow> (of_char (arg ! 1), Some optarg, args))"

definition as_char :: "bool \<Rightarrow> int \<Rightarrow> int" where
  "as_char char_signed c = (if char_signed then sint (word_of_int c :: 8 word) else uint (word_of_int c :: 8 word))"

section \<open>bench.c\<close>

definition newline :: string where
  "newline = [CHR 0x0A]"

definition err :: "string \<Rightarrow> (string \<times> int) option" where
  "err fmt = (if CHR ''%'' \<in> set fmt then None else Some (fmt, 1))"

record options =
  benchmark :: "string option"
  opt_num :: u64
  opt_size :: u64

text \<open>The loop over the options: \<open>Inl\<close> is the end of the program, \<open>Inr\<close> what has been set.\<close>

partial_function (option) option_loop :: "bool \<Rightarrow> bool \<Rightarrow> string list \<Rightarrow> options \<Rightarrow> (string \<times> int + options) option" where
  "option_loop char_signed posix args opts =
     (let (c, optarg, args) = getopt posix args; c = as_char char_signed c in
      if c = - 1 then Some (Inr opts)
      else if c = of_char CHR ''b'' then option_loop char_signed posix args (opts\<lparr>benchmark := optarg\<rparr>)
      else if c = of_char CHR ''n'' then do {
        arg \<leftarrow> optarg; n \<leftarrow> atoi arg; option_loop char_signed posix args (opts\<lparr>opt_num := word_of_int n\<rparr>) }
      else if c = of_char CHR ''s'' then do {
        arg \<leftarrow> optarg; n \<leftarrow> atoi arg; option_loop char_signed posix args (opts\<lparr>opt_size := word_of_int n\<rparr>) }
      else if c = of_char CHR ''?''
      then map_option Inl (err (''Unknown option character '' @ [CHR 0x60, CHR 0x5C] @ ''x%x'' @ [CHR 0x27] @ ''.'' @ newline))
      else option_loop char_signed posix args opts)"

declare option_loop.simps [code]

definition limit_warning :: "int \<Rightarrow> string" where
  "limit_warning lim = (if lim < 4096
     then ''Recommended file ulimit >= 4096, current '' @ print_jd (word_of_int lim) @ newline else '''')"

definition default_options :: options where
  "default_options = \<lparr>benchmark = None, opt_num = 50000000, opt_size = 100\<rparr>"

definition segment_size :: u64 where
  "segment_size = 524288000"

definition main ::
  "bool \<Rightarrow> bool \<Rightarrow> os \<Rightarrow> (nat \<Rightarrow> u32) \<Rightarrow> timespec \<times> timespec \<Rightarrow> string list \<Rightarrow> string list \<Rightarrow> bool list \<Rightarrow> int \<Rightarrow>
   string list \<Rightarrow> (os \<times> string \<times> int) option" where
  "main char_signed posix s rand clock walk names outs errno argv =
     (let (lim, s) = file_limit s; out = limit_warning lim in do {
        r \<leftarrow> option_loop char_signed posix (tl argv) default_options;
        case r of
          Inl (msg, status) \<Rightarrow> Some (s, out @ msg, status)
        | Inr opts \<Rightarrow> (case benchmark opts of
            None \<Rightarrow> do {
              (msg, status) \<leftarrow> err (''Benchmark type option not specified -- '' @ [CHR 0x27] @ ''b'' @ [CHR 0x27] @ newline);
              Some (s, out @ msg, status) }
          | Some b \<Rightarrow>
              if take (length ''producer_bench'') b = ''producer_bench'' then do {
                (s, rc, _) \<leftarrow> producer_bench s rand clock walk names outs errno segment_size (opt_num opts) (opt_size opts);
                if rc \<noteq> 0 then do {
                  (msg, status) \<leftarrow> err (''producer_bench test failed'' @ newline);
                  Some (s, out @ msg, status) }
                else Some (s, out, 0) }
              else Some (s, out, 0)) })"

section \<open>Parsing the command line\<close>

lemma atoi_dec: "n < 2 ^ 31 \<Longrightarrow> atoi (dec n) = Some (int n)"
  using strtoll10_dec [of "[]" n] by (simp add: atoi_def)

lemma as_char_ascii: "as_char char_signed 98 = 98" "as_char char_signed 110 = 110" "as_char char_signed 115 = 115" "as_char char_signed 63 = 63"
  by (simp_all add: as_char_def sint_uint)

lemma as_char_end: "as_char char_signed (- 1) = (if char_signed then - 1 else 255)"
  by (simp add: as_char_def unsigned_minus_1_eq_mask mask_eq_exp_minus_1)

text \<open>The settings that a user can make, and how they are written on a command line.\<close>

datatype setting = Benchmark string | Number nat | Size nat

fun setting_args :: "setting \<Rightarrow> string list" where
  "setting_args (Benchmark b) = [''-b'', b]"
| "setting_args (Number n) = [''-n'', dec n]"
| "setting_args (Size n) = [''-s'', dec n]"

fun set_option :: "options \<Rightarrow> setting \<Rightarrow> options" where
  "set_option opts (Benchmark b) = opts\<lparr>benchmark := Some b\<rparr>"
| "set_option opts (Number n) = opts\<lparr>opt_num := word_of_nat n\<rparr>"
| "set_option opts (Size n) = opts\<lparr>opt_size := word_of_nat n\<rparr>"

fun setting_fits :: "setting \<Rightarrow> bool" where
  "setting_fits (Benchmark b) = True"
| "setting_fits (Number n) = (n < 2 ^ 31)"
| "setting_fits (Size n) = (n < 2 ^ 31)"

lemma getopt_setting:
  "getopt posix (''-b'' # arg # args) = (98, Some arg, args)" "getopt posix (''-n'' # arg # args) = (110, Some arg, args)"
  "getopt posix (''-s'' # arg # args) = (115, Some arg, args)"
  by (simp_all add: optchars_def)

lemma option_loop_setting:
  "setting_fits x \<Longrightarrow> option_loop cs posix (setting_args x @ args) opts = option_loop cs posix args (set_option opts x)"
  by (cases x) (simp_all add: option_loop.simps [of cs posix "_ # _"] getopt_setting as_char_ascii atoi_dec del: getopt.simps)

lemma option_loop_end: "option_loop True posix [] opts = Some (Inr opts)"
  by (subst option_loop.simps) (simp add: as_char_end)

text \<open>Later settings override earlier ones, in any order of the options.\<close>

lemma option_loop_settings:
  "\<forall>x \<in> set xs. setting_fits x \<Longrightarrow>
   option_loop True posix (concat (map setting_args xs)) opts = Some (Inr (foldl set_option opts xs))"
  by (induction xs arbitrary: opts) (simp_all add: option_loop_setting option_loop_end)

text \<open>The result of \<open>getopt\<close> is kept in a \<open>char\<close>: where that type is unsigned, the comparison with
  \<open>- 1\<close> always fails, and the loop never ends.\<close>

lemma as_char_unsigned: "as_char False c \<noteq> - 1"
proof -
  have "0 \<le> as_char False c" by (simp add: as_char_def)
  then show ?thesis by linarith
qed

lemma option_loop_unsigned_aux:
  assumes "option_loop cs posix args opts = Some r"
  shows "\<not> cs \<longrightarrow> (\<forall>opts'. r \<noteq> Inr opts')"
  using assms
proof (induction cs posix args opts r rule: option_loop.raw_induct [rotated, consumes 1, case_names step])
  case (step loop cs posix args opts r)
  from step(2) show ?case
    by (auto simp: Let_def bind_eq_Some_conv as_char_unsigned split: prod.splits if_splits dest: step(1) [rule_format])
qed

lemma option_loop_unsigned: "option_loop False posix args opts \<noteq> Some (Inr opts')"
  using option_loop_unsigned_aux by blast

text \<open>So behind valid options it does not return at all.\<close>

lemma option_loop_unsigned_end_aux:
  assumes "option_loop cs posix args opts = Some r"
  shows "\<not> (\<not> cs \<and> args = [])"
  using assms
proof (induction cs posix args opts r rule: option_loop.raw_induct [rotated, consumes 1, case_names step])
  case (step loop cs posix args opts r)
  show ?case
  proof
    assume "\<not> cs \<and> args = []"
    then have "loop False posix [] opts = Some r" using step(2) by (simp add: as_char_end)
    from step(1) [rule_format, OF this] show False by simp
  qed
qed

lemma option_loop_unsigned_never:
  "\<forall>x \<in> set xs. setting_fits x \<Longrightarrow> option_loop False posix (concat (map setting_args xs)) opts = None"
  using option_loop_unsigned_end_aux [of False posix "[]"]
  by (induction xs arbitrary: opts) (auto simp: option_loop_setting intro: option.exhaust_sel)

section \<open>What it does\<close>

lemma file_limit_state: "outcomes s = [] \<Longrightarrow> file_limit s = (int_of_size (nofile_cur s), s)"
  by (simp add: file_limit_def)

text \<open>Without a benchmark the program fails, whatever else is set.\<close>

lemma main_no_benchmark:
  assumes "outcomes s = []" "\<forall>x \<in> set xs. setting_fits x" "benchmark (foldl set_option default_options xs) = None"
  shows "\<exists>msg. main True posix s rand clock walk names outs errno (prog # concat (map setting_args xs)) = Some (s, msg, 1)"
  using assms by (simp add: main_def file_limit_state option_loop_settings err_def newline_def)

text \<open>An invalid option runs into the format of \<open>err\<close> that its argument does not fit.\<close>

lemma main_invalid_option:
  "c \<notin> set optchars \<Longrightarrow> c \<noteq> CHR ''-'' \<Longrightarrow> main cs posix s rand clock walk names outs errno (prog # (CHR ''-'' # c # r) # args) = None"
  by (simp add: main_def option_loop.simps [of cs posix "_ # _"] as_char_ascii err_def Let_def split: prod.split)

text \<open>C25. The program is run with options, all numbers of them below \<open>2 ^ 31\<close>, that select the benchmark
  \<open>producer_bench\<close> and a block of at least 85 bytes that fits into a segment, on a machine where no system call fails and where the
  directory holds no segment files once it has been deleted. Where the type \<open>char\<close> is signed, it exits with status 0, having printed
  at most the warning about the limit of open files, and leaves a log that holds
  exactly as many copies of one block of the given size as the options (or their defaults) say: opening the
  directory afterwards delivers them, when \<open>readdir\<close> lists each segment file once and in the order of the base offsets, and
  returns \<open>ELLDSGM\<close> when it lists them in another order. Where \<open>char\<close> is unsigned the program does not end.\<close>

theorem bench_main_writes:
  assumes out: "outcomes s = []" and del: "delete_directory s walk bench_dir = (rc, s0)"
    and env: "dir_env s0 bench_dir segment_size" "dir_holds s0 bench_dir segment_size names []"
    and mp: "\<And>p. mapping_ok s0 k p" and fits: "\<forall>x \<in> set xs. setting_fits x"
    and opts: "foldl set_option default_options xs = opts" "benchmark opts = Some (''producer_bench'' @ rest)"
    and size: "85 \<le> unat (opt_size opts)" "unat (opt_size opts) + 24 \<le> unat segment_size"
  shows "(\<exists>s' block. main True posix s rand clock walk names [] errno (prog # concat (map setting_args xs)) =
      Some (s', limit_warning (fst (file_limit s)), 0) \<and> length block = unat (opt_size opts) \<and>
      holds_copies s' segment_size (unat (opt_num opts)) block) \<and>
    main False posix s rand clock walk names [] errno (prog # concat (map setting_args xs)) = None"
proof
  have seg: "9120 \<le> unat segment_size" "unat segment_size < 2 ^ 31" by (simp_all add: segment_size_def)
  from producer_bench_writes [OF out del env mp seg size, of rand clock errno "opt_num opts"] obtain s' report block where
    "producer_bench s rand clock walk names [] errno segment_size (opt_num opts) (opt_size opts) = Some (s', 0, Some report)"
    "length block = unat (opt_size opts)" "holds_copies s' segment_size (unat (opt_num opts)) block" by blast
  then show "\<exists>s' block. main True posix s rand clock walk names [] errno (prog # concat (map setting_args xs)) =
      Some (s', limit_warning (fst (file_limit s)), 0) \<and> length block = unat (opt_size opts) \<and>
    holds_copies s' segment_size (unat (opt_num opts)) block"
    using opts option_loop_settings [OF fits, of posix default_options] by (auto simp: main_def file_limit_state [OF out])
  show "main False posix s rand clock walk names [] errno (prog # concat (map setting_args xs)) = None"
    using option_loop_unsigned_never [OF fits] by (simp add: main_def file_limit_state [OF out])
qed

definition demo_clock :: "timespec \<times> timespec" where
  "demo_clock = (\<lparr>tv_sec = 10, tv_nsec = 900\<rparr>, \<lparr>tv_sec = 12, tv_nsec = 100\<rparr>)"

theorem bench_main_writes_witness:
  "\<exists>s' block. main True False demo_os (\<lambda>i. 7) demo_clock [] [''.'', ''..''] [] 0
      [''bench'', ''-n'', ''3'', ''-b'', ''producer_bench'', ''-s'', ''90''] =
      Some (s', limit_warning (fst (file_limit demo_os)), 0) \<and> length block = 90 \<and> holds_copies s' segment_size 3 block"
proof -
  let ?xs = "[Number 3, Benchmark ''producer_bench'', Size 90]"
  have d: "dec 3 = ''3''" "dec 90 = ''90''" by code_simp+
  have o: "outcomes demo_os = []" by (simp add: demo_os_def)
  have del: "delete_directory demo_os [] bench_dir = (0, demo_os)"
    by (simp add: delete_directory_def sys_stat_def demo_os_def bench_dir_def)
  have env: "dir_env demo_os bench_dir segment_size" "dir_holds demo_os bench_dir segment_size [''.'', ''..''] []"
    by (simp_all add: dir_env_def dir_holds_def demo_os_def is_log_def suffix_def bench_dir_def segment_size_def)
  have mp: "mapping_ok demo_os 8 p" for p by (rule demo_mapping) (simp_all add: demo_os_def)
  have "\<exists>s' block. main True False demo_os (\<lambda>i. 7) demo_clock [] [''.'', ''..''] [] 0 (''bench'' # concat (map setting_args ?xs)) =
      Some (s', limit_warning (fst (file_limit demo_os)), 0) \<and>
    length block = unat (opt_size (foldl set_option default_options ?xs)) \<and>
    holds_copies s' segment_size (unat (opt_num (foldl set_option default_options ?xs))) block"
    by (rule conjunct1 [OF bench_main_writes [OF o del env mp _ refl, where rest = "[]"]]) (simp_all add: segment_size_def)
  then show ?thesis by (simp add: d)
qed

end
