(* ===== verification/Spec2Isabelle.thy ===== *)
theory Spec2Isabelle
  imports Segment_Readers Mbptree_Failures Mbptree_Lock Mbptree_Print Mqlog_Failures Mqlog_Durability Bench_Main
begin

text \<open>
  mqlog is an embeddable durable queue: an immutable log of frames in a directory. The frames
  are kept in memory-mapped \<^emph>\<open>segments\<close>, each a data file and an index file named after the
  offset of its first frame; a B+tree maps these base offsets to the open segments. This
  development models the library (\<^verbatim>\<open>src/src/\<close>) and proves what makes it correct.

  \<^bold>\<open>Parts of the program and their theories.\<close>

  \<^item> \<^verbatim>\<open>mqlogerrno.h\<close>: \<open>Errno\<close>, the error codes, as integers.
  \<^item> The operating system: \<open>Os\<close>. The state \<open>os\<close> has the files (their size, their bytes in
    memory and on disk), the directories, the page size and the addresses of mappings.
    Every system call and allocation that can fail takes its outcome from the list
    \<open>outcomes\<close>; when the list is exhausted they succeed. A mapping is the path of its
    file; \<open>mem_load\<close> and \<open>mem_store\<close> outside of a mapping are \<open>None\<close>, and \<open>msync\<close> fails for an address that
    is not on a page boundary and for a range that is not mapped. A power failure
    (\<open>crash\<close> in \<open>Segment_Sync\<close>) keeps some bytes of memory and loses others, but no byte that \<open>msync\<close> has
    covered since it was stored; directories and the names of files may vanish and lengths fall back to 0, because nothing in the code
    synchronises them. What a theorem needs of them to survive is its hypothesis (\<open>entry_kept\<close>).
  \<^item> \<^verbatim>\<open>util.c\<close>: \<open>Util\<close>, with the parts of the C library that build and read names.
  \<^item> \<^verbatim>\<open>prot.c\<close>, \<^verbatim>\<open>prot.h\<close>: \<open>Prot\<close>, the frame header and its bytes (little-endian, as on the
    machines the library targets).
  \<^item> \<^verbatim>\<open>crc32.c\<close>: \<open>Crc32\<close>, the table-driven checksum and a bit-serial reference.
  \<^item> \<^verbatim>\<open>segment.c\<close>: \<open>Segment\<close> has every function, statement by statement;
    \<open>Segment_Frames\<close> the invariant of a segment and writing, \<open>Segment_Recovery\<close> opening,
    \<open>Segment_Sync\<close> synchronising, crashing and closing, \<open>Segment_Theorems\<close> the properties.
    \<open>Segment_Writers\<close> has \<open>segment_write\<close> once more, as a thread that makes one memory access per
    step, and the interleavings of many threads as a step relation; \<open>Segment_Linear\<close> the
    invariant of the interleavings, \<open>Segment_Concurrency\<close> their properties. \<open>Segment_Readers\<close> does the same for
    \<open>segment_read\<close>: one load per step, between the steps of the writers.
  \<^item> \<^verbatim>\<open>mbptree.c\<close>: \<open>Mbptree\<close> has the functions, on a heap of nodes with parent pointers,
    shared leaves and stale slots as in the code; \<open>Mbptree_Inv\<close> the invariant,
    \<open>Mbptree_Levels\<close> and \<open>Mbptree_Append\<close> splitting and appending, \<open>Mbptree_Search\<close> the search and
    the iterator, \<open>Mbptree_Theorems\<close> the properties, \<open>Mbptree_Free\<close> freeing, \<open>Mbptree_Failures\<close> appending
    without memory, \<open>Mbptree_Lock\<close> several threads at the lock of the tree, \<open>Mbptree_Print\<close> the breadth-first iterator and printing.
  \<^item> \<^verbatim>\<open>mqlog.c\<close>: \<open>Mqlog\<close> has every function; \<open>Mqlog_Segments\<close> and \<open>Mqlog_Inv\<close> the invariant of a
    log and writing, \<open>Mqlog_Open\<close> loading and closing, \<open>Mqlog_Listing\<close> loading from a directory that is listed in any order, \<open>Mqlog_Theorems\<close>,
    \<open>Mqlog_Lifecycle\<close>, \<open>Mqlog_Durability\<close> (power failures) and \<open>Mqlog_Failures\<close> the properties.
  \<^item> \<^verbatim>\<open>cassert.h\<close>: \<open>Cassert\<close>, the assertion at compile time, used once in \<^verbatim>\<open>segment.c\<close>.
  \<^item> \<^verbatim>\<open>producer_bench.c\<close> and \<open>random_block\<close> of \<^verbatim>\<open>bench_util.c\<close>: \<open>Bench\<close>, a program that uses the library;
    \<^verbatim>\<open>bench.c\<close>: \<open>Bench_Main\<close>, its command line.
  \<^item> The interfaces: \<open>Log_Interface\<close> states an append-only log as the locale \<open>append_log\<close>, which
    both a segment and the whole log implement (interpretations \<open>sl\<close> and \<open>ml\<close>);
    \<open>Index_Interface\<close> states the ordered index the log relies on as the locale \<open>ordered_index\<close>,
    which the tree implements (interpretation \<open>ix\<close>). The bytes of integers are the locale
    \<open>le_field\<close>, interpreted at 2, 4 and 8 bytes.
  \<^item> \<open>Prelude\<close>: lemmas on lists, slices and words that the parts share.

  \<^bold>\<open>How state and operations correspond.\<close> Structures are records with the fields of the code.
  An operation takes and returns the state it changes; its error codes are integers, as in C.
  A result of \<open>None\<close> stands for undefined behaviour of the C program (an access outside of a
  mapping or an array, a dangling or null pointer) or a failed assertion; the properties say
  that it does not happen. Loops are recursive functions; those whose end depends on
  the shape of the heap (\<open>mbptree_free_from\<close>, \<open>mbptree_append_node\<close>, \<open>mbptree_find_leaf\<close>,
  \<open>close_segments\<close>, \<open>print_loop\<close>, \<open>thread_run\<close>), and the loop over the options of the benchmarks (\<open>option_loop\<close>), are partial functions, for which a run without end is \<open>None\<close> too, so that
  the properties with \<open>Some\<close> include termination; there is no fuel. Integers of
  the code are words of their width, and \<open>size_t\<close> to \<open>uint32_t\<close> conversions truncate. In the tree, addresses and the 64 bits of the union
  \<open>mbptree_value\<close> are natural numbers, with its members as views; the code only copies them and compares
  them with \<open>NULL\<close>. Sizes and indices of type \<open>int\<close> there are natural numbers too: they are proved to stay below the
  branching factor. What \<open>mqlog_close\<close> leaves of the memory of a log (segments, nodes of the index) is in its result.

  \<^bold>\<open>What the lemmas show.\<close>

  \<^item> Segments: the invariant \<open>seg_rep\<close> (the data file holds the frames of the payloads one
    after another, the index their offsets, both are zero behind) is kept by every operation;
    writing and reading on every branch; recovery of the write position by opening; what
    survives a power failure after synchronising.
  \<^item> Concurrent writers of one segment: whatever the order of their steps, the frames end up
    one after another in the order of the successful claims, no thread waits for another, and
    a reader whose loads come between their steps gets a frame only when it is complete, and always when it was complete before. The memory is sequentially consistent, a
    \<open>memcpy\<close> and the load of the 64-bit write position are one step each. (The log itself
    calls \<open>segment_write\<close> under its mutex.)
  \<^item> The tree: the invariant \<open>tree_inv\<close> (levels of sorted nodes, right parents, linked leaves,
    all leaves but the last one full) is kept by appending with all splits;
    what the lock of the tree keeps apart (appends from each other, the descent of a single search from appends) and what it does not (the scan of the leaf);
    searching returns the greatest key not above the given one; the iterator enumerates;
    freeing frees each node once.
  \<^item> The log: \<open>log_ok\<close> relates a log to its segments and their payloads (\<open>parts\<close>). Writing appends to
    \<open>contents\<close>, starting a new segment where needed; reading delivers; closing releases everything, and
    opening afterwards restores the contents, if the directory is listed in the order of the base offsets and no index file is full, and
    fails with \<open>ELLDSGM\<close> otherwise; all states reached by writes within the bounds below satisfy the invariant. What \<open>mqlog_sync\<close>
    reports as synchronised survives a power failure, for the last segment, as far as the names and lengths of the files survive.
  \<^item> The benchmarks: the program parses its options, writes its blocks through all the parts above and leaves a
    log that can be opened again, where \<open>char\<close> is signed; where it is not, the loop over the options does not end.
  \<^item> Failures and limits: the theorems of \<open>Mqlog_Failures\<close> and the later properties of
    \<open>Segment_Theorems\<close> show what the code does at its limits, some of it not intended.

  \<^bold>\<open>Bounds.\<close> The tree properties need a branching factor of at least 3 (the log uses
  7; 2 leaves inner nodes without room for a split). The log properties on rolling over ask for
  segments of at least 192 bytes, which pages always have, so that an empty segment has room
  for an end mark and two index entries, and of less than 2^31 bytes, as larger ones
  cannot be synchronised. Payloads that take at least 84 bytes each never exhaust the index
  file before the data file; that is the bound under which a segment accepts all that fits.
  The log holds less than 2^64 payloads, the range of its offsets; the names of the segment files
  print offsets as signed numbers, and \<open>strtoll\<close> reads them back to the same word.

  \<^bold>\<open>Hypotheses about the environment.\<close> The order in which \<open>readdir\<close> lists a directory is an
  argument (\<open>names\<close>); reopening is proved for every listing that has each segment file once. Most properties are about runs in which no
  system call and no allocation fails (\<open>outcomes\<close> and \<open>allocs\<close> empty, part of the invariants \<open>log_ok\<close> and \<open>index_rep\<close>); a mapping
  starts on a page boundary and does not wrap around the address space (\<open>mapping_ok\<close>). The value left in \<open>errno\<close> is an argument. A directory name is
  an opaque string that does not end in a slash and is short enough for the buffers.

  \<^bold>\<open>Not modelled.\<close> \<open>print_report\<close> of the benchmarks, which divides and prints in \<open>long double\<close> (what it
  is called with is modelled); the macros \<open>max\<close> and \<open>min\<close> of \<^verbatim>\<open>util.h\<close> and the macro \<open>u32\<close> of
  \<^verbatim>\<open>mbptree.h\<close>, which does not compile; tests and build files. The listing that
  \<open>nftw\<close> walks through and what \<open>%p\<close> prints are arguments. In \<open>Mbptree_Lock\<close> an append, a
  descent and the scan of a leaf are one step each; that they can overlap is proved, what overlapping accesses to a node do is not modelled.
\<close>

end
